(* ===== verification/Usm_Prelude.thy ===== *)
theory Usm_Prelude
  imports Main "HOL-Library.Word" "HOL-Library.Multiset"
begin

text \<open>
  Shared vocabulary of the development.  Machine integers of the C sources are
  words of their width (\<open>u8\<close>, \<open>u16\<close>, \<open>u32\<close>, \<open>u64\<close>); addresses are 64-bit words as in
  the programs.  The theory also collects the facts on lists, options and words
  that more than one component uses, in the named collections below:
  \<open>word_shift_simps\<close> (shifts and bits of words), \<open>list_upd_simps\<close> (indexed
  updates of lists) and \<open>refine_simps\<close> (equations that carry an operation
  through an abstraction function).
\<close>

unbundle bit_operations_syntax

type_synonym u8 = "8 word"
type_synonym u16 = "16 word"
type_synonym u32 = "32 word"
type_synonym u64 = "64 word"
type_synonym bytes = "8 word list"

named_theorems word_shift_simps \<open>bits of shifted and combined words\<close>
named_theorems list_upd_simps \<open>indexed reads and writes of lists\<close>
named_theorems refine_simps \<open>operations carried through an abstraction\<close>

section \<open>Words\<close>

text \<open>Reading and writing the bytes of a word in the little-endian order of the
  x86-64 machines the programs run on.\<close>

fun le_to_u64 :: "bytes \<Rightarrow> u64" where
  "le_to_u64 [] = 0"
| "le_to_u64 (b # bs) = ucast b OR push_bit 8 (le_to_u64 bs)"

fun u64_to_le :: "nat \<Rightarrow> u64 \<Rightarrow> bytes" where
  "u64_to_le 0 v = []"
| "u64_to_le (Suc n) v = ucast v # u64_to_le n (drop_bit 8 v)"

lemma length_u64_to_le [simp]: "length (u64_to_le n v) = n"
  by (induction n arbitrary: v) simp_all

lemma bit_push_drop_word [word_shift_simps]:
  fixes x :: "'a::len word"
  shows "bit (push_bit n x) k \<longleftrightarrow> n \<le> k \<and> k < LENGTH('a) \<and> bit x (k - n)"
    and "bit (drop_bit n x) k \<longleftrightarrow> bit x (n + k)"
  by (auto simp: bit_push_bit_iff bit_drop_bit_eq possible_bit_def)

lemma bit_word_len [word_shift_simps]:
  fixes x :: "'a::len word"
  shows "LENGTH('a) \<le> k \<Longrightarrow> \<not> bit x k"
  using bit_imp_le_length by fastforce

lemma le_to_u64_u64_to_le_bit:
  "bit (le_to_u64 (u64_to_le n v)) k \<longleftrightarrow> k < 8 * n \<and> bit v k"
proof (induction n arbitrary: v k)
  case (Suc n)
  have "bit (le_to_u64 (u64_to_le (Suc n) v)) k \<longleftrightarrow>
        (k < 8 \<and> bit v k) \<or> (8 \<le> k \<and> k < 64 \<and> k - 8 < 8 * n \<and> bit (drop_bit 8 v) (k - 8))"
    by (auto simp: bit_or_iff bit_ucast_iff bit_push_drop_word Suc.IH)
  also have "\<dots> \<longleftrightarrow> k < 8 * Suc n \<and> bit v k"
    using bit_imp_le_length [of v k] by (auto simp: bit_push_drop_word)
  finally show ?case .
qed simp

lemma le_to_u64_u64_to_le [simp]: "le_to_u64 (u64_to_le 8 v) = v"
proof (rule bit_word_eqI)
  fix k assume "k < LENGTH(64)"
  then show "bit (le_to_u64 (u64_to_le 8 v)) k = bit v k"
    by (simp add: le_to_u64_u64_to_le_bit)
qed

text \<open>A word xored with itself cancels, on either side.\<close>

lemma xor_cancel_left [simp]: "(x :: 'a::len word) XOR (x XOR y) = y"
  by (simp flip: xor.assoc)

lemma xor_cancel_right [simp]: "((x :: 'a::len word) XOR y) XOR y = x"
  by (simp add: xor.assoc)

text \<open>The steps hash functions are made of are injective: rotations, a word
  xored with its own shift, and the product with a unit of the ring.\<close>

lemma rot_bit:
  fixes x :: "'a::len word"
  assumes "b < LENGTH('a)" "0 < b" "k < LENGTH('a)"
  shows "bit (push_bit b x OR drop_bit (LENGTH('a) - b) x)
           (if k + b < LENGTH('a) then k + b else k + b - LENGTH('a)) = bit x k"
  using assms bit_word_len [of "LENGTH('a) + k" x]
  by (auto simp: bit_or_iff bit_push_drop_word)

lemma rot_inject:
  fixes x y :: "'a::len word"
  assumes "b < LENGTH('a)" "0 < b"
  shows "(push_bit b x OR drop_bit (LENGTH('a) - b) x = push_bit b y OR drop_bit (LENGTH('a) - b) y)
           \<longleftrightarrow> x = y"
  using rot_bit [OF assms] by (metis bit_word_eqI)

lemma xor_inject [simp]:
  fixes x :: "'a::len word"
  shows "x XOR z = y XOR z \<longleftrightarrow> x = y" and "z XOR x = z XOR y \<longleftrightarrow> x = y"
  by (metis xor_cancel_right) (metis xor_cancel_left)

lemma xor_shift_inject:
  fixes x y :: "'a::len word"
  assumes "0 < n"
  shows "x XOR drop_bit n x = y XOR drop_bit n y \<longleftrightarrow> x = y"
proof
  assume eq: "x XOR drop_bit n x = y XOR drop_bit n y"
  have "bit x k = bit y k" for k
  proof (induction "LENGTH('a) - k" arbitrary: k rule: less_induct)
    case less
    have "bit x (n + k) = bit y (n + k)"
    proof (cases "k < LENGTH('a)")
      case True
      then show ?thesis using assms by (intro less) simp
    qed (simp add: bit_word_len)
    then show ?case
      using arg_cong [OF eq, of "\<lambda>w. bit w k"] by (auto simp: bit_xor_iff bit_push_drop_word)
  qed
  then show "x = y" by (simp add: bit_eq_iff)
qed simp

lemma mult_inject:
  fixes x :: "'a::len word"
  assumes "c * d = 1"
  shows "x * c = y * c \<longleftrightarrow> x = y"
  by (metis assms mult.assoc mult.right_neutral)

lemma le_to_u64_bit:
  "bit (le_to_u64 bs) k \<longleftrightarrow> k < 64 \<and> k div 8 < length bs \<and> bit (bs ! (k div 8)) (k mod 8)"
proof (induction bs arbitrary: k)
  case (Cons b bs)
  show ?case
  proof (cases "k < 8")
    case True
    then show ?thesis by (simp add: bit_or_iff bit_ucast_iff bit_push_drop_word)
  next
    case False
    then have "k div 8 = Suc ((k - 8) div 8)" "(k - 8) mod 8 = k mod 8"
      by (simp_all add: le_div_geq le_mod_geq)
    then show ?thesis
      using False bit_word_len [of k b] by (auto simp: bit_or_iff bit_ucast_iff bit_push_drop_word Cons.IH)
  qed
qed simp

lemma le_to_u64_inject:
  assumes "length p = length q" "length p \<le> 8"
  shows "le_to_u64 p = le_to_u64 q \<longleftrightarrow> p = q"
proof
  assume eq: "le_to_u64 p = le_to_u64 q"
  show "p = q"
  proof (rule nth_equalityI [OF assms(1)], rule bit_word_eqI)
    fix i k assume "i < length p" "k < LENGTH(8)"
    then show "bit (p ! i) k = bit (q ! i) k"
      using arg_cong [OF eq, of "\<lambda>w. bit w (8 * i + k)"] assms by (auto simp: le_to_u64_bit)
  qed
qed simp

lemma length_8_cases:
  assumes "length p = 8"
  obtains a b c d e f g h where "p = [a, b, c, d, e, f, g, h]"
  using assms by (auto simp: numeral_eq_Suc length_Suc_conv)

lemma u64_to_le_8:
  "u64_to_le 8 v = map (\<lambda>i. ucast (drop_bit (8 * i) v)) [0, 1, 2, 3, 4, 5, 6, 7]"
  by (simp add: eval_nat_numeral drop_bit_drop_bit)

section \<open>Lists\<close>

lemma nth_list_update_if [list_upd_simps]:
  "i < length xs \<Longrightarrow> xs[i := v] ! j = (if i = j then v else xs ! j)"
  by (simp add: nth_list_update)

section \<open>Cyclic indices\<close>

lemma and_mask_mod:
  fixes x :: nat
  assumes "n = 2 ^ k"
  shows "x AND (n - 1) = x mod n" and "x AND (n - Suc 0) = x mod n"
  using assms by (metis mask_eq_exp_minus_1 take_bit_eq_mask take_bit_eq_mod)
    (metis assms One_nat_def mask_eq_exp_minus_1 take_bit_eq_mask take_bit_eq_mod)

lemma succ_mod_mod: "((h + j) mod n + 1) mod n = (h + Suc j) mod (n :: nat)"
  by (simp add: mod_Suc_eq)

lemma mod_reach:
  assumes "q < (n :: nat)"
  obtains j where "j < n" "(h + j) mod n = q"
proof
  let ?j = "(q + (n - h mod n)) mod n"
  show "?j < n" using assms by simp
  have "(h + ?j) mod n = (h mod n + (q + (n - h mod n))) mod n"
    by (metis mod_add_eq mod_mod_trivial)
  also have "\<dots> = (q + n) mod n"
    using assms by (metis add.commute add.left_commute le_add_diff_inverse less_imp_le mod_less_divisor not_less_zero gr0I)
  finally show "(h + ?j) mod n = q" using assms by simp
qed

lemma mod_shift_less:
  assumes "x < y" "y < (n :: nat)"
  shows "(h + x) mod n \<noteq> (h + y) mod n"
  using assms mod_eq_dvd_iff_nat [of "h + x" "h + y" n] dvd_imp_le [of n "y - x"] by auto

lemma inj_on_mod_shift: "d \<le> n \<Longrightarrow> inj_on (\<lambda>j. (h + j) mod (n :: nat)) {..<d}"
  by (rule inj_onI) (metis lessThan_iff linorder_neqE_nat mod_shift_less order_less_le_trans)

lemma Suc_mod_neq: "2 \<le> n \<Longrightarrow> i < n \<Longrightarrow> Suc i mod n \<noteq> i"
  using mod_shift_less [of 0 1 n i] by simp

lemma Suc_mod_inject: "a < n \<Longrightarrow> b < n \<Longrightarrow> Suc a mod n = Suc b mod n \<longleftrightarrow> a = b"
  using mod_shift_less [of a b n 1] mod_shift_less [of b a n 1]
  by (metis linorder_neqE_nat plus_1_eq_Suc)

section \<open>Options\<close>

lemma bind_Some_map: "Option.bind x (\<lambda>r. Some (f r)) = map_option f x"
  by (cases x) simp_all

lemma option_eqI: "(\<And>v. a = Some v \<longleftrightarrow> b = Some v) \<Longrightarrow> a = b"
  by (metis option.exhaust)

end
