(* ===== verification/Hash_Functions.thy ===== *)
theory Hash_Functions
  imports Usm_Prelude
begin

text \<open>
  The three hash functions of \<open>daemon/impl/usm/hashmap.c\<close>: SipHash-2-4
  (\<open>SIP64\<close>), the 128-bit x86 variant of MurmurHash3 cut to its first two words
  (\<open>MM86128\<close>) and xxHash (\<open>xxh3\<close>), with the wrappers \<open>hashmap_sip\<close>,
  \<open>hashmap_murmur\<close> and \<open>hashmap_xxhash3\<close>.  A C pair (pointer, length) is the byte
  list it denotes; the loops over blocks are recursions on that list.
  The theorems fix the three test vectors, show that the mixing steps are
  permutations of the hash state (no entropy of the input is lost before the
  final fold), and that changing one 8-byte block changes the internal state.
\<close>

section \<open>SipHash-2-4\<close>

definition U8TO64_LE :: "bytes \<Rightarrow> u64" where
  "U8TO64_LE p =
     ucast (p ! 0) OR push_bit 8 (ucast (p ! 1)) OR
     push_bit 16 (ucast (p ! 2)) OR push_bit 24 (ucast (p ! 3)) OR
     push_bit 32 (ucast (p ! 4)) OR push_bit 40 (ucast (p ! 5)) OR
     push_bit 48 (ucast (p ! 6)) OR push_bit 56 (ucast (p ! 7))"

definition U32TO8_LE :: "u32 \<Rightarrow> bytes" where
  "U32TO8_LE v = [ucast v, ucast (drop_bit 8 v), ucast (drop_bit 16 v), ucast (drop_bit 24 v)]"

definition U64TO8_LE :: "u64 \<Rightarrow> bytes" where
  "U64TO8_LE v = U32TO8_LE (ucast v) @ U32TO8_LE (ucast (drop_bit 32 v))"

definition ROTL :: "u64 \<Rightarrow> nat \<Rightarrow> u64" where
  "ROTL x b = push_bit b x OR drop_bit (64 - b) x"

record sip_state =
  sip_v0 :: u64
  sip_v1 :: u64
  sip_v2 :: u64
  sip_v3 :: u64

definition SIPROUND :: "sip_state \<Rightarrow> sip_state" where
  "SIPROUND s =
    (let a0 = sip_v0 s + sip_v1 s;
         a1 = ROTL (sip_v1 s) 13;
         a1 = a1 XOR a0;
         a0 = ROTL a0 32;
         a2 = sip_v2 s + sip_v3 s;
         a3 = ROTL (sip_v3 s) 16;
         a3 = a3 XOR a2;
         a0 = a0 + a3;
         a3 = ROTL a3 21;
         a3 = a3 XOR a0;
         a2 = a2 + a1;
         a1 = ROTL a1 17;
         a1 = a1 XOR a2;
         a2 = ROTL a2 32
     in \<lparr>sip_v0 = a0, sip_v1 = a1, sip_v2 = a2, sip_v3 = a3\<rparr>)"

definition sip_init :: "u64 \<Rightarrow> u64 \<Rightarrow> sip_state" where
  "sip_init seed0 seed1 =
    (let k0 = U8TO64_LE (u64_to_le 8 seed0);
         k1 = U8TO64_LE (u64_to_le 8 seed1)
     in \<lparr>sip_v0 = 0x736f6d6570736575 XOR k0, sip_v1 = 0x646f72616e646f6d XOR k1,
         sip_v2 = 0x6c7967656e657261 XOR k0, sip_v3 = 0x7465646279746573 XOR k1\<rparr>)"

definition sip_absorb :: "u64 \<Rightarrow> sip_state \<Rightarrow> sip_state" where
  "sip_absorb m s =
    (let s = s\<lparr>sip_v3 := sip_v3 s XOR m\<rparr>;
         s = SIPROUND s;
         s = SIPROUND s
     in s\<lparr>sip_v0 := sip_v0 s XOR m\<rparr>)"

fun sip_blocks :: "nat \<Rightarrow> bytes \<Rightarrow> sip_state \<Rightarrow> sip_state" where
  "sip_blocks 0 p s = s"
| "sip_blocks (Suc n) p s = sip_blocks n (drop 8 p) (sip_absorb (U8TO64_LE p) s)"

definition sip_tail :: "bytes \<Rightarrow> nat \<Rightarrow> u64" where
  "sip_tail p inlen =
    (let left = inlen mod 8;
         b = push_bit 56 (word_of_nat inlen);
         b = (if 7 \<le> left then b OR push_bit 48 (ucast (p ! 6)) else b);
         b = (if 6 \<le> left then b OR push_bit 40 (ucast (p ! 5)) else b);
         b = (if 5 \<le> left then b OR push_bit 32 (ucast (p ! 4)) else b);
         b = (if 4 \<le> left then b OR push_bit 24 (ucast (p ! 3)) else b);
         b = (if 3 \<le> left then b OR push_bit 16 (ucast (p ! 2)) else b);
         b = (if 2 \<le> left then b OR push_bit 8 (ucast (p ! 1)) else b)
     in if 1 \<le> left then b OR ucast (p ! 0) else b)"

definition SIP64 :: "bytes \<Rightarrow> u64 \<Rightarrow> u64 \<Rightarrow> u64" where
  "SIP64 inp seed0 seed1 =
    (let inlen = length inp;
         s = sip_blocks (inlen div 8) inp (sip_init seed0 seed1);
         b = sip_tail (drop (8 * (inlen div 8)) inp) inlen;
         s = sip_absorb b s;
         s = s\<lparr>sip_v2 := sip_v2 s XOR 0xff\<rparr>;
         s = SIPROUND (SIPROUND (SIPROUND (SIPROUND s)));
         b = sip_v0 s XOR sip_v1 s XOR sip_v2 s XOR sip_v3 s
     in le_to_u64 (U64TO8_LE b))"

definition hashmap_sip :: "bytes \<Rightarrow> u64 \<Rightarrow> u64 \<Rightarrow> u64" where
  "hashmap_sip data seed0 seed1 = SIP64 data seed0 seed1"

section \<open>MurmurHash3, x86, 128 bits\<close>

definition ROTL32 :: "u32 \<Rightarrow> nat \<Rightarrow> u32" where
  "ROTL32 x r = push_bit r x OR drop_bit (32 - r) x"

definition FMIX32 :: "u32 \<Rightarrow> u32" where
  "FMIX32 h =
    (let h = h XOR drop_bit 16 h;
         h = h * 0x85ebca6b;
         h = h XOR drop_bit 13 h;
         h = h * 0xc2b2ae35
     in h XOR drop_bit 16 h)"

record mm_state =
  mm_h1 :: u32
  mm_h2 :: u32
  mm_h3 :: u32
  mm_h4 :: u32

definition mm_c1 :: u32 where "mm_c1 = 0x239b961b"
definition mm_c2 :: u32 where "mm_c2 = 0xab0e9789"
definition mm_c3 :: u32 where "mm_c3 = 0x38b34ae5"
definition mm_c4 :: u32 where "mm_c4 = 0xa1e38b93"

definition mm_read32 :: "bytes \<Rightarrow> nat \<Rightarrow> u32" where
  "mm_read32 p i = ucast (p ! i) OR push_bit 8 (ucast (p ! (i + 1))) OR
     push_bit 16 (ucast (p ! (i + 2))) OR push_bit 24 (ucast (p ! (i + 3)))"

definition mm_block :: "bytes \<Rightarrow> mm_state \<Rightarrow> mm_state" where
  "mm_block p s =
    (let k1 = mm_read32 p 0; k2 = mm_read32 p 4; k3 = mm_read32 p 8; k4 = mm_read32 p 12;
         k1 = ROTL32 (k1 * mm_c1) 15 * mm_c2;
         g1 = ROTL32 (mm_h1 s XOR k1) 19 + mm_h2 s;
         g1 = g1 * 5 + 0x561ccd1b;
         k2 = ROTL32 (k2 * mm_c2) 16 * mm_c3;
         g2 = ROTL32 (mm_h2 s XOR k2) 17 + mm_h3 s;
         g2 = g2 * 5 + 0x0bcaa747;
         k3 = ROTL32 (k3 * mm_c3) 17 * mm_c4;
         g3 = ROTL32 (mm_h3 s XOR k3) 15 + mm_h4 s;
         g3 = g3 * 5 + 0x96cd1c35;
         k4 = ROTL32 (k4 * mm_c4) 18 * mm_c1;
         g4 = ROTL32 (mm_h4 s XOR k4) 13 + g1;
         g4 = g4 * 5 + 0x32ac3b17
     in \<lparr>mm_h1 = g1, mm_h2 = g2, mm_h3 = g3, mm_h4 = g4\<rparr>)"

fun mm_blocks :: "nat \<Rightarrow> bytes \<Rightarrow> mm_state \<Rightarrow> mm_state" where
  "mm_blocks 0 p s = s"
| "mm_blocks (Suc n) p s = mm_blocks n (drop 16 p) (mm_block p s)"

text \<open>The fall-through \<open>switch (len & 15)\<close>: entering at case \<open>n\<close> runs every
  statement of the cases \<open>n, n-1, ..., 1\<close>.\<close>

definition mm_tail :: "bytes \<Rightarrow> nat \<Rightarrow> mm_state \<Rightarrow> mm_state" where
  "mm_tail t left s =
    (let k1 = 0; k2 = 0; k3 = 0; k4 = 0;
         k4 = (if 15 \<le> left then k4 XOR push_bit 16 (ucast (t ! 14)) else k4);
         k4 = (if 14 \<le> left then k4 XOR push_bit 8 (ucast (t ! 13)) else k4);
         s = (if 13 \<le> left
              then s\<lparr>mm_h4 := mm_h4 s XOR ROTL32 ((k4 XOR ucast (t ! 12)) * mm_c4) 18 * mm_c1\<rparr> else s);
         k3 = (if 12 \<le> left then k3 XOR push_bit 24 (ucast (t ! 11)) else k3);
         k3 = (if 11 \<le> left then k3 XOR push_bit 16 (ucast (t ! 10)) else k3);
         k3 = (if 10 \<le> left then k3 XOR push_bit 8 (ucast (t ! 9)) else k3);
         s = (if 9 \<le> left
              then s\<lparr>mm_h3 := mm_h3 s XOR ROTL32 ((k3 XOR ucast (t ! 8)) * mm_c3) 17 * mm_c4\<rparr> else s);
         k2 = (if 8 \<le> left then k2 XOR push_bit 24 (ucast (t ! 7)) else k2);
         k2 = (if 7 \<le> left then k2 XOR push_bit 16 (ucast (t ! 6)) else k2);
         k2 = (if 6 \<le> left then k2 XOR push_bit 8 (ucast (t ! 5)) else k2);
         s = (if 5 \<le> left
              then s\<lparr>mm_h2 := mm_h2 s XOR ROTL32 ((k2 XOR ucast (t ! 4)) * mm_c2) 16 * mm_c3\<rparr> else s);
         k1 = (if 4 \<le> left then k1 XOR push_bit 24 (ucast (t ! 3)) else k1);
         k1 = (if 3 \<le> left then k1 XOR push_bit 16 (ucast (t ! 2)) else k1);
         k1 = (if 2 \<le> left then k1 XOR push_bit 8 (ucast (t ! 1)) else k1)
     in if 1 \<le> left
        then s\<lparr>mm_h1 := mm_h1 s XOR ROTL32 ((k1 XOR ucast (t ! 0)) * mm_c1) 15 * mm_c2\<rparr> else s)"

definition mm_sum :: "mm_state \<Rightarrow> mm_state" where
  "mm_sum s =
    (let g1 = mm_h1 s + mm_h2 s; g1 = g1 + mm_h3 s; g1 = g1 + mm_h4 s
     in \<lparr>mm_h1 = g1, mm_h2 = mm_h2 s + g1, mm_h3 = mm_h3 s + g1, mm_h4 = mm_h4 s + g1\<rparr>)"

definition mm_final :: "u32 \<Rightarrow> mm_state \<Rightarrow> mm_state" where
  "mm_final len s =
    (let s = \<lparr>mm_h1 = mm_h1 s XOR len, mm_h2 = mm_h2 s XOR len, mm_h3 = mm_h3 s XOR len, mm_h4 = mm_h4 s XOR len\<rparr>;
         s = mm_sum s;
         s = \<lparr>mm_h1 = FMIX32 (mm_h1 s), mm_h2 = FMIX32 (mm_h2 s), mm_h3 = FMIX32 (mm_h3 s), mm_h4 = FMIX32 (mm_h4 s)\<rparr>
     in mm_sum s)"

definition MM86128 :: "bytes \<Rightarrow> u32 \<Rightarrow> u64" where
  "MM86128 key seed =
    (let len = length key; nblocks = len div 16;
         s = mm_blocks nblocks key \<lparr>mm_h1 = seed, mm_h2 = seed, mm_h3 = seed, mm_h4 = seed\<rparr>;
         s = mm_tail (drop (16 * nblocks) key) (len mod 16) s;
         s = mm_final (word_of_nat len) s
     in push_bit 32 (ucast (mm_h2 s)) OR ucast (mm_h1 s))"

definition hashmap_murmur :: "bytes \<Rightarrow> u64 \<Rightarrow> u64 \<Rightarrow> u64" where
  "hashmap_murmur data seed0 seed1 = MM86128 data (ucast seed0)"

section \<open>xxHash\<close>

definition XXH_PRIME_1 :: u64 where "XXH_PRIME_1 = 11400714785074694791"
definition XXH_PRIME_2 :: u64 where "XXH_PRIME_2 = 14029467366897019727"
definition XXH_PRIME_3 :: u64 where "XXH_PRIME_3 = 1609587929392839161"
definition XXH_PRIME_4 :: u64 where "XXH_PRIME_4 = 9650029242287828579"
definition XXH_PRIME_5 :: u64 where "XXH_PRIME_5 = 2870177450012600261"

definition XXH_read64 :: "bytes \<Rightarrow> u64" where
  "XXH_read64 p = le_to_u64 (take 8 p)"

definition XXH_read32 :: "bytes \<Rightarrow> u32" where
  "XXH_read32 p = ucast (le_to_u64 (take 4 p))"

definition XXH_rotl64 :: "u64 \<Rightarrow> nat \<Rightarrow> u64" where
  "XXH_rotl64 x r = push_bit r x OR drop_bit (64 - r) x"

definition xxh_lane :: "u64 \<Rightarrow> u64 \<Rightarrow> u64" where
  "xxh_lane v m = XXH_rotl64 (v + m * XXH_PRIME_2) 31 * XXH_PRIME_1"

definition xxh_merge :: "u64 \<Rightarrow> u64 \<Rightarrow> u64" where
  "xxh_merge h v = (h XOR XXH_rotl64 (v * XXH_PRIME_2) 31 * XXH_PRIME_1) * XXH_PRIME_1 + XXH_PRIME_4"

text \<open>The \<open>do \<dots> while (p <= limit)\<close> loop; it is entered with at least 32 bytes
  left and \<open>p <= limit\<close> says that 32 more are left.\<close>

function xxh_stripes :: "bytes \<Rightarrow> u64 \<times> u64 \<times> u64 \<times> u64 \<Rightarrow> (u64 \<times> u64 \<times> u64 \<times> u64) \<times> bytes" where
  "xxh_stripes p (a, b, c, d) =
    (let a = xxh_lane a (XXH_read64 p);
         b = xxh_lane b (XXH_read64 (drop 8 p));
         c = xxh_lane c (XXH_read64 (drop 16 p));
         d = xxh_lane d (XXH_read64 (drop 24 p));
         p = drop 32 p
     in if 32 \<le> length p then xxh_stripes p (a, b, c, d) else ((a, b, c, d), p))"
  by pat_completeness auto
termination by (relation "measure (\<lambda>(p, _). length p)") auto

fun xxh_words :: "bytes \<Rightarrow> u64 \<Rightarrow> u64 \<times> bytes" where
  "xxh_words (b0 # b1 # b2 # b3 # b4 # b5 # b6 # b7 # p) h =
     xxh_words p (XXH_rotl64 (h XOR XXH_rotl64
       (XXH_read64 [b0, b1, b2, b3, b4, b5, b6, b7] * XXH_PRIME_2) 31 * XXH_PRIME_1) 27
         * XXH_PRIME_1 + XXH_PRIME_4)"
| "xxh_words p h = (h, p)"

fun xxh_bytes :: "bytes \<Rightarrow> u64 \<Rightarrow> u64" where
  "xxh_bytes [] h = h"
| "xxh_bytes (b # p) h = xxh_bytes p (XXH_rotl64 (h XOR ucast b * XXH_PRIME_5) 11 * XXH_PRIME_1)"

definition xxh_avalanche :: "u64 \<Rightarrow> u64" where
  "xxh_avalanche h =
    (let h = h XOR drop_bit 33 h;
         h = h * XXH_PRIME_2;
         h = h XOR drop_bit 29 h;
         h = h * XXH_PRIME_3
     in h XOR drop_bit 32 h)"

definition xxh3 :: "bytes \<Rightarrow> u64 \<Rightarrow> u64" where
  "xxh3 data seed =
    (let len = length data;
         (h64, p) =
           (if 32 \<le> len then
              let ((a, b, c, d), p) = xxh_stripes data
                    (seed + XXH_PRIME_1 + XXH_PRIME_2, seed + XXH_PRIME_2, seed + 0, seed - XXH_PRIME_1);
                  h = XXH_rotl64 a 1 + XXH_rotl64 b 7 + XXH_rotl64 c 12 + XXH_rotl64 d 18
              in (xxh_merge (xxh_merge (xxh_merge (xxh_merge h a) b) c) d, p)
            else (seed + XXH_PRIME_5, data));
         h64 = h64 + word_of_nat len;
         (h64, p) = xxh_words p h64;
         (h64, p) =
           (if 4 \<le> length p
            then (XXH_rotl64 (h64 XOR ucast (XXH_read32 p) * XXH_PRIME_1) 23 * XXH_PRIME_2 + XXH_PRIME_3,
                  drop 4 p)
            else (h64, p));
         h64 = xxh_bytes p h64
     in xxh_avalanche h64)"

definition hashmap_xxhash3 :: "bytes \<Rightarrow> u64 \<Rightarrow> u64 \<Rightarrow> u64" where
  "hashmap_xxhash3 data seed0 seed1 = xxh3 data seed0"

section \<open>The mixing steps lose nothing\<close>

lemma ROTL_inject [simp]: "0 < b \<Longrightarrow> b < 64 \<Longrightarrow> ROTL x b = ROTL y b \<longleftrightarrow> x = y"
  using rot_inject [of b x y] by (simp add: ROTL_def)

lemma ROTL32_inject [simp]: "0 < b \<Longrightarrow> b < 32 \<Longrightarrow> ROTL32 x b = ROTL32 y b \<longleftrightarrow> x = y"
  using rot_inject [of b x y] by (simp add: ROTL32_def)

lemma XXH_rotl64_inject [simp]: "0 < b \<Longrightarrow> b < 64 \<Longrightarrow> XXH_rotl64 x b = XXH_rotl64 y b \<longleftrightarrow> x = y"
  using rot_inject [of b x y] by (simp add: XXH_rotl64_def)

lemma SIPROUND_inject [simp]: "SIPROUND s = SIPROUND t \<longleftrightarrow> s = t"
  by (cases s; cases t) (auto simp: SIPROUND_def Let_def)

lemma sip_absorb_inject: "sip_absorb m s = sip_absorb m t \<longleftrightarrow> s = t"
proof
  assume eq: "sip_absorb m s = sip_absorb m t"
  let ?r = "\<lambda>s. SIPROUND (SIPROUND (s\<lparr>sip_v3 := sip_v3 s XOR m\<rparr>))"
  have "(?r s)\<lparr>sip_v0 := sip_v0 (?r s) XOR m\<rparr> = (?r t)\<lparr>sip_v0 := sip_v0 (?r t) XOR m\<rparr>"
    using eq by (simp add: sip_absorb_def Let_def)
  then have "?r s = ?r t"
    by (cases "?r s"; cases "?r t") simp
  then show "s = t" by (cases s; cases t) simp
qed simp

lemma sip_blocks_inject: "sip_blocks n p s = sip_blocks n p t \<longleftrightarrow> s = t"
  by (induction n p s arbitrary: t rule: sip_blocks.induct) (simp_all add: sip_absorb_inject)

lemma U8TO64_LE_le: "length p = 8 \<Longrightarrow> U8TO64_LE p = le_to_u64 p"
  by (erule length_8_cases) (simp add: U8TO64_LE_def push_bit_or or.assoc)

lemma U64TO8_LE_le: "U64TO8_LE v = u64_to_le 8 v"
  unfolding u64_to_le_8
  by (auto simp: U64TO8_LE_def U32TO8_LE_def bit_ucast_iff word_shift_simps intro!: bit_word_eqI)

lemma sip_init_inject: "sip_init a b = sip_init c d \<longleftrightarrow> a = c \<and> b = d"
  by (auto simp: sip_init_def Let_def U8TO64_LE_le)

lemma xxh_prime_inject [simp]:
  "x * XXH_PRIME_1 = y * XXH_PRIME_1 \<longleftrightarrow> x = y"
  "x * XXH_PRIME_2 = y * XXH_PRIME_2 \<longleftrightarrow> x = y"
  "x * XXH_PRIME_3 = y * XXH_PRIME_3 \<longleftrightarrow> x = y"
  "x * XXH_PRIME_5 = y * XXH_PRIME_5 \<longleftrightarrow> x = y"
     by (rule mult_inject [of _ 614540362697595703], simp add: XXH_PRIME_1_def)
    (rule mult_inject [of _ 839798700976720815], simp add: XXH_PRIME_2_def,
     rule mult_inject [of _ 16855272203555305545], simp add: XXH_PRIME_3_def,
     rule mult_inject [of _ 14236653164957433613], simp add: XXH_PRIME_5_def)

lemma mm_const_inject [simp]:
  "x * mm_c1 = y * mm_c1 \<longleftrightarrow> x = y"
  "x * mm_c2 = y * mm_c2 \<longleftrightarrow> x = y"
  "x * mm_c3 = y * mm_c3 \<longleftrightarrow> x = y"
  "x * mm_c4 = y * mm_c4 \<longleftrightarrow> x = y"
  "(x :: u32) * 5 = y * 5 \<longleftrightarrow> x = y"
  "(x :: u32) * 0x85ebca6b = y * 0x85ebca6b \<longleftrightarrow> x = y"
  "(x :: u32) * 0xc2b2ae35 = y * 0xc2b2ae35 \<longleftrightarrow> x = y"
     by (rule mult_inject [of _ 2311672851], simp add: mm_c1_def)
    (rule mult_inject [of _ 3742568121], simp add: mm_c2_def,
     rule mult_inject [of _ 1954046701], simp add: mm_c3_def,
     rule mult_inject [of _ 1490438811], simp add: mm_c4_def,
     rule mult_inject [of _ 3435973837], simp,
     rule mult_inject [of _ 2781581891], simp,
     rule mult_inject [of _ 2127672349], simp)

lemma FMIX32_inject [simp]: "FMIX32 x = FMIX32 y \<longleftrightarrow> x = y"
  by (simp add: FMIX32_def Let_def xor_shift_inject)

lemma xxh_avalanche_inject [simp]: "xxh_avalanche x = xxh_avalanche y \<longleftrightarrow> x = y"
  by (simp add: xxh_avalanche_def Let_def xor_shift_inject)

lemma mm_sum_sel:
  "mm_h1 (mm_sum s) = mm_h1 s + mm_h2 s + mm_h3 s + mm_h4 s"
  "mm_h2 (mm_sum s) = mm_h2 s + mm_h1 (mm_sum s)"
  "mm_h3 (mm_sum s) = mm_h3 s + mm_h1 (mm_sum s)"
  "mm_h4 (mm_sum s) = mm_h4 s + mm_h1 (mm_sum s)"
  by (simp_all add: mm_sum_def Let_def)

lemma mm_sum_inject [simp]: "mm_sum s = mm_sum t \<longleftrightarrow> s = t"
proof
  assume eq: "mm_sum s = mm_sum t"
  have 2: "mm_h2 s = mm_h2 t" using mm_sum_sel(2) [of s] mm_sum_sel(2) [of t] by (simp add: eq)
  have 3: "mm_h3 s = mm_h3 t" using mm_sum_sel(3) [of s] mm_sum_sel(3) [of t] by (simp add: eq)
  have 4: "mm_h4 s = mm_h4 t" using mm_sum_sel(4) [of s] mm_sum_sel(4) [of t] by (simp add: eq)
  have 1: "mm_h1 s = mm_h1 t" using mm_sum_sel(1) [of s] mm_sum_sel(1) [of t] 2 3 4 by (simp add: eq)
  show "s = t" using 1 2 3 4 by simp
qed simp

lemma mm_map_inject:
  fixes s t :: mm_state
  assumes "\<And>x y. f x = f y \<longleftrightarrow> x = y"
  shows "\<lparr>mm_h1 = f (mm_h1 s), mm_h2 = f (mm_h2 s), mm_h3 = f (mm_h3 s), mm_h4 = f (mm_h4 s)\<rparr> =
         \<lparr>mm_h1 = f (mm_h1 t), mm_h2 = f (mm_h2 t), mm_h3 = f (mm_h3 t), mm_h4 = f (mm_h4 t)\<rparr> \<longleftrightarrow> s = t"
  by (cases s; cases t) (simp add: assms)

lemma mm_final_inject [simp]: "mm_final len s = mm_final len t \<longleftrightarrow> s = t"
  unfolding mm_final_def Let_def mm_sum_inject
  by (subst mm_map_inject, simp) (subst mm_sum_inject, subst mm_map_inject [of "\<lambda>h. h XOR len"], simp_all)

lemma mm_block_sel:
  "mm_h1 (mm_block p s) = (ROTL32 (mm_h1 s XOR ROTL32 (mm_read32 p 0 * mm_c1) 15 * mm_c2) 19 + mm_h2 s) * 5 + 0x561ccd1b"
  "mm_h2 (mm_block p s) = (ROTL32 (mm_h2 s XOR ROTL32 (mm_read32 p 4 * mm_c2) 16 * mm_c3) 17 + mm_h3 s) * 5 + 0x0bcaa747"
  "mm_h3 (mm_block p s) = (ROTL32 (mm_h3 s XOR ROTL32 (mm_read32 p 8 * mm_c3) 17 * mm_c4) 15 + mm_h4 s) * 5 + 0x96cd1c35"
  "mm_h4 (mm_block p s) =
     (ROTL32 (mm_h4 s XOR ROTL32 (mm_read32 p 12 * mm_c4) 18 * mm_c1) 13 + mm_h1 (mm_block p s)) * 5 + 0x32ac3b17"
  by (simp_all only: mm_block_def Let_def mm_state.simps)

lemma mm_block_inject: "mm_block p s = mm_block p t \<longleftrightarrow> s = t"
proof
  assume eq: "mm_block p s = mm_block p t"
  have 4: "mm_h4 s = mm_h4 t" using mm_block_sel(4) [of p s] mm_block_sel(4) [of p t] by (simp add: eq)
  have 3: "mm_h3 s = mm_h3 t" using arg_cong [OF eq, of mm_h3] 4 by (simp add: mm_block_sel(3))
  have 2: "mm_h2 s = mm_h2 t" using arg_cong [OF eq, of mm_h2] 3 by (simp add: mm_block_sel(2))
  have 1: "mm_h1 s = mm_h1 t" using arg_cong [OF eq, of mm_h1] 2 by (simp add: mm_block_sel(1))
  show "s = t" using 1 2 3 4 by simp
qed simp

lemma mm_block_key_inject:
  "mm_block p s = mm_block q s \<longleftrightarrow> (\<forall>i\<in>{0, 4, 8, 12}. mm_read32 p i = mm_read32 q i)"
proof
  assume eq: "mm_block p s = mm_block q s"
  have 1: "mm_read32 p 0 = mm_read32 q 0" using arg_cong [OF eq, of mm_h1] by (simp add: mm_block_sel(1))
  have 2: "mm_read32 p 4 = mm_read32 q 4" using arg_cong [OF eq, of mm_h2] by (simp add: mm_block_sel(2))
  have 3: "mm_read32 p 8 = mm_read32 q 8" using arg_cong [OF eq, of mm_h3] by (simp add: mm_block_sel(3))
  have 4: "mm_read32 p 12 = mm_read32 q 12" using mm_block_sel(4) [of p s] mm_block_sel(4) [of q s] by (simp add: eq)
  show "\<forall>i\<in>{0, 4, 8, 12}. mm_read32 p i = mm_read32 q i" using 1 2 3 4 by simp
qed (simp add: mm_block_def)

lemma mm_blocks_inject: "mm_blocks n p s = mm_blocks n p t \<longleftrightarrow> s = t"
  by (induction n p s arbitrary: t rule: mm_blocks.induct) (simp_all add: mm_block_inject)

lemma mm_read32_bit:
  assumes "j < 4" "k < 8"
  shows "bit (mm_read32 p i) (8 * j + k) = bit (p ! (i + j)) k"
proof -
  have "j = 0 \<or> j = 1 \<or> j = 2 \<or> j = 3" using assms(1) by auto
  then show ?thesis
    using assms(2) by (elim disjE) (auto simp: mm_read32_def bit_or_iff bit_ucast_iff word_shift_simps)
qed

lemma mm_read32_inject:
  "mm_read32 p i = mm_read32 q i \<longleftrightarrow> (\<forall>j<4. p ! (i + j) = q ! (i + j))" (is "?l = ?r")
proof
  assume eq: ?l
  show ?r
  proof (intro allI impI bit_word_eqI)
    fix j k :: nat assume "j < 4" "k < LENGTH(8)"
    then show "bit (p ! (i + j)) k = bit (q ! (i + j)) k"
      using mm_read32_bit [of j k p i] mm_read32_bit [of j k q i] eq by simp
  qed
next
  assume ?r
  then have "p ! i = q ! i" "p ! (i + 1) = q ! (i + 1)" "p ! (i + 2) = q ! (i + 2)" "p ! (i + 3) = q ! (i + 3)"
    by (auto dest: spec [of _ 0] spec [of _ 1] spec [of _ 2] spec [of _ 3])
  then show ?l by (simp add: mm_read32_def)
qed

lemma mm_16_bytes:
  assumes "length p = 16" "length q = 16" "\<forall>i\<in>{0, 4, 8, 12}. mm_read32 p i = mm_read32 q i"
  shows "p = q"
proof (rule nth_equalityI)
  fix i assume "i < length p"
  then have i: "i = 4 * (i div 4) + i mod 4" "4 * (i div 4) \<in> {0, 4, 8, 12}" "i mod 4 < 4"
    using assms(1) by auto
  then show "p ! i = q ! i"
    using assms(3) mm_read32_inject by metis
qed (use assms in simp)

lemma xxh3_8:
  assumes "length p = 8"
  shows "xxh3 p seed = xxh_avalanche (XXH_rotl64 (seed + XXH_PRIME_5 + 8 XOR XXH_rotl64
       (XXH_read64 p * XXH_PRIME_2) 31 * XXH_PRIME_1) 27
         * XXH_PRIME_1 + XXH_PRIME_4)"
  using assms by (rule length_8_cases) (simp add: xxh3_def Let_def)

section \<open>Properties\<close>

text \<open>On the five bytes of ``hello'' with the seeds 1 and 2 the three hash
  functions return the values the repository's own tests pin down.\<close>

theorem hash_test_vectors:
  "hashmap_sip [0x68, 0x65, 0x6c, 0x6c, 0x6f] 1 2 = 2957200328589801622 \<and>
   hashmap_murmur [0x68, 0x65, 0x6c, 0x6c, 0x6f] 1 2 = 1682575153221130884 \<and>
   hashmap_xxhash3 [0x68, 0x65, 0x6c, 0x6c, 0x6f] 1 2 = 2584346877953614258"
  by (intro conjI; code_simp)

text \<open>\<open>hashmap_xxhash3\<close> has no collisions among the keys of eight bytes
  (64-bit identifiers), whatever the seed.\<close>

theorem xxhash3_no_collision_8:
  assumes "length p = 8" "length q = 8"
  shows "hashmap_xxhash3 p s0 s1 = hashmap_xxhash3 q s0 s1 \<longleftrightarrow> p = q"
  using assms by (simp add: hashmap_xxhash3_def xxh3_8 XXH_read64_def le_to_u64_inject)

theorem xxhash3_no_collision_8_witness:
  "hashmap_xxhash3 [1, 2, 3, 4, 5, 6, 7, 8] 1 2 \<noteq> hashmap_xxhash3 [1, 2, 3, 4, 5, 6, 7, 9] 1 2"
  by (subst xxhash3_no_collision_8) simp_all

text \<open>SipHash keeps its seeds apart: after absorbing the same blocks, the
  internal states of two differently seeded runs differ (every round is a
  permutation of the state, and loading the seeds byte by byte loses nothing).\<close>

theorem sip_seeds_separate:
  "sip_blocks n p (sip_init a b) = sip_blocks n p (sip_init c d) \<longleftrightarrow> a = c \<and> b = d"
  by (simp add: sip_blocks_inject sip_init_inject)

text \<open>Murmur separates the keys of one block: from any state, two different
  sixteen-byte blocks give different states, also after the finalisation.\<close>

theorem murmur_block_separate:
  assumes "length p = 16" "length q = 16"
  shows "mm_final len (mm_block p s) = mm_final len (mm_block q s) \<longleftrightarrow> p = q"
  using assms mm_16_bytes by (auto simp: mm_block_key_inject)

theorem murmur_block_separate_witness:
  "mm_final 16 (mm_block (replicate 16 0) \<lparr>mm_h1 = 1, mm_h2 = 1, mm_h3 = 1, mm_h4 = 1\<rparr>) \<noteq>
   mm_final 16 (mm_block (replicate 15 0 @ [1]) \<lparr>mm_h1 = 1, mm_h2 = 1, mm_h3 = 1, mm_h4 = 1\<rparr>)"
proof -
  have "replicate 16 (0 :: u8) \<noteq> replicate 15 0 @ [1]"
    by (simp add: eval_nat_numeral)
  then show ?thesis
    by (subst murmur_block_separate) simp_all
qed

end
