(* ===== verification/Robinhood_Map.thy ===== *)
theory Robinhood_Map
  imports Usm_Prelude "HOL-Library.Monad_Syntax"
begin

text \<open>
  The open-addressed robin-hood hash map of \<open>daemon/impl/usm/hashmap.c\<close>.  A bucket
  is a record with the 48-bit hash, the 16-bit distance to the initial bucket
  (\<open>dib\<close>, 0 for an empty bucket, incremented modulo \<open>2^16\<close> as the bit field is) and
  the item; \<open>hm_buckets\<close> are the \<open>nbuckets\<close> cells the code addresses.  The probing
  loops are \<open>while (1)\<close> loops of the source: they are partial functions into
  \<open>option\<close>, where \<open>None\<close> is a loop that does not return, so that returning is
  something to prove.  The allocator is the parameter \<open>mok\<close>: whether an allocation
  of a given size succeeds.  The products \<open>nbuckets * 0.60\<close>, \<open>* 0.75\<close> and \<open>* 0.10\<close>
  are written with the doubles these literals denote; they are exact because
  \<open>nbuckets\<close> is a power of two.
\<close>

section \<open>Data\<close>

record 'a bucket =
  bk_hash :: u64
  bk_dib :: nat
  bk_item :: 'a

record 'a hashmap =
  hm_elsize :: nat
  hm_cap :: nat
  hm_seed0 :: u64
  hm_seed1 :: u64
  hm_hash :: "'a \<Rightarrow> u64 \<Rightarrow> u64 \<Rightarrow> u64"
  hm_compare :: "('a \<Rightarrow> 'a \<Rightarrow> int) option"
  hm_elfree :: bool
  hm_zero :: 'a
  hm_bucketsz :: nat
  hm_nbuckets :: nat
  hm_count :: nat
  hm_mask :: nat
  hm_growat :: nat
  hm_shrinkat :: nat
  hm_growpower :: nat
  hm_oom :: bool
  hm_buckets :: "'a bucket list"

section \<open>Operations\<close>

definition hashmap_set_grow_by_power :: "'a hashmap \<Rightarrow> nat \<Rightarrow> 'a hashmap" where
  "hashmap_set_grow_by_power m pow =
     m\<lparr>hm_growpower := if pow < 1 then 1 else if pow > 16 then 16 else pow\<rparr>"

definition clip_hash :: "u64 \<Rightarrow> u64" where
  "clip_hash hash = hash AND 0xFFFFFFFFFFFF"

definition get_hash :: "'a hashmap \<Rightarrow> 'a \<Rightarrow> u64" where
  "get_hash m key = clip_hash (hm_hash m key (hm_seed0 m) (hm_seed1 m))"

text \<open>\<open>nbuckets * GROW_AT\<close>, \<open>nbuckets * 0.75\<close> and \<open>nbuckets * SHRINK_AT\<close>, truncated:
  the doubles 0.60 and 0.10 are \<open>5404319552844595 / 2^53\<close> and
  \<open>7205759403792794 / 2^56\<close>.\<close>

definition mul_060 :: "nat \<Rightarrow> nat" where
  "mul_060 n = n * 5404319552844595 div 2 ^ 53"

definition mul_075 :: "nat \<Rightarrow> nat" where
  "mul_075 n = n * 3 div 4"

definition mul_010 :: "nat \<Rightarrow> nat" where
  "mul_010 n = n * 7205759403792794 div 2 ^ 56"

partial_function (option) ncap_loop :: "nat \<Rightarrow> nat \<Rightarrow> nat option" where
  "ncap_loop cap ncap = (if ncap < cap then ncap_loop cap (ncap * 2 mod 2 ^ 64) else Some ncap)"

partial_function (option) bucketsz_loop :: "nat \<Rightarrow> nat option" where
  "bucketsz_loop sz = (if sz AND 7 \<noteq> 0 then bucketsz_loop ((sz + 1) mod 2 ^ 64) else Some sz)"

definition empty_bucket :: "'a \<Rightarrow> 'a bucket" where
  "empty_bucket z = \<lparr>bk_hash = 0, bk_dib = 0, bk_item = z\<rparr>"

definition new_map ::
  "nat \<Rightarrow> nat \<Rightarrow> nat \<Rightarrow> u64 \<Rightarrow> u64 \<Rightarrow> ('a \<Rightarrow> u64 \<Rightarrow> u64 \<Rightarrow> u64) \<Rightarrow> ('a \<Rightarrow> 'a \<Rightarrow> int) option
     \<Rightarrow> bool \<Rightarrow> 'a \<Rightarrow> 'a hashmap" where
  "new_map elsize cap bucketsz seed0 seed1 hash compare elfree zero =
     \<lparr>hm_elsize = elsize, hm_cap = cap, hm_seed0 = seed0, hm_seed1 = seed1, hm_hash = hash,
      hm_compare = compare, hm_elfree = elfree, hm_zero = zero, hm_bucketsz = bucketsz,
      hm_nbuckets = cap, hm_count = 0, hm_mask = cap - 1, hm_growat = mul_060 cap,
      hm_shrinkat = mul_010 cap, hm_growpower = 1, hm_oom = False,
      hm_buckets = replicate cap (empty_bucket zero)\<rparr>"

text \<open>The outer option is divergence of the rounding loops, the inner one the
  NULL of a failed allocation.  168 is \<open>sizeof(struct hashmap)\<close>, 8
  \<open>sizeof(struct bucket)\<close>.\<close>

definition hashmap_new_with_allocator ::
  "(nat \<Rightarrow> bool) \<Rightarrow> nat \<Rightarrow> nat \<Rightarrow> u64 \<Rightarrow> u64 \<Rightarrow> ('a \<Rightarrow> u64 \<Rightarrow> u64 \<Rightarrow> u64) \<Rightarrow> ('a \<Rightarrow> 'a \<Rightarrow> int) option
     \<Rightarrow> bool \<Rightarrow> 'a \<Rightarrow> 'a hashmap option option" where
  "hashmap_new_with_allocator mok elsize cap seed0 seed1 hash compare elfree zero = do {
     cap \<leftarrow> (if cap < 16 then Some 16 else ncap_loop cap 16);
     bucketsz \<leftarrow> bucketsz_loop ((8 + elsize) mod 2 ^ 64);
     (if \<not> mok ((168 + bucketsz * 2) mod 2 ^ 64) then Some None
      else if \<not> mok (bucketsz * cap mod 2 ^ 64) then Some None
      else Some (Some (new_map elsize cap bucketsz seed0 seed1 hash compare elfree zero)))
   }"

definition hashmap_new ::
  "(nat \<Rightarrow> bool) \<Rightarrow> nat \<Rightarrow> nat \<Rightarrow> u64 \<Rightarrow> u64 \<Rightarrow> ('a \<Rightarrow> u64 \<Rightarrow> u64 \<Rightarrow> u64) \<Rightarrow> ('a \<Rightarrow> 'a \<Rightarrow> int) option
     \<Rightarrow> bool \<Rightarrow> 'a \<Rightarrow> 'a hashmap option option" where
  "hashmap_new mok elsize cap seed0 seed1 hash compare elfree zero =
     hashmap_new_with_allocator mok elsize cap seed0 seed1 hash compare elfree zero"

text \<open>The items passed to \<open>elfree\<close>, in order.\<close>

definition free_elements :: "'a hashmap \<Rightarrow> 'a list" where
  "free_elements m =
     (if hm_elfree m then map bk_item (filter (\<lambda>b. bk_dib b \<noteq> 0) (hm_buckets m)) else [])"

definition hashmap_clear :: "(nat \<Rightarrow> bool) \<Rightarrow> 'a hashmap \<Rightarrow> bool \<Rightarrow> 'a hashmap \<times> 'a list" where
  "hashmap_clear mok m update_cap =
    (let m' = m\<lparr>hm_count := 0\<rparr>;
         freed = free_elements m';
         m' = (if update_cap then m'\<lparr>hm_cap := hm_nbuckets m'\<rparr>
               else if hm_nbuckets m' \<noteq> hm_cap m' then
                 (if mok (hm_bucketsz m' * hm_cap m' mod 2 ^ 64)
                  then m'\<lparr>hm_buckets := replicate (hm_cap m') (empty_bucket (hm_zero m')),
                          hm_nbuckets := hm_cap m'\<rparr>
                  else m'\<lparr>hm_buckets := take (hm_cap m') (hm_buckets m'),
                          hm_nbuckets := hm_cap m'\<rparr>)
               else m')
     in (m'\<lparr>hm_buckets := map (\<lambda>_. empty_bucket (hm_zero m')) (hm_buckets m'),
            hm_mask := hm_nbuckets m' - 1,
            hm_growat := mul_075 (hm_nbuckets m'),
            hm_shrinkat := mul_010 (hm_nbuckets m')\<rparr>, freed))"

text \<open>One entry of the old table moved into the new one.\<close>

partial_function (option) reinsert ::
  "nat \<Rightarrow> 'a bucket \<Rightarrow> nat \<Rightarrow> 'a bucket list \<Rightarrow> 'a bucket list option" where
  "reinsert msk entry j bs =
    (if bk_dib (bs ! j) = 0 then Some (bs[j := entry])
     else if bk_dib (bs ! j) < bk_dib entry
     then reinsert msk ((bs ! j)\<lparr>bk_dib := (bk_dib (bs ! j) + 1) mod 65536\<rparr>)
            ((j + 1) AND msk) (bs[j := entry])
     else reinsert msk (entry\<lparr>bk_dib := (bk_dib entry + 1) mod 65536\<rparr>)
            ((j + 1) AND msk) bs)"

fun resize_move :: "nat \<Rightarrow> 'a bucket list \<Rightarrow> 'a bucket list \<Rightarrow> 'a bucket list option" where
  "resize_move msk [] bs = Some bs"
| "resize_move msk (entry # old) bs =
     (if bk_dib entry = 0 then resize_move msk old bs
      else do {
        bs' \<leftarrow> reinsert msk (entry\<lparr>bk_dib := 1\<rparr>) (unat (bk_hash entry) AND msk) bs;
        resize_move msk old bs'
      })"

definition resize0 :: "(nat \<Rightarrow> bool) \<Rightarrow> 'a hashmap \<Rightarrow> nat \<Rightarrow> (bool \<times> 'a hashmap) option" where
  "resize0 mok m new_cap = do {
     r \<leftarrow> hashmap_new_with_allocator mok (hm_elsize m) new_cap (hm_seed0 m) (hm_seed1 m)
            (hm_hash m) (hm_compare m) (hm_elfree m) (hm_zero m);
     (case r of
        None \<Rightarrow> Some (False, m)
      | Some m2 \<Rightarrow> do {
          bs \<leftarrow> resize_move (hm_mask m2) (hm_buckets m) (hm_buckets m2);
          Some (True, m\<lparr>hm_buckets := bs, hm_nbuckets := hm_nbuckets m2, hm_mask := hm_mask m2,
                        hm_growat := hm_growat m2, hm_shrinkat := hm_shrinkat m2\<rparr>)
        })
   }"

definition resize :: "(nat \<Rightarrow> bool) \<Rightarrow> 'a hashmap \<Rightarrow> nat \<Rightarrow> (bool \<times> 'a hashmap) option" where
  "resize mok m new_cap = resize0 mok m new_cap"

text \<open>\<open>!map->compare || map->compare(a, b, udata) == 0\<close>\<close>

fun same_item :: "('a \<Rightarrow> 'a \<Rightarrow> int) option \<Rightarrow> 'a \<Rightarrow> 'a \<Rightarrow> bool" where
  "same_item None a b = True"
| "same_item (Some c) a b = (c a b = 0)"

partial_function (option) set_loop ::
  "('a \<Rightarrow> 'a \<Rightarrow> int) option \<Rightarrow> nat \<Rightarrow> 'a bucket \<Rightarrow> nat \<Rightarrow> 'a bucket list
     \<Rightarrow> ('a bucket list \<times> 'a option) option" where
  "set_loop compare msk entry i bs =
    (if bk_dib (bs ! i) = 0 then Some (bs[i := entry], None)
     else if bk_hash entry = bk_hash (bs ! i) \<and> same_item compare (bk_item entry) (bk_item (bs ! i))
     then Some (bs[i := (bs ! i)\<lparr>bk_item := bk_item entry\<rparr>], Some (bk_item (bs ! i)))
     else if bk_dib (bs ! i) < bk_dib entry
     then set_loop compare msk ((bs ! i)\<lparr>bk_dib := (bk_dib (bs ! i) + 1) mod 65536\<rparr>)
            ((i + 1) AND msk) (bs[i := entry])
     else set_loop compare msk (entry\<lparr>bk_dib := (bk_dib entry + 1) mod 65536\<rparr>)
            ((i + 1) AND msk) bs)"

definition hashmap_set_with_hash ::
  "(nat \<Rightarrow> bool) \<Rightarrow> 'a hashmap \<Rightarrow> 'a \<Rightarrow> u64 \<Rightarrow> ('a hashmap \<times> 'a option) option" where
  "hashmap_set_with_hash mok m item hash = do {
     let hash = clip_hash hash;
     let m = m\<lparr>hm_oom := False\<rparr>;
     (ok, m) \<leftarrow> (if hm_count m = hm_growat m
                then resize mok m (hm_nbuckets m * 2 ^ hm_growpower m mod 2 ^ 64)
                else Some (True, m));
     (if \<not> ok then Some (m\<lparr>hm_oom := True\<rparr>, None)
      else do {
        (bs, old) \<leftarrow> set_loop (hm_compare m) (hm_mask m)
                       \<lparr>bk_hash = hash, bk_dib = 1, bk_item = item\<rparr>
                       (unat hash AND hm_mask m) (hm_buckets m);
        Some (m\<lparr>hm_buckets := bs,
                hm_count := hm_count m + (if old = None then 1 else 0)\<rparr>, old)
      })
   }"

definition hashmap_set :: "(nat \<Rightarrow> bool) \<Rightarrow> 'a hashmap \<Rightarrow> 'a \<Rightarrow> ('a hashmap \<times> 'a option) option" where
  "hashmap_set mok m item = hashmap_set_with_hash mok m item (get_hash m item)"

partial_function (option) get_loop ::
  "('a \<Rightarrow> 'a \<Rightarrow> int) option \<Rightarrow> nat \<Rightarrow> 'a \<Rightarrow> u64 \<Rightarrow> nat \<Rightarrow> 'a bucket list \<Rightarrow> nat option option" where
  "get_loop compare msk key hash i bs =
    (if bk_dib (bs ! i) = 0 then Some None
     else if bk_hash (bs ! i) = hash \<and> same_item compare key (bk_item (bs ! i)) then Some (Some i)
     else get_loop compare msk key hash ((i + 1) AND msk) bs)"

definition hashmap_get_with_hash :: "'a hashmap \<Rightarrow> 'a \<Rightarrow> u64 \<Rightarrow> 'a option option" where
  "hashmap_get_with_hash m key hash = do {
     let hash = clip_hash hash;
     r \<leftarrow> get_loop (hm_compare m) (hm_mask m) key hash (unat hash AND hm_mask m) (hm_buckets m);
     Some (map_option (\<lambda>i. bk_item (hm_buckets m ! i)) r)
   }"

definition hashmap_get :: "'a hashmap \<Rightarrow> 'a \<Rightarrow> 'a option option" where
  "hashmap_get m key = hashmap_get_with_hash m key (get_hash m key)"

definition hashmap_probe :: "'a hashmap \<Rightarrow> u64 \<Rightarrow> 'a option" where
  "hashmap_probe m position =
    (let b = hm_buckets m ! (unat position AND hm_mask m)
     in if bk_dib b = 0 then None else Some (bk_item b))"

text \<open>The backward shift of a deletion; \<open>p\<close> is the bucket \<open>prev\<close> of the loop.\<close>

partial_function (option) shift_loop :: "nat \<Rightarrow> nat \<Rightarrow> 'a bucket list \<Rightarrow> 'a bucket list option" where
  "shift_loop msk p bs =
    (if bk_dib (bs ! ((p + 1) AND msk)) \<le> 1 then Some (bs[p := (bs ! p)\<lparr>bk_dib := 0\<rparr>])
     else shift_loop msk ((p + 1) AND msk)
            (bs[p := (bs ! ((p + 1) AND msk))\<lparr>bk_dib := bk_dib (bs ! ((p + 1) AND msk)) - 1\<rparr>]))"

text \<open>The search of \<open>hashmap_delete_with_hash\<close> tests its bucket exactly as the one of
  \<open>hashmap_get_with_hash\<close>.\<close>

definition hashmap_delete_with_hash ::
  "(nat \<Rightarrow> bool) \<Rightarrow> 'a hashmap \<Rightarrow> 'a \<Rightarrow> u64 \<Rightarrow> ('a hashmap \<times> 'a option) option" where
  "hashmap_delete_with_hash mok m key hash = do {
     let hash = clip_hash hash;
     let m = m\<lparr>hm_oom := False\<rparr>;
     r \<leftarrow> get_loop (hm_compare m) (hm_mask m) key hash (unat hash AND hm_mask m) (hm_buckets m);
     (case r of
        None \<Rightarrow> Some (m, None)
      | Some i \<Rightarrow> do {
          let spare = bk_item (hm_buckets m ! i);
          bs \<leftarrow> shift_loop (hm_mask m) i ((hm_buckets m)[i := (hm_buckets m ! i)\<lparr>bk_dib := 0\<rparr>]);
          let m = m\<lparr>hm_buckets := bs, hm_count := hm_count m - 1\<rparr>;
          (ok, m) \<leftarrow> (if hm_nbuckets m > hm_cap m \<and> hm_count m \<le> hm_shrinkat m
                     then resize mok m (hm_nbuckets m div 2)
                     else Some (True, m));
          Some (m, Some spare)
        })
   }"

definition hashmap_delete :: "(nat \<Rightarrow> bool) \<Rightarrow> 'a hashmap \<Rightarrow> 'a \<Rightarrow> ('a hashmap \<times> 'a option) option" where
  "hashmap_delete mok m key = hashmap_delete_with_hash mok m key (get_hash m key)"

definition hashmap_count :: "'a hashmap \<Rightarrow> nat" where
  "hashmap_count m = hm_count m"

text \<open>\<open>hashmap_free(NULL)\<close> is a no-op; otherwise the items given to \<open>elfree\<close>.\<close>

fun hashmap_free :: "'a hashmap option \<Rightarrow> 'a list" where
  "hashmap_free None = []"
| "hashmap_free (Some m) = free_elements m"

definition hashmap_oom :: "'a hashmap \<Rightarrow> bool" where
  "hashmap_oom m = hm_oom m"

text \<open>The callback of \<open>hashmap_scan\<close> works on its \<open>udata\<close>, the state \<open>s\<close>.\<close>

fun scan_loop :: "('a \<Rightarrow> 's \<Rightarrow> bool \<times> 's) \<Rightarrow> 'a bucket list \<Rightarrow> 's \<Rightarrow> bool \<times> 's" where
  "scan_loop iter [] s = (True, s)"
| "scan_loop iter (b # bs) s =
     (if bk_dib b \<noteq> 0 then
        (case iter (bk_item b) s of (go, s') \<Rightarrow> if \<not> go then (False, s') else scan_loop iter bs s')
      else scan_loop iter bs s)"

definition hashmap_scan :: "'a hashmap \<Rightarrow> ('a \<Rightarrow> 's \<Rightarrow> bool \<times> 's) \<Rightarrow> 's \<Rightarrow> bool \<times> 's" where
  "hashmap_scan m iter s = scan_loop iter (hm_buckets m) s"

text \<open>The cursor and the item found; \<open>None\<close> is the result \<open>false\<close>.\<close>

function hashmap_iter :: "'a hashmap \<Rightarrow> nat \<Rightarrow> nat \<times> 'a option" where
  "hashmap_iter m i =
    (if hm_nbuckets m \<le> i then (i, None)
     else let b = hm_buckets m ! i
          in if bk_dib b = 0 then hashmap_iter m (i + 1) else (i + 1, Some (bk_item b)))"
  by pat_completeness auto
termination by (relation "measure (\<lambda>(m, i). hm_nbuckets m - i)") auto

text \<open>The loop \<open>while (hashmap_iter(map, &i, &item))\<close> the header comment describes, as
  the list of the items it yields from the cursor \<open>i\<close> on.\<close>

lemma hashmap_iter_cursor: "hashmap_iter m i = (j, Some x) \<Longrightarrow> i < j \<and> j \<le> hm_nbuckets m"
proof (induction m i rule: hashmap_iter.induct)
  case (1 m i)
  show ?case
    using 1(2) 1(1) [OF _ refl] by (subst (asm) hashmap_iter.simps) (auto simp: Let_def split: if_splits)
qed

declare hashmap_iter.simps [simp del]

function iter_all :: "'a hashmap \<Rightarrow> nat \<Rightarrow> 'a list" where
  "iter_all m i = (case hashmap_iter m i of (j, None) \<Rightarrow> [] | (j, Some x) \<Rightarrow> x # iter_all m j)"
  by pat_completeness auto
termination by (relation "measure (\<lambda>(m, i). hm_nbuckets m - i)") (auto dest!: hashmap_iter_cursor [OF sym])

declare iter_all.simps [simp del]

end
