(* ===== verification/Robinhood_Table.thy ===== *)
theory Robinhood_Table
  imports Robinhood_Map
begin

text \<open>
  The bucket array under the robin-hood discipline.  \<open>table_inv\<close> says that every
  entry stands where its hash and its distance put it and that the distance
  grows by at most one from a bucket to the next; \<open>bag\<close> is the multiset of the
  stored (hash, item) pairs.  The probing loops of \<open>hashmap.c\<close> are shown to return
  on such a table: insertion (\<open>reinsert\<close>, \<open>set_loop\<close>), search (\<open>get_loop\<close>), the
  backward shift of a deletion (\<open>shift_loop\<close>) and the moves of a resize
  (\<open>resize_move\<close>), each with its effect on the bag.
\<close>

section \<open>Chains of distances\<close>

definition rh_chain :: "nat \<Rightarrow> (nat \<Rightarrow> nat) \<Rightarrow> bool" where
  "rh_chain n D \<longleftrightarrow> (\<forall>a<n. D ((a + 1) mod n) \<le> D a + 1)"

definition rh_fits :: "nat \<Rightarrow> (nat \<Rightarrow> nat) \<Rightarrow> nat \<Rightarrow> nat \<Rightarrow> bool" where
  "rh_fits n D i d \<longleftrightarrow> (\<forall>a<n. (a + 1) mod n = i \<longrightarrow> d \<le> D a + 1)"

lemma rh_chain_back:
  assumes "rh_chain n D" "rh_fits n D ((h + d - 1) mod n) d" "0 < n" "Suc j < d"
  shows "Suc j \<le> D ((h + j) mod n)"
proof -
  have "j \<le> d - 2" using assms(4) by simp
  then show ?thesis
  proof (induction rule: inc_induct)
    case base
    have "((h + (d - 2)) mod n + 1) mod n = (h + d - 1) mod n"
      using assms(4) succ_mod_mod [of h "d - 2" n] by (simp add: Suc_diff_Suc numeral_2_eq_2)
    then have "d \<le> D ((h + (d - 2)) mod n) + 1"
      using assms(2,3) by (simp add: rh_fits_def)
    then show ?case using assms(4) by linarith
  next
    case (step m)
    have "D ((h + Suc m) mod n) \<le> D ((h + m) mod n) + 1"
      using assms(1,3) succ_mod_mod [of h m n] by (metis mod_less_divisor rh_chain_def)
    with step show ?case by simp
  qed
qed

lemma rh_dib_bound:
  assumes ch: "rh_chain n D" "rh_fits n D ((h + d - 1) mod n) d" and q: "q < n" "D q = 0"
  shows "d \<le> card {i. i < n \<and> 0 < D i} + 1"
proof -
  obtain j where j: "j < n" "(h + j) mod n = q" using q(1) by (rule mod_reach)
  have "\<not> Suc j < d" using rh_chain_back [OF ch] q j by fastforce
  then have "inj_on (\<lambda>j. (h + j) mod n) {..<d - 1}"
    using j(1) by (intro inj_on_mod_shift) simp
  moreover have "(\<lambda>j. (h + j) mod n) ` {..<d - 1} \<subseteq> {i. i < n \<and> 0 < D i}"
  proof
    fix i assume "i \<in> (\<lambda>j. (h + j) mod n) ` {..<d - 1}"
    then obtain j where "i = (h + j) mod n" "Suc j < d" by auto
    with rh_chain_back [OF ch, of j] q(1) show "i \<in> {i. i < n \<and> 0 < D i}" by auto
  qed
  ultimately have "card {..<d - 1} \<le> card {i. i < n \<and> 0 < D i}"
    by (intro card_inj_on_le) auto
  then show ?thesis by simp
qed


section \<open>Tables\<close>

definition kv :: "'a bucket \<Rightarrow> u64 \<times> 'a" where
  "kv b = (bk_hash b, bk_item b)"

definition bag :: "'a bucket list \<Rightarrow> (u64 \<times> 'a) multiset" where
  "bag bs = image_mset kv (filter_mset (\<lambda>b. 0 < bk_dib b) (mset bs))"

definition kvs :: "'a bucket \<Rightarrow> (u64 \<times> 'a) multiset" where
  "kvs b = (if 0 < bk_dib b then {#kv b#} else {#})"

definition table_inv :: "nat \<Rightarrow> 'a bucket list \<Rightarrow> bool" where
  "table_inv n bs \<longleftrightarrow> length bs = n \<and> rh_chain n (\<lambda>i. bk_dib (bs ! i)) \<and>
     (\<forall>i<n. 0 < bk_dib (bs ! i) \<longrightarrow> (unat (bk_hash (bs ! i)) + bk_dib (bs ! i) - 1) mod n = i)"

lemma bag_update:
  assumes "i < length bs"
  shows "bag (bs[i := v]) + kvs (bs ! i) = bag bs + kvs v"
proof -
  have "mset bs = add_mset (bs ! i) (mset bs - {#bs ! i#})"
    using assms by simp
  then obtain M where M: "mset bs = add_mset (bs ! i) M" by blast
  then have "mset (bs[i := v]) = add_mset v M"
    using assms by (simp add: mset_update)
  with M show ?thesis by (auto simp: bag_def kvs_def)
qed

lemma size_bag: "size (bag bs) = card {i. i < length bs \<and> 0 < bk_dib (bs ! i)}"
  by (simp add: bag_def size_mset flip: mset_filter) (simp add: length_filter_conv_card)

lemma bag_nth: "i < length bs \<Longrightarrow> 0 < bk_dib (bs ! i) \<Longrightarrow> kv (bs ! i) \<in># bag bs"
  by (auto simp: bag_def)

lemma bag_member:
  assumes "x \<in># bag bs"
  obtains i where "i < length bs" "0 < bk_dib (bs ! i)" "kv (bs ! i) = x"
  using assms by (auto simp: bag_def in_set_conv_nth)

lemma rh_chain_upd:
  assumes "rh_chain n D" "rh_fits n D i d" "2 \<le> n" "D i \<le> d" "i < n"
  shows "rh_chain n (D(i := d))"
proof -
  have "(i + 1) mod n \<noteq> i" using mod_shift_less [of 0 1 n i] assms(3,5) by simp
  moreover have "D ((i + 1) mod n) \<le> D i + 1" using assms(1,5) by (simp add: rh_chain_def)
  ultimately show ?thesis
    using assms(1,2,4) by (auto simp: rh_chain_def rh_fits_def)
qed

lemma table_inv_upd:
  assumes inv: "table_inv n bs" and n: "2 \<le> n" and i: "i < n"
    and e: "(unat (bk_hash e) + bk_dib e - 1) mod n = i"
    and fits: "rh_fits n (\<lambda>i. bk_dib (bs ! i)) i (bk_dib e)" and le: "bk_dib (bs ! i) \<le> bk_dib e"
  shows "table_inv n (bs[i := e])"
proof -
  have len: "length bs = n" using inv by (simp add: table_inv_def)
  then have "(\<lambda>j. bk_dib (bs[i := e] ! j)) = (\<lambda>j. bk_dib (bs ! j))(i := bk_dib e)"
    using i by (auto simp: nth_list_update)
  moreover have "rh_chain n ((\<lambda>j. bk_dib (bs ! j))(i := bk_dib e))"
    using inv fits n le i by (intro rh_chain_upd) (auto simp: table_inv_def)
  ultimately show ?thesis
    using inv e i len by (auto simp: table_inv_def nth_list_update)
qed


definition carried :: "nat \<Rightarrow> 'a bucket list \<Rightarrow> 'a bucket \<Rightarrow> nat \<Rightarrow> bool" where
  "carried n bs e i \<longleftrightarrow> i < n \<and> 0 < bk_dib e \<and> (unat (bk_hash e) + bk_dib e - 1) mod n = i \<and>
     rh_fits n (\<lambda>i. bk_dib (bs ! i)) i (bk_dib e)"

lemma carried_bound:
  assumes "table_inv n bs" "carried n bs e i" "q < n" "bk_dib (bs ! q) = 0"
  shows "bk_dib e \<le> size (bag bs) + 1"
  using rh_dib_bound [of n "\<lambda>i. bk_dib (bs ! i)" "unat (bk_hash e)" "bk_dib e" q] assms
  by (simp add: carried_def table_inv_def size_bag)

lemma table_dib_bound:
  assumes "table_inv n bs" "i < n" "q < n" "bk_dib (bs ! q) = 0"
  shows "bk_dib (bs ! i) \<le> size (bag bs) + 1"
proof (cases "bk_dib (bs ! i) = 0")
  case False
  then have "carried n bs (bs ! i) i"
    using assms(1,2) by (auto simp: carried_def table_inv_def rh_chain_def rh_fits_def)
  then show ?thesis using assms by (intro carried_bound)
qed simp

lemma rh_fits_next:
  assumes "i < n" "2 \<le> n" "d \<le> D i + 1"
  shows "rh_fits n D (Suc i mod n) d"
proof -
  have "a = i" if "a < n" "Suc a mod n = Suc i mod n" for a
    using that assms(1,2) mod_shift_less [of a i n 1] mod_shift_less [of i a n 1]
    by (metis linorder_neqE_nat plus_1_eq_Suc)
  then show ?thesis using assms(3) by (auto simp: rh_fits_def)
qed

lemma placed_next:
  assumes "(h + d - 1) mod n = i" "0 < d"
  shows "(h + Suc d - 1) mod n = (i + 1) mod n"
  using assms succ_mod_mod [of h "d - 1" n] by simp

lemma carried_keep:
  assumes "carried n bs e i" "2 \<le> n" "bk_dib e \<le> bk_dib (bs ! i)" "bk_dib e + 1 < 65536"
  shows "carried n bs (e\<lparr>bk_dib := (bk_dib e + 1) mod 65536\<rparr>) ((i + 1) mod n)"
  using assms placed_next [of "unat (bk_hash e)" "bk_dib e" n i]
  by (auto simp: carried_def intro!: rh_fits_next)

lemma carried_table:
  assumes "table_inv n bs" "carried n bs e i" "2 \<le> n" "bk_dib (bs ! i) \<le> bk_dib e"
  shows "table_inv n (bs[i := e])"
  using assms by (intro table_inv_upd) (auto simp: carried_def)

lemma carried_swap:
  assumes inv: "table_inv n bs" and c: "carried n bs e i" and n: "2 \<le> n"
    and lt: "0 < bk_dib (bs ! i)" "bk_dib (bs ! i) < bk_dib e" "bk_dib e < 65536"
  shows "carried n (bs[i := e]) ((bs ! i)\<lparr>bk_dib := (bk_dib (bs ! i) + 1) mod 65536\<rparr>) ((i + 1) mod n)"
proof -
  have "i < n" "length bs = n" using c inv by (simp_all add: carried_def table_inv_def)
  moreover have "(unat (bk_hash (bs ! i)) + bk_dib (bs ! i) - 1) mod n = i"
    using inv lt(1) \<open>i < n\<close> by (simp add: table_inv_def)
  ultimately show ?thesis
    using n lt placed_next [of "unat (bk_hash (bs ! i))" "bk_dib (bs ! i)" n i]
    by (auto simp: carried_def intro!: rh_fits_next)
qed

lemma bag_carried:
  assumes "table_inv n bs" "carried n bs e i" "0 < bk_dib (bs ! i)"
  shows "add_mset (kv (bs ! i)) (bag (bs[i := e])) = add_mset (kv e) (bag bs)"
  using bag_update [of i bs e] assms by (simp add: kvs_def carried_def table_inv_def)

lemma kv_dib [simp]: "kv (b\<lparr>bk_dib := d\<rparr>) = kv b"
  by (simp add: kv_def)

lemma reinsert_ok:
  assumes "n = 2 ^ k" "2 \<le> n" "table_inv n bs" "carried n bs e i"
    and "bk_dib (bs ! ((i + t) mod n)) = 0" "size (bag bs) + 2 < 65536"
  shows "\<exists>bs'. reinsert (n - 1) e i bs = Some bs' \<and> table_inv n bs' \<and> bag bs' = add_mset (kv e) (bag bs)"
  using assms
proof (induction t arbitrary: bs e i)
  case 0
  then have i: "i < n" "length bs = n" by (simp_all add: carried_def table_inv_def)
  with 0 have "reinsert (n - 1) e i bs = Some (bs[i := e])" by (simp add: reinsert.simps)
  moreover have "bag (bs[i := e]) = add_mset (kv e) (bag bs)"
    using 0 i bag_update [of i bs e] by (simp add: kvs_def carried_def)
  ultimately show ?case using carried_table [OF 0(3,4,2)] 0 i by simp
next
  case (Suc t)
  note inv = Suc.prems(3) and c = Suc.prems(4) and n = Suc.prems(1,2)
  have i: "i < n" "length bs = n" "0 < bk_dib e" using inv c by (simp_all add: carried_def table_inv_def)
  have q: "bk_dib (bs ! (((i + 1) mod n + t) mod n)) = 0"
    using Suc.prems(5) by (simp add: mod_add_left_eq)
  have qn: "((i + 1) mod n + t) mod n < n" using n by simp
  have b: "bk_dib e \<le> size (bag bs) + 1" using carried_bound [OF inv c qn q] .
  consider (empty) "bk_dib (bs ! i) = 0" | (swap) "0 < bk_dib (bs ! i)" "bk_dib (bs ! i) < bk_dib e"
    | (keep) "bk_dib e \<le> bk_dib (bs ! i)" "0 < bk_dib (bs ! i)" by linarith
  then show ?case
  proof cases
    case empty
    then show ?thesis
      using carried_table [OF inv c n(2)] bag_update [of i bs e] i by (simp add: reinsert.simps [of _ e] kvs_def)
  next
    case swap
    let ?b = "(bs ! i)\<lparr>bk_dib := (bk_dib (bs ! i) + 1) mod 65536\<rparr>"
    have "((i + 1) mod n + t) mod n \<noteq> i" using q swap(1) by auto
    then have "bk_dib (bs[i := e] ! (((i + 1) mod n + t) mod n)) = 0" using q by simp
    moreover have "size (bag (bs[i := e])) = size (bag bs)"
      using arg_cong [OF bag_carried [OF inv c swap(1)], of size] by simp
    ultimately have "\<exists>bs'. reinsert (n - 1) ?b ((i + 1) mod n) (bs[i := e]) = Some bs' \<and> table_inv n bs' \<and>
        bag bs' = add_mset (kv ?b) (bag (bs[i := e]))"
      using carried_table [OF inv c n(2)] carried_swap [OF inv c n(2) swap] swap b Suc.prems(6) n
      by (intro Suc.IH) auto
    then show ?thesis
      using bag_carried [OF inv c swap(1)] swap
      by (simp add: reinsert.simps [of _ e] and_mask_mod [OF n(1)])
  next
    case keep
    have "carried n bs (e\<lparr>bk_dib := (bk_dib e + 1) mod 65536\<rparr>) ((i + 1) mod n)"
      using c n(2) keep(1) b Suc.prems(6) by (intro carried_keep) auto
    then have "\<exists>bs'. reinsert (n - 1) (e\<lparr>bk_dib := (bk_dib e + 1) mod 65536\<rparr>) ((i + 1) mod n) bs = Some bs' \<and>
        table_inv n bs' \<and> bag bs' = add_mset (kv e) (bag bs)"
      using Suc.IH [OF n inv _ q Suc.prems(6)] by fastforce
    then show ?thesis
      using keep by (simp add: reinsert.simps [of _ e] and_mask_mod [OF n(1)])
  qed
qed


definition clash :: "('a \<Rightarrow> 'a \<Rightarrow> int) option \<Rightarrow> u64 \<times> 'a \<Rightarrow> u64 \<times> 'a \<Rightarrow> bool" where
  "clash c x y \<longleftrightarrow> fst x = fst y \<and> same_item c (snd x) (snd y)"

definition indep :: "('a \<Rightarrow> 'a \<Rightarrow> int) option \<Rightarrow> (u64 \<times> 'a) multiset \<Rightarrow> bool" where
  "indep c M \<longleftrightarrow> (\<forall>x y. {#x, y#} \<subseteq># M \<longrightarrow> \<not> clash c x y)"

lemma indep_pair: "indep c (add_mset x M) \<Longrightarrow> y \<in># M \<Longrightarrow> \<not> clash c x y \<and> \<not> clash c y x"
  unfolding indep_def
  by (metis add_mset_commute mset_subset_eq_add_mset_cancel single_subset_iff)

lemma indep_mono: "indep c M \<Longrightarrow> N \<subseteq># M \<Longrightarrow> indep c N"
  unfolding indep_def by (meson subset_mset.order_trans)

lemma indep_index:
  assumes "indep c (bag bs)" "i < length bs" "j < length bs" "i \<noteq> j"
    and "0 < bk_dib (bs ! i)" "0 < bk_dib (bs ! j)"
  shows "\<not> clash c (kv (bs ! i)) (kv (bs ! j))"
proof -
  let ?bs = "bs[i := (bs ! i)\<lparr>bk_dib := 0\<rparr>]"
  have "bag bs = add_mset (kv (bs ! i)) (bag ?bs)"
    using bag_update [OF assms(2), of "(bs ! i)\<lparr>bk_dib := 0\<rparr>"] assms(5) by (simp add: kvs_def)
  moreover have "kv (bs ! j) \<in># bag ?bs"
    using bag_nth [of j ?bs] assms by simp
  ultimately show ?thesis using assms(1) indep_pair by metis
qed

lemma set_loop_fresh:
  assumes "n = 2 ^ k" "2 \<le> n" "table_inv n bs" "carried n bs e i"
    and "bk_dib (bs ! ((i + t) mod n)) = 0" "size (bag bs) + 2 < 65536"
    and "indep c (add_mset (kv e) (bag bs))"
  shows "set_loop c (n - 1) e i bs = map_option (\<lambda>bs. (bs, None)) (reinsert (n - 1) e i bs)"
  using assms
proof (induction t arbitrary: bs e i)
  case 0
  then show ?case
    by (simp add: set_loop.simps [of _ _ e] reinsert.simps [of _ e] carried_def)
next
  case (Suc t)
  note inv = Suc.prems(3) and c = Suc.prems(4) and n = Suc.prems(1,2)
  have i: "i < n" "length bs = n" "0 < bk_dib e" using inv c by (simp_all add: carried_def table_inv_def)
  have q: "bk_dib (bs ! (((i + 1) mod n + t) mod n)) = 0"
    using Suc.prems(5) by (simp add: mod_add_left_eq)
  have qn: "((i + 1) mod n + t) mod n < n" using n by simp
  have b: "bk_dib e \<le> size (bag bs) + 1" using carried_bound [OF inv c qn q] .
  have nc: "0 < bk_dib (bs ! i) \<Longrightarrow> \<not> (bk_hash e = bk_hash (bs ! i) \<and> same_item c (bk_item e) (bk_item (bs ! i)))"
    using indep_pair [OF Suc.prems(7) bag_nth [of i bs]] i by (simp add: clash_def kv_def)
  consider (empty) "bk_dib (bs ! i) = 0" | (swap) "0 < bk_dib (bs ! i)" "bk_dib (bs ! i) < bk_dib e"
    | (keep) "bk_dib e \<le> bk_dib (bs ! i)" "0 < bk_dib (bs ! i)" by linarith
  then show ?case
  proof cases
    case empty
    then show ?thesis by (simp add: set_loop.simps [of _ _ e] reinsert.simps [of _ e])
  next
    case swap
    let ?b = "(bs ! i)\<lparr>bk_dib := (bk_dib (bs ! i) + 1) mod 65536\<rparr>"
    have "((i + 1) mod n + t) mod n \<noteq> i" using q swap(1) by auto
    then have "bk_dib (bs[i := e] ! (((i + 1) mod n + t) mod n)) = 0" using q by simp
    moreover have "size (bag (bs[i := e])) = size (bag bs)"
      using arg_cong [OF bag_carried [OF inv c swap(1)], of size] by simp
    ultimately have "set_loop c (n - 1) ?b ((i + 1) mod n) (bs[i := e]) =
        map_option (\<lambda>bs. (bs, None)) (reinsert (n - 1) ?b ((i + 1) mod n) (bs[i := e]))"
      using carried_table [OF inv c n(2)] carried_swap [OF inv c n(2) swap] swap b Suc.prems(6,7) n
        bag_carried [OF inv c swap(1)]
      by (intro Suc.IH) auto
    then show ?thesis
      using nc swap by (auto simp: set_loop.simps [of _ _ e] reinsert.simps [of _ e] and_mask_mod [OF n(1)])
  next
    case keep
    have "carried n bs (e\<lparr>bk_dib := (bk_dib e + 1) mod 65536\<rparr>) ((i + 1) mod n)"
      using c n(2) keep(1) b Suc.prems(6) by (intro carried_keep) auto
    from Suc.IH [OF n inv this q Suc.prems(6)] Suc.prems(7)
    show ?thesis
      using nc keep by (auto simp: set_loop.simps [of _ _ e] reinsert.simps [of _ e] and_mask_mod [OF n(1)])
  qed
qed

lemma get_loop_none:
  assumes "n = 2 ^ k" "length bs = n" "i < n" "bk_dib (bs ! ((i + t) mod n)) = 0"
    and "\<And>x. x \<in># bag bs \<Longrightarrow> \<not> (fst x = h \<and> same_item c key (snd x))"
  shows "get_loop c (n - 1) key h i bs = Some None"
  using assms(3,4)
proof (induction t arbitrary: i)
  case 0
  then show ?case by (simp add: get_loop.simps [of _ _ _ _ i])
next
  case (Suc t)
  have "get_loop c (n - 1) key h (Suc i mod n) bs = Some None"
    using Suc.prems by (intro Suc.IH) (simp_all add: mod_add_left_eq)
  moreover have "0 < bk_dib (bs ! i) \<Longrightarrow> \<not> (bk_hash (bs ! i) = h \<and> same_item c key (bk_item (bs ! i)))"
    using assms(5) bag_nth [of i bs] Suc.prems(1) assms(2) by (force simp: kv_def)
  ultimately show ?case
    by (auto simp: get_loop.simps [of _ _ _ _ i] and_mask_mod [OF assms(1)])
qed

lemma table_probe:
  assumes "table_inv n bs" "p < n" "Suc j < bk_dib (bs ! p)"
  shows "Suc j \<le> bk_dib (bs ! ((unat (bk_hash (bs ! p)) + j) mod n))"
proof -
  let ?D = "\<lambda>i. bk_dib (bs ! i)" and ?h = "unat (bk_hash (bs ! p))"
  have ch: "rh_chain n ?D" and p: "(?h + ?D p - 1) mod n = p" 
    using assms by (auto simp: table_inv_def)
  have "rh_fits n ?D p (?D p)"
    using ch assms(2) by (auto simp: rh_chain_def rh_fits_def)
  then show ?thesis
    using rh_chain_back [OF ch, of ?h "?D p" j] assms(2,3) p by simp
qed

lemma get_loop_found:
  assumes "n = 2 ^ k" "table_inv n bs" "p < n" "bk_hash (bs ! p) = h" "same_item c key (bk_item (bs ! p))"
    and "\<And>i. i < n \<Longrightarrow> 0 < bk_dib (bs ! i) \<Longrightarrow> bk_hash (bs ! i) = h \<Longrightarrow> same_item c key (bk_item (bs ! i)) \<Longrightarrow> i = p"
    and "j < bk_dib (bs ! p)"
  shows "get_loop c (n - 1) key h ((unat h + j) mod n) bs = Some (Some p)"
proof -
  have n: "0 < n" using assms(3) by simp
  have "j \<le> bk_dib (bs ! p) - 1" using assms(7) by simp
  then show ?thesis
  proof (induction rule: inc_induct)
    case base
    have "(unat h + (bk_dib (bs ! p) - 1)) mod n = p"
      using assms(2,3,4,7) by (auto simp: table_inv_def)
    then show ?case
      using assms(4,5,7) by (simp add: get_loop.simps [of _ _ _ _ p])
  next
    case (step m)
    let ?i = "(unat h + m) mod n"
    have "Suc m < bk_dib (bs ! p)" using step(2) by linarith
    then have full: "0 < bk_dib (bs ! ?i)" using table_probe [OF assms(2,3), of m] assms(4) by simp
    show ?case
    proof (cases "bk_hash (bs ! ?i) = h \<and> same_item c key (bk_item (bs ! ?i))")
      case True
      then have "?i = p" using assms(6) n full by simp
      then show ?thesis using True full by (simp add: get_loop.simps [of _ _ _ _ p])
    next
      case False
      then show ?thesis
        using full step(3) n
        by (subst get_loop.simps) (auto simp: and_mask_mod [OF assms(1)] mod_Suc_eq)
    qed
  qed
qed

lemma set_loop_replace:
  assumes "n = 2 ^ k" "table_inv n bs" "p < n" "bk_hash (bs ! p) = h" "same_item c x (bk_item (bs ! p))"
    and "\<And>i. i < n \<Longrightarrow> 0 < bk_dib (bs ! i) \<Longrightarrow> bk_hash (bs ! i) = h \<Longrightarrow> same_item c x (bk_item (bs ! i)) \<Longrightarrow> i = p"
    and "j < bk_dib (bs ! p)" "bk_dib (bs ! p) < 65536"
  shows "set_loop c (n - 1) \<lparr>bk_hash = h, bk_dib = Suc j, bk_item = x\<rparr> ((unat h + j) mod n) bs =
    Some (bs[p := (bs ! p)\<lparr>bk_item := x\<rparr>], Some (bk_item (bs ! p)))"
proof -
  have n: "0 < n" using assms(3) by simp
  have "j \<le> bk_dib (bs ! p) - 1" using assms(7) by simp
  then show ?thesis
  proof (induction rule: inc_induct)
    case base
    have "(unat h + (bk_dib (bs ! p) - 1)) mod n = p"
      using assms(2,3,4,7) by (auto simp: table_inv_def)
    then show ?case
      using assms(4,5,7) by (simp add: set_loop.simps [of _ _ _ p])
  next
    case (step m)
    let ?i = "(unat h + m) mod n"
    have "Suc m < bk_dib (bs ! p)" using step(2) by linarith
    then have full: "Suc m \<le> bk_dib (bs ! ?i)" using table_probe [OF assms(2,3), of m] assms(4) by simp
    show ?case
    proof (cases "bk_hash (bs ! ?i) = h \<and> same_item c x (bk_item (bs ! ?i))")
      case True
      then have "?i = p" using assms(6) n full by simp
      then show ?thesis using True full by (simp add: set_loop.simps [of _ _ _ p])
    next
      case False
      have "Suc (Suc m) < 65536" using step(2) assms(8) by simp
      then show ?thesis
        using False full step(3) n
        by (subst set_loop.simps) (auto simp: and_mask_mod [OF assms(1)] mod_Suc_eq)
    qed
  qed
qed



definition hole_inv :: "nat \<Rightarrow> 'a bucket list \<Rightarrow> nat \<Rightarrow> bool" where
  "hole_inv n bs p \<longleftrightarrow> length bs = n \<and> p < n \<and>
     (\<forall>i<n. i \<noteq> p \<longrightarrow> 0 < bk_dib (bs ! i) \<longrightarrow> (unat (bk_hash (bs ! i)) + bk_dib (bs ! i) - 1) mod n = i) \<and>
     (\<forall>a<n. a \<noteq> p \<longrightarrow> Suc a mod n \<noteq> p \<longrightarrow> bk_dib (bs ! (Suc a mod n)) \<le> bk_dib (bs ! a) + 1) \<and>
     (\<forall>a<n. a \<noteq> p \<longrightarrow> Suc a mod n = p \<longrightarrow> bk_dib (bs ! (Suc p mod n)) \<le> bk_dib (bs ! a) + 2)"

lemma placed_prev:
  assumes "(h + d - 1) mod n = Suc p mod n" "1 < d" "p < n"
  shows "(h + (d - 1) - 1) mod n = p"
proof -
  obtain e where e: "d = Suc (Suc e)" using assms(2) by (metis less_natE One_nat_def Suc_lessE)
  then have "Suc ((h + e) mod n) mod n = Suc p mod n" using assms(1) by (simp add: mod_Suc_eq)
  then show ?thesis using e assms(3) Suc_mod_inject [of "(h + e) mod n" n p] by simp
qed

lemma hole_inv_D:
  assumes "hole_inv n bs p"
  shows "length bs = n" "p < n"
    and "i < n \<Longrightarrow> i \<noteq> p \<Longrightarrow> 0 < bk_dib (bs ! i) \<Longrightarrow> (unat (bk_hash (bs ! i)) + bk_dib (bs ! i) - 1) mod n = i"
    and "a < n \<Longrightarrow> a \<noteq> p \<Longrightarrow> Suc a mod n \<noteq> p \<Longrightarrow> bk_dib (bs ! (Suc a mod n)) \<le> bk_dib (bs ! a) + 1"
    and "a < n \<Longrightarrow> a \<noteq> p \<Longrightarrow> Suc a mod n = p \<Longrightarrow> bk_dib (bs ! (Suc p mod n)) \<le> bk_dib (bs ! a) + 2"
  using assms unfolding hole_inv_def by blast+

lemma hole_close:
  assumes h: "hole_inv n bs p" and n: "2 \<le> n" and d: "bk_dib (bs ! (Suc p mod n)) \<le> 1"
  shows "table_inv n (bs[p := (bs ! p)\<lparr>bk_dib := 0\<rparr>])"
proof -
  let ?T = "bs[p := (bs ! p)\<lparr>bk_dib := 0\<rparr>]"
  note hd = hole_inv_D [OF h]
  have p: "Suc p mod n \<noteq> p" using hd(2) n Suc_mod_neq by simp
  have "bk_dib (?T ! (Suc a mod n)) \<le> bk_dib (?T ! a) + 1" if a: "a < n" for a
    using d p a hd(1,2) hd(4) [of a] by (cases "a = p"; cases "Suc a mod n = p") simp_all
  moreover have "(unat (bk_hash (?T ! i)) + bk_dib (?T ! i) - 1) mod n = i" if "i < n" "0 < bk_dib (?T ! i)" for i
    using hd(1,2) hd(3) [of i] that by (cases "i = p") simp_all
  ultimately show ?thesis using hd(1) by (simp add: table_inv_def rh_chain_def)
qed

lemma hole_step:
  assumes h: "hole_inv n bs p" and n: "2 \<le> n" and d: "1 < bk_dib (bs ! (Suc p mod n))"
  defines "nb \<equiv> bs ! (Suc p mod n)"
  shows "hole_inv n (bs[p := nb\<lparr>bk_dib := bk_dib nb - 1\<rparr>]) (Suc p mod n)"
proof -
  let ?p = "Suc p mod n"
  let ?b = "bs[p := nb\<lparr>bk_dib := bk_dib nb - 1\<rparr>]"
  note hd = hole_inv_D [OF h]
  have p: "?p \<noteq> p" "?p < n" using hd(2) n Suc_mod_neq [of n p] by simp_all
  have d': "1 < bk_dib nb" using d by (simp add: nb_def)
  have nbp: "(unat (bk_hash nb) + (bk_dib nb - 1) - 1) mod n = p"
    using hd(3) [OF p(2,1)] d' hd(2) by (intro placed_prev) (simp_all only: nb_def)
  have 1: "(unat (bk_hash (?b ! i)) + bk_dib (?b ! i) - 1) mod n = i" if "i < n" "i \<noteq> ?p" "0 < bk_dib (?b ! i)" for i
    using hd(1,2) hd(3) [of i] that nbp by (cases "i = p") simp_all
  have 2: "bk_dib (?b ! (Suc a mod n)) \<le> bk_dib (?b ! a) + 1" if "a < n" "a \<noteq> ?p" "Suc a mod n \<noteq> ?p" for a
  proof (cases "Suc a mod n = p")
    case True
    have "a \<noteq> p" using that by auto
    with True show ?thesis using hd(1,2) hd(5) [of a] that d' by (simp add: nb_def)
  next
    case False
    have "a \<noteq> p" using that by auto
    with False show ?thesis using hd(1,2) hd(4) [of a] that by simp
  qed
  have 3: "bk_dib (?b ! (Suc ?p mod n)) \<le> bk_dib (?b ! a) + 2" if "a < n" "a \<noteq> ?p" "Suc a mod n = ?p" for a
  proof -
    have a: "a = p" using that hd(2) Suc_mod_inject [of a n p] by simp
    show ?thesis
    proof (cases "Suc ?p mod n = p")
      case False
      then show ?thesis using hd(1,2) hd(4) [of ?p] p a d' by (simp add: nb_def)
    qed (use a hd in simp)
  qed
  show ?thesis unfolding hole_inv_def
    by (intro conjI allI impI; (rule 1 2 3, assumption+)?) (simp_all only: length_list_update hd(1) p(2))
qed

lemma hole_step_bag:
  assumes "hole_inv n bs p" "2 \<le> n" "1 < bk_dib (bs ! (Suc p mod n))"
  defines "nb \<equiv> bs ! (Suc p mod n)"
  shows "bag ((bs[p := nb\<lparr>bk_dib := bk_dib nb - 1\<rparr>])[Suc p mod n := nb\<lparr>bk_dib := 0\<rparr>]) =
         bag (bs[p := (bs ! p)\<lparr>bk_dib := 0\<rparr>])" (is "?A = ?B")
proof -
  let ?p = "Suc p mod n" and ?X = "bs[p := nb\<lparr>bk_dib := bk_dib nb - 1\<rparr>]"
  have p: "p < length bs" "?p \<noteq> p" "?p < length bs"
    using hole_inv_D(1,2) [OF assms(1)] assms(2) Suc_mod_neq by simp_all
  have d: "1 < bk_dib nb" using assms(3) by (simp add: nb_def)
  have 1: "bag ?X + kvs (bs ! p) = bag bs + {#kv nb#}"
    using bag_update [OF p(1), of "nb\<lparr>bk_dib := bk_dib nb - 1\<rparr>"] d by (simp add: kvs_def)
  have "?X ! ?p = nb" using p by (simp add: nb_def)
  then have 2: "?A + {#kv nb#} = bag ?X"
    using bag_update [of ?p ?X "nb\<lparr>bk_dib := 0\<rparr>"] p(3) d by (simp add: kvs_def)
  have 3: "?B + kvs (bs ! p) = bag bs"
    using bag_update [OF p(1), of "(bs ! p)\<lparr>bk_dib := 0\<rparr>"] by (simp add: kvs_def)
  have "?A + (kvs (bs ! p) + {#kv nb#}) = ?A + {#kv nb#} + kvs (bs ! p)" by (simp only: ac_simps)
  also have "\<dots> = ?B + (kvs (bs ! p) + {#kv nb#})" unfolding 2 1 3 [symmetric] by (simp only: ac_simps)
  finally show ?thesis by (simp only: add_right_cancel)
qed

lemma shift_loop_ok:
  assumes "n = 2 ^ k" "2 \<le> n" "hole_inv n bs p" "t < n" "0 < t" "bk_dib (bs ! ((p + t) mod n)) \<le> 1"
  shows "\<exists>bs'. shift_loop (n - 1) p bs = Some bs' \<and> table_inv n bs' \<and> bag bs' = bag (bs[p := (bs ! p)\<lparr>bk_dib := 0\<rparr>])"
  using assms(3-)
proof (induction t arbitrary: bs p)
  case (Suc t)
  note h = Suc.prems(1)
  have p: "p < n" "length bs = n" using h by (auto simp: hole_inv_def)
  show ?case
  proof (cases "bk_dib (bs ! (Suc p mod n)) \<le> 1")
    case True
    then show ?thesis
      using hole_close [OF h assms(2)] by (simp add: shift_loop.simps [of _ p] and_mask_mod [OF assms(1)])
  next
    case False
    let ?nb = "bs ! (Suc p mod n)"
    let ?bs = "bs[p := ?nb\<lparr>bk_dib := bk_dib ?nb - 1\<rparr>]"
    have t: "0 < t" using False Suc.prems(4) by (cases t) simp_all
    have q: "(Suc p mod n + t) mod n = (p + Suc t) mod n" by (simp add: mod_add_left_eq)
    have "(p + Suc t) mod n \<noteq> p" using mod_shift_less [of 0 "Suc t" n p] Suc.prems(2) p by simp
    then have qd: "bk_dib (?bs ! ((Suc p mod n + t) mod n)) \<le> 1" using Suc.prems(4) q by simp
    have "hole_inv n ?bs (Suc p mod n)" using False by (intro hole_step [OF h assms(2)]) simp
    from Suc.IH [OF this _ t qd] Suc.prems(2)
    have "\<exists>bs'. shift_loop (n - 1) (Suc p mod n) ?bs = Some bs' \<and> table_inv n bs' \<and>
        bag bs' = bag (?bs[Suc p mod n := (?bs ! (Suc p mod n))\<lparr>bk_dib := 0\<rparr>])" by simp
    moreover have "?bs ! (Suc p mod n) = ?nb"
      using Suc_mod_neq [OF assms(2) p(1)] by simp
    ultimately show ?thesis
      using False hole_step_bag [OF h assms(2)] 
      by (simp add: shift_loop.simps [of _ p] and_mask_mod [OF assms(1)])
  qed
qed simp

lemma table_empty_bucket:
  assumes "table_inv n bs" "size (bag bs) < n"
  obtains q where "q < n" "bk_dib (bs ! q) = 0"
proof -
  have "\<exists>q<n. bk_dib (bs ! q) = 0"
  proof (rule ccontr)
    assume "\<not> ?thesis"
    then have "{i. i < n \<and> 0 < bk_dib (bs ! i)} = {..<n}" by auto
    then show False using assms by (simp add: size_bag table_inv_def)
  qed
  then show ?thesis using that by blast
qed

lemma carried_home:
  assumes "0 < n" "bk_dib e = 1"
  shows "carried n bs e (unat (bk_hash e) mod n)"
  using assms by (simp add: carried_def rh_fits_def)

lemma reinsert_home:
  assumes n: "n = 2 ^ k" "2 \<le> n" and inv: "table_inv n bs" and e: "bk_dib e = 1"
    and sz: "size (bag bs) < n" "size (bag bs) + 2 < 65536"
  shows "\<exists>bs'. reinsert (n - 1) e (unat (bk_hash e) mod n) bs = Some bs' \<and> table_inv n bs' \<and>
           bag bs' = add_mset (kv e) (bag bs)"
proof -
  obtain q where q: "q < n" "bk_dib (bs ! q) = 0" using table_empty_bucket [OF inv sz(1)] .
  obtain t where "(unat (bk_hash e) mod n + t) mod n = q" using mod_reach [OF q(1)] by metis
  with q show ?thesis
    using n by (intro reinsert_ok [OF n inv carried_home [OF _ e] _ sz(2)]) auto
qed

lemma resize_move_ok:
  assumes "n = 2 ^ k" "2 \<le> n" "table_inv n bs"
    and "size (bag old) + size (bag bs) < n" "size (bag old) + size (bag bs) + 2 < 65536"
  shows "\<exists>bs'. resize_move (n - 1) old bs = Some bs' \<and> table_inv n bs' \<and> bag bs' = bag old + bag bs"
  using assms
proof (induction old arbitrary: bs)
  case Nil
  then show ?case by (simp add: bag_def)
next
  case (Cons e old)
  have b: "bag (e # old) = kvs e + bag old" by (simp add: bag_def kvs_def)
  show ?case
  proof (cases "bk_dib e = 0")
    case True
    then show ?thesis using Cons b by (simp add: kvs_def)
  next
    case False
    then have b: "bag (e # old) = add_mset (kv e) (bag old)" using b by (simp add: kvs_def)
    obtain bs' where bs': "reinsert (n - 1) (e\<lparr>bk_dib := 1\<rparr>) (unat (bk_hash e) mod n) bs = Some bs'"
      "table_inv n bs'" "bag bs' = add_mset (kv e) (bag bs)"
      using reinsert_home [OF Cons.prems(1-3), of "e\<lparr>bk_dib := 1\<rparr>"] Cons.prems(4,5) b by auto
    have "\<exists>bs''. resize_move (n - 1) old bs' = Some bs'' \<and> table_inv n bs'' \<and> bag bs'' = bag old + bag bs'"
      using Cons.prems b bs' by (intro Cons.IH) auto
    then show ?thesis
      using False bs' b by (simp add: and_mask_mod [OF Cons.prems(1)])
  qed
qed

lemma bag_replicate [simp]: "bag (replicate n (empty_bucket z)) = {#}"
  by (simp add: bag_def empty_bucket_def)

lemma table_inv_replicate [simp]: "0 < n \<Longrightarrow> table_inv n (replicate n (empty_bucket z))"
  by (simp add: table_inv_def rh_chain_def empty_bucket_def)

lemma pair_subset_add:
  assumes "{#a, b#} \<subseteq># add_mset x M" "a \<noteq> x" "b \<noteq> x"
  shows "{#a, b#} \<subseteq># M"
proof (rule mset_subset_eqI)
  fix y show "count {#a, b#} y \<le> count M y"
    using assms mset_subset_eq_count [OF assms(1), of y] by (cases "y = x") auto
qed

lemma indep_add:
  "indep c (add_mset x M) \<longleftrightarrow> indep c M \<and> (\<forall>y\<in>#M. \<not> clash c x y \<and> \<not> clash c y x)" (is "?l = ?r")
proof
  assume ?l
  then show ?r using indep_pair [of c x M] indep_mono [of c "add_mset x M" M] by simp
next
  assume r: ?r
  show ?l unfolding indep_def
  proof (intro allI impI)
    fix a b assume sub: "{#a, b#} \<subseteq># add_mset x M"
    consider "a = x" | "b = x" | "a \<noteq> x" "b \<noteq> x" by blast
    then show "\<not> clash c a b"
    proof cases
      case 1
      then have "b \<in># M" using sub by simp
      then show ?thesis using r 1 by simp
    next
      case 2
      then have "a \<in># M" using sub by (simp add: add_mset_commute [of a])
      then show ?thesis using r 2 by simp
    next
      case 3
      then show ?thesis using r pair_subset_add [OF sub] unfolding indep_def by blast
    qed
  qed
qed

lemma bag_clash_index:
  assumes "y \<in># bag bs" "clash (Some c) (h, x) y"
  obtains p where "p < length bs" "0 < bk_dib (bs ! p)" "bk_hash (bs ! p) = h" "c x (bk_item (bs ! p)) = 0"
proof -
  obtain p where "p < length bs" "0 < bk_dib (bs ! p)" "kv (bs ! p) = y"
    using assms(1) by (rule bag_member)
  then show ?thesis using that [of p] assms(2) by (auto simp: clash_def kv_def)
qed

lemma table_inv_item:
  assumes "table_inv n bs"
  shows "table_inv n (bs[p := (bs ! p)\<lparr>bk_item := x\<rparr>])"
proof -
  have d: "bk_dib (bs[p := (bs ! p)\<lparr>bk_item := x\<rparr>] ! i) = bk_dib (bs ! i)" for i
    by (cases "p < length bs") (simp_all add: nth_list_update list_update_beyond)
  have h: "bk_hash (bs[p := (bs ! p)\<lparr>bk_item := x\<rparr>] ! i) = bk_hash (bs ! i)" for i
    by (cases "p < length bs") (simp_all add: nth_list_update list_update_beyond)
  show ?thesis using assms unfolding table_inv_def d h by simp
qed

lemma hole_start:
  assumes inv: "table_inv n bs" and p: "p < n" "2 \<le> n"
  shows "hole_inv n (bs[p := (bs ! p)\<lparr>bk_dib := 0\<rparr>]) p"
proof -
  let ?T = "bs[p := (bs ! p)\<lparr>bk_dib := 0\<rparr>]"
  have len: "length bs = n" using inv by (simp add: table_inv_def)
  have ch: "bk_dib (bs ! (Suc a mod n)) \<le> bk_dib (bs ! a) + 1" if "a < n" for a
    using inv that by (simp add: table_inv_def rh_chain_def)
  have pl: "(unat (bk_hash (bs ! i)) + bk_dib (bs ! i) - 1) mod n = i" if "i < n" "0 < bk_dib (bs ! i)" for i
    using inv that by (simp add: table_inv_def)
  have T: "?T ! i = bs ! i" if "i \<noteq> p" for i using that by simp
  have sp: "Suc p mod n \<noteq> p" by (rule Suc_mod_neq [OF p(2,1)])
  have 3: "bk_dib (bs ! (Suc p mod n)) \<le> bk_dib (bs ! a) + 2" if "a < n" "Suc a mod n = p" for a
    using ch [OF that(1)] ch [OF p(1)] unfolding that(2) by linarith
  show ?thesis unfolding hole_inv_def
  proof (intro conjI allI impI)
    show "length ?T = n" using len by simp
    show "p < n" by (rule p)
    show "(unat (bk_hash (?T ! i)) + bk_dib (?T ! i) - 1) mod n = i" if "i < n" "i \<noteq> p" "0 < bk_dib (?T ! i)" for i
      using pl that T by simp
    show "bk_dib (?T ! (Suc a mod n)) \<le> bk_dib (?T ! a) + 1" if "a < n" "a \<noteq> p" "Suc a mod n \<noteq> p" for a
      unfolding T [OF that(2)] T [OF that(3)] by (rule ch [OF that(1)])
    show "bk_dib (?T ! (Suc p mod n)) \<le> bk_dib (?T ! a) + 2" if "a < n" "a \<noteq> p" "Suc a mod n = p" for a
      unfolding T [OF that(2)] T [OF sp] by (rule 3 [OF that(1,3)])
  qed
qed

lemma shift_table:
  assumes n: "n = 2 ^ k" "2 \<le> n" and inv: "table_inv n bs" and p: "p < n" "0 < bk_dib (bs ! p)"
    and sz: "size (bag bs) < n"
  obtains bs' where "shift_loop (n - 1) p (bs[p := (bs ! p)\<lparr>bk_dib := 0\<rparr>]) = Some bs'" "table_inv n bs'"
    "bag bs = add_mset (kv (bs ! p)) (bag bs')"
proof -
  let ?T = "bs[p := (bs ! p)\<lparr>bk_dib := 0\<rparr>]"
  have len: "length bs = n" using inv by (simp add: table_inv_def)
  obtain q where q: "q < n" "bk_dib (bs ! q) = 0" using table_empty_bucket [OF inv sz] .
  obtain t where t: "t < n" "(p + t) mod n = q" using mod_reach [OF q(1)] by blast
  have "t \<noteq> 0" using t q p by (cases t) auto
  then have t0: "0 < t" by simp
  have "bk_dib (?T ! ((p + t) mod n)) \<le> 1" unfolding t(2) using q(2) p(2) by (cases "q = p") auto
  from shift_loop_ok [OF n hole_start [OF inv p(1) n(2)] t(1) t0 this] have "\<exists>bs'. shift_loop (n - 1) p ?T = Some bs' \<and> table_inv n bs' \<and> bag bs' = bag (?T[p := (?T ! p)\<lparr>bk_dib := 0\<rparr>])"
    .
  moreover have "bag bs = add_mset (kv (bs ! p)) (bag ?T)"
    using bag_update [of p bs "(bs ! p)\<lparr>bk_dib := 0\<rparr>"] p len by (simp add: kvs_def)
  ultimately show ?thesis using that p len by auto
qed

end
