(* ===== verification/Hashmap_Spec.thy ===== *)
theory Hashmap_Spec
  imports Robinhood_Table
begin

text \<open>
  The hash map as its callers see it.  The locale \<open>hash_contract\<close> is what the map
  asks of the \<open>hash\<close> and \<open>compare\<close> callbacks; \<open>hm_inv\<close> is the invariant of the map,
  \<open>hm_lookup\<close> the association it stores.  The theorems say that \<open>hashmap_get\<close>,
  \<open>hashmap_set\<close> and \<open>hashmap_delete\<close> return and implement lookup, update and removal
  of that association, also across the growing and shrinking of the table and
  when the allocator fails, for maps of fewer than 65534 items (beyond, the
  16-bit distance could wrap).
\<close>

section \<open>Capacities\<close>

lemma ncap_loop_pow:
  assumes "j \<le> k" "k \<le> 63"
  shows "ncap_loop (2 ^ k) (2 ^ j) = Some (2 ^ k)"
  using assms(1)
proof (induction rule: inc_induct)
  case base
  then show ?case by (simp add: ncap_loop.simps)
next
  case (step i)
  have "(2 :: nat) ^ Suc i < 2 ^ 64" using step assms(2) by (intro power_strict_increasing) simp_all
  then have "(2 :: nat) ^ i * 2 mod 2 ^ 64 = 2 ^ Suc i" by (simp add: mult.commute)
  moreover have "(2 :: nat) ^ i < 2 ^ k" using step by simp
  ultimately show ?case using step by (simp add: ncap_loop.simps [of _ "2 ^ i"])
qed

lemma ncap_loop_returns:
  assumes "cap \<le> 2 ^ 63" "j \<le> 63"
  shows "\<exists>k\<ge>j. k \<le> 63 \<and> ncap_loop cap (2 ^ j) = Some (2 ^ k) \<and> cap \<le> 2 ^ k \<and> (k = j \<or> 2 ^ k < 2 * cap)"
  using assms(2)
proof (induction "63 - j" arbitrary: j)
  case 0
  then have "j = 63" by simp
  then show ?case using assms(1) by (intro exI [of _ j]) (simp add: ncap_loop.simps)
next
  case (Suc d)
  show ?case
  proof (cases "2 ^ j < cap")
    case True
    have "(2 :: nat) ^ Suc j < 2 ^ 64" using Suc by (intro power_strict_increasing) simp_all
    then have m: "(2 :: nat) ^ j * 2 mod 2 ^ 64 = 2 ^ Suc j" by (simp add: mult.commute)
    have "\<exists>k\<ge>Suc j. k \<le> 63 \<and> ncap_loop cap (2 ^ Suc j) = Some (2 ^ k) \<and> cap \<le> 2 ^ k \<and> (k = Suc j \<or> 2 ^ k < 2 * cap)"
      using Suc by (intro Suc.hyps(1)) auto
    then obtain k where k: "Suc j \<le> k" "k \<le> 63" "ncap_loop cap (2 ^ Suc j) = Some (2 ^ k)" "cap \<le> 2 ^ k"
      "k = Suc j \<or> 2 ^ k < 2 * cap" by blast
    then show ?thesis
      using True m by (intro exI [of _ k]) (auto simp: ncap_loop.simps [of _ "2 ^ j"])
  next
    case False
    then show ?thesis using Suc.prems by (intro exI [of _ j]) (simp add: ncap_loop.simps)
  qed
qed

lemma pow2_double:
  assumes "i = 0 \<or> (\<exists>j\<le>63. i = 2 ^ j)"
  shows "i \<le> 2 ^ 63" and "i * 2 mod 2 ^ 64 = 0 \<or> (\<exists>j\<le>63. i * 2 mod 2 ^ 64 = (2 :: nat) ^ j)"
proof -
  show "i \<le> 2 ^ 63"
    using assms by (elim disjE exE conjE) (simp, simp only:, rule power_increasing, simp_all)
  consider "i = 0" | "i = 2 ^ 63" | j where "j < 63" "i = 2 ^ j"
    using assms nat_less_le by blast
  then show "i * 2 mod 2 ^ 64 = 0 \<or> (\<exists>j\<le>63. i * 2 mod 2 ^ 64 = (2 :: nat) ^ j)"
  proof cases
    case 3
    have "(2 :: nat) ^ Suc j < 2 ^ 64" using 3 by (intro power_strict_increasing) simp_all
    then have "i * 2 mod 2 ^ 64 = 2 ^ Suc j" using 3 by (simp add: mult.commute)
    moreover have "Suc j \<le> 63" using 3 by simp
    ultimately show ?thesis by blast
  qed simp_all
qed

lemma ncap_loop_some:
  assumes "ncap_loop cap i = Some r" "i = 0 \<or> (\<exists>j\<le>63. i = 2 ^ j)"
  shows "cap \<le> r \<and> r \<le> 2 ^ 63"
proof -
  define P :: "nat \<Rightarrow> nat \<Rightarrow> nat \<Rightarrow> bool"
    where "P cap i r \<longleftrightarrow> (i = 0 \<or> (\<exists>j\<le>63. i = 2 ^ j) \<longrightarrow> cap \<le> r \<and> r \<le> 2 ^ 63)" for cap i r
  have "P cap i r"
  proof (rule ncap_loop.raw_induct [of P, OF _ assms(1)])
    fix f :: "nat \<Rightarrow> nat \<Rightarrow> nat option" and cap i r :: nat
    assume IH: "\<And>cap i r. f cap i = Some r \<Longrightarrow> P cap i r"
      and eq: "(if i < cap then f cap (i * 2 mod 2 ^ 64) else Some i) = Some r"
    show "P cap i r"
    proof (cases "i < cap")
      case True
      then have "P cap (i * 2 mod 2 ^ 64) r" using IH eq by (simp only: if_True)
      then show ?thesis using pow2_double(2) [of i] unfolding P_def by blast
    next
      case False
      then have "r = i" using eq by simp
      then show ?thesis using False pow2_double(1) [of i] unfolding P_def by (simp only: not_less) blast
    qed
  qed
  then show ?thesis using assms(2) unfolding P_def by blast
qed

lemma bucketsz_loop_returns: "\<exists>r. bucketsz_loop sz = Some r"
proof (induction "7 - (sz + 7) mod 8" arbitrary: sz rule: less_induct)
  case less
  have a: "x AND 7 = x mod 8" for x :: nat using and_mask_mod [of 8 3 x] by simp
  show ?case
  proof (cases "sz mod 8 = 0")
    case True
    then show ?thesis by (simp add: bucketsz_loop.simps [of sz] a)
  next
    case False
    define x where "x = (sz + 1) mod 2 ^ 64"
    have "x mod 8 = (sz + 1) mod 8" unfolding x_def by (rule mod_mod_cancel) simp
    then have "7 - (x + 7) mod 8 < 7 - (sz + 7) mod 8" using False by presburger
    then have "\<exists>r. bucketsz_loop x = Some r" by (rule less)
    then have "\<exists>r. bucketsz_loop ((sz + 1) mod 2 ^ 64) = Some r" by (simp only: x_def)
    then show ?thesis using False by (subst bucketsz_loop.simps) (simp only: a if_True simp_thms)
  qed
qed

section \<open>The contract with the caller and the invariant\<close>

text \<open>What \<open>hashmap.c\<close> asks of the \<open>hash\<close> and \<open>compare\<close> callbacks: comparing equal is an
  equivalence, and items that compare equal have equal hashes.\<close>

locale hash_contract =
  fixes hash :: "'a \<Rightarrow> u64 \<Rightarrow> u64 \<Rightarrow> u64" and compare :: "'a \<Rightarrow> 'a \<Rightarrow> int"
  assumes compare_refl: "compare a a = 0"
    and compare_sym: "compare a b = 0 \<Longrightarrow> compare b a = 0"
    and compare_trans: "compare a b = 0 \<Longrightarrow> compare b c = 0 \<Longrightarrow> compare a c = 0"
    and hash_compare: "compare a b = 0 \<Longrightarrow> hash a s0 s1 = hash b s0 s1"

definition hm_inv :: "'a hashmap \<Rightarrow> bool" where
  "hm_inv m \<longleftrightarrow>
     (\<exists>k\<ge>4. k \<le> 63 \<and> hm_nbuckets m = 2 ^ k) \<and> (\<exists>c\<ge>4. hm_cap m = 2 ^ c) \<and> hm_cap m \<le> hm_nbuckets m \<and>
     hm_mask m = hm_nbuckets m - 1 \<and> table_inv (hm_nbuckets m) (hm_buckets m) \<and>
     hm_count m = size (bag (hm_buckets m)) \<and> hm_count m \<le> hm_growat m \<and>
     (hm_growat m = mul_060 (hm_nbuckets m) \<or> hm_growat m = mul_075 (hm_nbuckets m)) \<and>
     hm_shrinkat m = mul_010 (hm_nbuckets m) \<and> 1 \<le> hm_growpower m \<and> hm_growpower m \<le> 16 \<and>
     (\<forall>x\<in>#bag (hm_buckets m). fst x = get_hash m (snd x)) \<and>
     indep (hm_compare m) (bag (hm_buckets m))"

definition hm_lookup :: "'a hashmap \<Rightarrow> 'a \<Rightarrow> 'a option" where
  "hm_lookup m key =
     map_option bk_item (find (\<lambda>b. 0 < bk_dib b \<and> same_item (hm_compare m) key (bk_item b)) (hm_buckets m))"

lemma mul_060_bounds:
  assumes "0 < n"
  shows "n div 2 \<le> mul_060 n" and "mul_060 n < n"
proof -
  have "n * 2 ^ 52 div 2 ^ 53 = n div 2" using div_mult_mult2 [of "2 ^ 52 :: nat" n 2] by simp
  moreover have "n * 2 ^ 52 \<le> n * 5404319552844595" by (intro mult_le_mono2) simp
  ultimately show "n div 2 \<le> mul_060 n" unfolding mul_060_def by (metis div_le_mono)
  have "n * 5404319552844595 < n * 2 ^ 53" using assms by simp
  then show "mul_060 n < n" unfolding mul_060_def by (simp add: div_less_iff_less_mult)
qed

lemma mul_075_bounds: "0 < n \<Longrightarrow> n div 2 \<le> mul_075 n" "0 < n \<Longrightarrow> mul_075 n < n"
  by (auto simp: mul_075_def)

lemma mul_010_bound: "mul_010 n \<le> n div 8"
proof -
  have "n * 2 ^ 53 div 2 ^ 56 = n div 8" using div_mult_mult2 [of "2 ^ 53 :: nat" n 8] by simp
  moreover have "n * 7205759403792794 \<le> n * 2 ^ 53" by (intro mult_le_mono2) simp
  ultimately show ?thesis unfolding mul_010_def by (metis div_le_mono)
qed

lemma growat_bounds:
  assumes "hm_inv m"
  shows "hm_growat m < hm_nbuckets m" "hm_nbuckets m div 2 \<le> hm_growat m"
proof -
  have "0 < hm_nbuckets m" using assms by (auto simp: hm_inv_def)
  then show "hm_growat m < hm_nbuckets m" "hm_nbuckets m div 2 \<le> hm_growat m"
    using assms mul_060_bounds mul_075_bounds unfolding hm_inv_def by metis+
qed

lemma hm_count_less: "hm_inv m \<Longrightarrow> hm_count m < hm_nbuckets m"
  using growat_bounds(1) [of m] by (simp add: hm_inv_def)

lemma new_pow2:
  assumes "cap = 2 ^ k" "4 \<le> k" "k \<le> 63"
  shows "\<exists>bsz. hashmap_new_with_allocator mok el cap s0 s1 h c ef z =
    (if mok ((168 + bsz * 2) mod 2 ^ 64) \<and> mok (bsz * cap mod 2 ^ 64)
     then Some (Some (new_map el cap bsz s0 s1 h c ef z)) else Some None)"
proof -
  obtain bsz where bsz: "bucketsz_loop ((8 + el) mod 2 ^ 64) = Some bsz"
    using bucketsz_loop_returns by blast
  have "ncap_loop (2 ^ k) (2 ^ 4) = Some (2 ^ k)" using assms by (intro ncap_loop_pow) auto
  moreover have "(2 :: nat) ^ 4 \<le> 2 ^ k" using assms by (intro power_increasing) auto
  ultimately have "(if cap < 16 then Some 16 else ncap_loop cap 16) = Some cap" using assms(1) by simp
  then show ?thesis
    by (intro exI [of _ bsz]) (simp only: hashmap_new_with_allocator_def bsz bind.simps if_splits, auto)
qed

lemma resize_ok:
  assumes inv: "hm_inv m" and new: "new = 2 ^ k" "4 \<le> k" "k \<le> 63"
    and sz: "hm_count m < new" "hm_count m + 2 < 65536"
  shows "\<exists>ok bs. resize mok m new = Some (ok, if ok then m\<lparr>hm_buckets := bs, hm_nbuckets := new,
      hm_mask := new - 1, hm_growat := mul_060 new, hm_shrinkat := mul_010 new\<rparr> else m) \<and>
      ((\<forall>s. mok s) \<longrightarrow> ok) \<and> table_inv new bs \<and> bag bs = bag (hm_buckets m)"
proof -
  have n2: "2 \<le> new" using power_increasing [of 1 k "2 :: nat"] new by simp
  have c: "hm_count m = size (bag (hm_buckets m))" using inv by (simp add: hm_inv_def)
  have "\<exists>bs. resize_move (new - 1) (hm_buckets m) (replicate new (empty_bucket (hm_zero m))) = Some bs \<and>
      table_inv new bs \<and> bag bs = bag (hm_buckets m) + bag (replicate new (empty_bucket (hm_zero m)))"
    using sz c n2 by (intro resize_move_ok [OF new(1)]) auto
  then obtain bs where bs:
    "resize_move (new - 1) (hm_buckets m) (replicate new (empty_bucket (hm_zero m))) = Some bs"
    "table_inv new bs" "bag bs = bag (hm_buckets m)" by auto
  let ?new = "hashmap_new_with_allocator mok (hm_elsize m) new (hm_seed0 m) (hm_seed1 m)
      (hm_hash m) (hm_compare m) (hm_elfree m) (hm_zero m)"
  obtain bsz where nw: "?new = (if mok ((168 + bsz * 2) mod 2 ^ 64) \<and> mok (bsz * new mod 2 ^ 64)
     then Some (Some (new_map (hm_elsize m) new bsz (hm_seed0 m) (hm_seed1 m)
      (hm_hash m) (hm_compare m) (hm_elfree m) (hm_zero m))) else Some None)"
    using new_pow2 [OF new, of mok "hm_elsize m" "hm_seed0 m" "hm_seed1 m" "hm_hash m"] by blast
  show ?thesis
  proof (intro exI conjI)
    show "resize mok m new = Some (mok ((168 + bsz * 2) mod 2 ^ 64) \<and> mok (bsz * new mod 2 ^ 64),
      if mok ((168 + bsz * 2) mod 2 ^ 64) \<and> mok (bsz * new mod 2 ^ 64) then m\<lparr>hm_buckets := bs, hm_nbuckets := new,
      hm_mask := new - 1, hm_growat := mul_060 new, hm_shrinkat := mul_010 new\<rparr> else m)"
      using bs(1) by (simp add: resize_def resize0_def nw new_map_def)
  qed (use bs in auto)
qed

context hash_contract
begin

lemma clash_hash: "clash (Some compare) x y \<longleftrightarrow> fst x = fst y \<and> compare (snd x) (snd y) = 0"
  by (simp add: clash_def)

lemma clash_sym: "clash (Some compare) x y \<Longrightarrow> clash (Some compare) y x"
  using compare_sym by (auto simp: clash_hash)

lemma clash_trans: "clash (Some compare) x y \<Longrightarrow> clash (Some compare) y z \<Longrightarrow> clash (Some compare) x z"
  using compare_trans by (auto simp: clash_hash)

lemma unique_match:
  assumes "indep (Some compare) (bag bs)" "p < length bs" "0 < bk_dib (bs ! p)" "bk_hash (bs ! p) = h"
    "compare x (bk_item (bs ! p)) = 0"
    and "i < length bs" "0 < bk_dib (bs ! i)" "bk_hash (bs ! i) = h" "compare x (bk_item (bs ! i)) = 0"
  shows "i = p"
proof (rule ccontr)
  assume "i \<noteq> p"
  then have "\<not> clash (Some compare) (kv (bs ! i)) (kv (bs ! p))" using assms by (intro indep_index) auto
  moreover have "compare (bk_item (bs ! i)) (bk_item (bs ! p)) = 0"
    using assms compare_sym compare_trans by blast
  ultimately show False using assms by (simp add: clash_def kv_def)
qed

lemma set_table:
  assumes n: "n = 2 ^ k" "2 \<le> n" and inv: "table_inv n bs" and sz: "size (bag bs) < n" "size (bag bs) + 2 < 65536"
    and ind: "indep (Some compare) (bag bs)"
  obtains bs' old where
    "set_loop (Some compare) (n - 1) \<lparr>bk_hash = h, bk_dib = 1, bk_item = x\<rparr> (unat h mod n) bs = Some (bs', old)"
    "table_inv n bs'"
    "old = None \<longrightarrow> (\<forall>y\<in>#bag bs. \<not> clash (Some compare) (h, x) y) \<and> bag bs' = add_mset (h, x) (bag bs)"
    "\<forall>y. old = Some y \<longrightarrow> compare x y = 0 \<and> (\<exists>R. bag bs = add_mset (h, y) R \<and> bag bs' = add_mset (h, x) R)"
proof (cases "\<exists>y\<in>#bag bs. clash (Some compare) (h, x) y")
  case True
  obtain q where q: "q < n" "bk_dib (bs ! q) = 0" using table_empty_bucket [OF inv sz(1)] .
  have len: "length bs = n" using inv by (simp add: table_inv_def)
  from True obtain p where p: "p < n" "0 < bk_dib (bs ! p)" "bk_hash (bs ! p) = h" "compare x (bk_item (bs ! p)) = 0"
    using len by (metis bag_clash_index)
  have u: "i = p" if "i < n" "0 < bk_dib (bs ! i)" "bk_hash (bs ! i) = h"
      "same_item (Some compare) x (bk_item (bs ! i))" for i
    using that len by (intro unique_match [OF ind _ p(2,3,4)]) (simp_all add: p(1))
  let ?bs = "bs[p := (bs ! p)\<lparr>bk_item := x\<rparr>]"
  have "bk_dib (bs ! p) < 65536" using table_dib_bound [OF inv p(1) q] sz(2) by simp
  then have "set_loop (Some compare) (n - 1) \<lparr>bk_hash = h, bk_dib = Suc 0, bk_item = x\<rparr> ((unat h + 0) mod n) bs =
      Some (?bs, Some (bk_item (bs ! p)))"
    using p by (intro set_loop_replace [OF n(1) inv p(1,3) _ u]) simp_all
  moreover have "bag ?bs + {#(h, bk_item (bs ! p))#} = bag bs + {#(h, x)#}"
    using bag_update [of p bs "(bs ! p)\<lparr>bk_item := x\<rparr>"] p len by (simp add: kvs_def kv_def)
  moreover have "(h, bk_item (bs ! p)) \<in># bag bs"
    using bag_nth [of p bs] p len by (simp add: kv_def)
  then obtain R where R: "bag bs = add_mset (h, bk_item (bs ! p)) R" by (meson mset_add)
  ultimately show ?thesis
    using that [of ?bs "Some (bk_item (bs ! p))"] table_inv_item [OF inv] p(4) by auto
next
  case False
  let ?e = "\<lparr>bk_hash = h, bk_dib = 1, bk_item = x\<rparr>"
  have kve: "kv ?e = (h, x)" by (simp add: kv_def)
  obtain q where q: "q < n" "bk_dib (bs ! q) = 0" using table_empty_bucket [OF inv sz(1)] .
  obtain t where t: "(unat h mod n + t) mod n = q" using mod_reach [OF q(1)] by blast
  have "indep (Some compare) (add_mset (kv ?e) (bag bs))"
    unfolding indep_add kve using False ind clash_sym by blast
  moreover have "carried n bs ?e (unat h mod n)" using carried_home [of n ?e bs] n by simp
  ultimately have "set_loop (Some compare) (n - 1) ?e (unat h mod n) bs =
      map_option (\<lambda>bs. (bs, None)) (reinsert (n - 1) ?e (unat h mod n) bs)"
    using t q by (intro set_loop_fresh [OF n inv _ _ sz(2)]) auto
  moreover obtain bs' where "reinsert (n - 1) ?e (unat h mod n) bs = Some bs'" "table_inv n bs'"
      "bag bs' = add_mset (h, x) (bag bs)"
    using reinsert_home [OF n inv _ sz, of ?e] kve by auto
  ultimately show ?thesis using that [of bs' None] False by simp
qed

lemma get_table:
  assumes n: "n = 2 ^ k" and inv: "table_inv n bs" and sz: "size (bag bs) < n"
    and ind: "indep (Some compare) (bag bs)"
  obtains (absent) "get_loop (Some compare) (n - 1) key h (unat h mod n) bs = Some None"
      "\<forall>y\<in>#bag bs. \<not> clash (Some compare) (h, key) y"
    | (found) p where "get_loop (Some compare) (n - 1) key h (unat h mod n) bs = Some (Some p)"
      "p < n" "0 < bk_dib (bs ! p)" "bk_hash (bs ! p) = h" "compare key (bk_item (bs ! p)) = 0"
proof (cases "\<exists>y\<in>#bag bs. clash (Some compare) (h, key) y")
  case True
  have len: "length bs = n" using inv by (simp add: table_inv_def)
  from True obtain p where p: "p < n" "0 < bk_dib (bs ! p)" "bk_hash (bs ! p) = h" "compare key (bk_item (bs ! p)) = 0"
    using len by (metis bag_clash_index)
  have u: "i = p" if "i < n" "0 < bk_dib (bs ! i)" "bk_hash (bs ! i) = h"
      "same_item (Some compare) key (bk_item (bs ! i))" for i
    using that len by (intro unique_match [OF ind _ p(2,3,4)]) (simp_all add: p(1))
  have "get_loop (Some compare) (n - 1) key h ((unat h + 0) mod n) bs = Some (Some p)"
    using p by (intro get_loop_found [OF n inv p(1,3) _ u]) simp_all
  then show ?thesis using found [of p] p by simp
next
  case False
  obtain q where q: "q < n" "bk_dib (bs ! q) = 0" using table_empty_bucket [OF inv sz] .
  obtain t where t: "(unat h mod n + t) mod n = q" using mod_reach [OF q(1)] by blast
  have "get_loop (Some compare) (n - 1) key h (unat h mod n) bs = Some None"
    using False t q inv by (intro get_loop_none [OF n]) (auto simp: table_inv_def clash_def)
  then show ?thesis using absent False by blast
qed

end


definition hm_ok :: "('a \<Rightarrow> u64 \<Rightarrow> u64 \<Rightarrow> u64) \<Rightarrow> ('a \<Rightarrow> 'a \<Rightarrow> int) \<Rightarrow> 'a hashmap \<Rightarrow> bool" where
  "hm_ok hash compare m \<longleftrightarrow> hm_inv m \<and> hm_hash m = hash \<and> hm_compare m = Some compare"

lemma clip_hash_idem [simp]: "clip_hash (clip_hash h) = clip_hash h"
  by (simp add: clip_hash_def and.assoc)

lemma get_hash_oom [simp]: "get_hash (m\<lparr>hm_oom := b\<rparr>) = get_hash m"
  by (simp add: get_hash_def fun_eq_iff)

lemma hm_inv_oom [simp]: "hm_inv (m\<lparr>hm_oom := b\<rparr>) = hm_inv m"
  by (simp add: hm_inv_def)

lemma hm_lookup_oom [simp]: "hm_lookup (m\<lparr>hm_oom := b\<rparr>) = hm_lookup m"
  by (simp add: hm_lookup_def fun_eq_iff)

lemma hm_inv_D:
  assumes "hm_inv m"
  obtains k where "4 \<le> k" "hm_nbuckets m = 2 ^ k" "2 \<le> hm_nbuckets m" "k \<le> 63"
    "table_inv (hm_nbuckets m) (hm_buckets m)" "hm_count m = size (bag (hm_buckets m))"
    "indep (hm_compare m) (bag (hm_buckets m))" "\<And>x. x \<in># bag (hm_buckets m) \<Longrightarrow> fst x = get_hash m (snd x)"
    "hm_mask m = hm_nbuckets m - 1"
proof -
  from assms obtain k where k: "4 \<le> k" "hm_nbuckets m = 2 ^ k" "k \<le> 63" by (auto simp: hm_inv_def)
  moreover have "2 \<le> hm_nbuckets m" using k power_increasing [of 1 k "2 :: nat"] by simp
  ultimately show ?thesis using that assms unfolding hm_inv_def by blast
qed

text \<open>Growing before an insertion: either the allocator failed and nothing
  changed, or there is room for one more item.\<close>

lemma hm_inv_resized:
  assumes inv: "hm_inv m" and new: "new = 2 ^ k" "4 \<le> k" "k \<le> 63" "hm_cap m \<le> new" "hm_count m \<le> mul_060 new"
    and bs: "table_inv new bs" "bag bs = bag (hm_buckets m)"
  shows "hm_inv (m\<lparr>hm_buckets := bs, hm_nbuckets := new, hm_mask := new - 1,
    hm_growat := mul_060 new, hm_shrinkat := mul_010 new\<rparr>)"
  using assms unfolding hm_inv_def by (auto simp: get_hash_def)

lemma grow_stage:
  assumes inv: "hm_inv m" and sz: "hm_count m + 2 < 65536"
  obtains ok m1 where
    "(if hm_count m = hm_growat m then resize mok m (hm_nbuckets m * 2 ^ hm_growpower m mod 2 ^ 64)
      else Some (True, m)) = Some (ok, m1)"
    "\<not> ok \<longrightarrow> m1 = m \<and> hm_count m = hm_growat m \<and> \<not> (\<forall>s. mok s)"
    "ok \<longrightarrow> hm_inv m1 \<and> hm_count m1 < hm_growat m1 \<and> bag (hm_buckets m1) = bag (hm_buckets m) \<and>
       hm_count m1 = hm_count m \<and> hm_oom m1 = hm_oom m \<and> hm_hash m1 = hm_hash m \<and>
       hm_compare m1 = hm_compare m \<and> get_hash m1 = get_hash m"
proof (cases "hm_count m = hm_growat m")
  case False
  then show ?thesis using that [of True m] inv by (auto simp: hm_inv_def)
next
  case True
  obtain k where k: "4 \<le> k" "hm_nbuckets m = 2 ^ k" using inv by (rule hm_inv_D)
  have gp: "1 \<le> hm_growpower m" "hm_growpower m \<le> 16" using inv by (auto simp: hm_inv_def)
  have "hm_nbuckets m div 2 < 65536" using growat_bounds(2) [OF inv] True sz by simp
  then have "(2 :: nat) ^ k < 2 ^ 17" using k by simp
  then have k17: "k < 17" using power_strict_increasing_iff [of "2 :: nat" k 17] by simp
  let ?new = "hm_nbuckets m * 2 ^ hm_growpower m"
  have new: "?new = 2 ^ (k + hm_growpower m)" using k by (simp add: power_add)
  have "?new < 2 ^ 64" unfolding new using k17 gp by (intro power_strict_increasing) auto
  then have md: "?new mod 2 ^ 64 = ?new" by (rule mod_less)
  have n2: "2 * hm_nbuckets m \<le> ?new" using power_increasing [OF gp(1), of "2 :: nat"] by simp
  have "hm_nbuckets m \<le> ?new div 2" using n2 by linarith
  then have room: "hm_count m < mul_060 ?new"
    using growat_bounds(1) [OF inv] True mul_060_bounds(1) [of ?new] k by simp
  have lt: "hm_count m < ?new" using hm_count_less [OF inv] n2 by linarith
  have kk: "4 \<le> k + hm_growpower m" "k + hm_growpower m \<le> 63" using k17 gp k(1) by simp_all
  obtain ok bs where r: "resize mok m ?new = Some (ok, if ok then m\<lparr>hm_buckets := bs, hm_nbuckets := ?new,
      hm_mask := ?new - 1, hm_growat := mul_060 ?new, hm_shrinkat := mul_010 ?new\<rparr> else m)"
      "(\<forall>s. mok s) \<longrightarrow> ok" "table_inv ?new bs" "bag bs = bag (hm_buckets m)"
    using resize_ok [OF inv new kk lt sz, of mok] by blast
  have "hm_cap m \<le> hm_nbuckets m" using inv by (simp add: hm_inv_def)
  then have cap: "hm_cap m \<le> ?new" using n2 by linarith
  let ?m = "m\<lparr>hm_buckets := bs, hm_nbuckets := ?new, hm_mask := ?new - 1,
      hm_growat := mul_060 ?new, hm_shrinkat := mul_010 ?new\<rparr>"
  have i': "hm_inv ?m"
    using less_imp_le [OF room] by (rule hm_inv_resized [OF inv new kk cap _ r(3,4)])
  show ?thesis
  proof (rule that [of ok "if ok then ?m else m"])
    show "(if hm_count m = hm_growat m then resize mok m (?new mod 2 ^ 64) else Some (True, m)) =
        Some (ok, if ok then ?m else m)"
      unfolding md using True r(1) by simp
  qed (use i' room r True in \<open>auto simp: get_hash_def fun_eq_iff\<close>)
qed


context hash_contract
begin

lemma hm_ok_D:
  assumes "hm_ok hash compare m"
  shows "hm_inv m" "indep (Some compare) (bag (hm_buckets m))"
    "x \<in># bag (hm_buckets m) \<Longrightarrow> fst x = get_hash m (snd x)" "hm_hash m = hash" "hm_compare m = Some compare"
  using assms by (auto simp: hm_ok_def hm_inv_def)

lemma lookup_iff:
  assumes "hm_ok hash compare m"
  shows "hm_lookup m k = Some v \<longleftrightarrow> (\<exists>h. (h, v) \<in># bag (hm_buckets m) \<and> compare k v = 0)"
proof
  assume "hm_lookup m k = Some v"
  then obtain i where "i < length (hm_buckets m)" "0 < bk_dib (hm_buckets m ! i)"
      "v = bk_item (hm_buckets m ! i)" "compare k v = 0"
    using assms by (auto simp: hm_lookup_def hm_ok_def find_Some_iff)
  then show "\<exists>h. (h, v) \<in># bag (hm_buckets m) \<and> compare k v = 0"
    using bag_nth [of i "hm_buckets m"] by (auto simp: kv_def)
next
  assume "\<exists>h. (h, v) \<in># bag (hm_buckets m) \<and> compare k v = 0"
  then obtain h i where i: "i < length (hm_buckets m)" "0 < bk_dib (hm_buckets m ! i)"
      "kv (hm_buckets m ! i) = (h, v)" and k: "compare k v = 0"
    by (metis bag_member)
  let ?P = "\<lambda>b. 0 < bk_dib b \<and> same_item (hm_compare m) k (bk_item b)"
  have "?P (hm_buckets m ! i)" using i k assms by (simp add: kv_def hm_ok_def)
  then obtain b where b: "find ?P (hm_buckets m) = Some b"
    using i(1) by (metis (no_types, lifting) find_None_iff nth_mem option.exhaust)
  then obtain j where j: "j < length (hm_buckets m)" "0 < bk_dib b" "compare k (bk_item b) = 0" "b = hm_buckets m ! j"
    using assms by (auto simp: find_Some_iff hm_ok_def)
  have ind: "indep (Some compare) (bag (hm_buckets m))" and hs: "\<And>x. x \<in># bag (hm_buckets m) \<Longrightarrow> fst x = get_hash m (snd x)"
    using assms by (auto simp: hm_ok_def hm_inv_def)
  have "get_hash m (bk_item b) = get_hash m v"
    using hash_compare compare_trans [OF compare_sym [OF j(3)] k] assms by (simp add: get_hash_def hm_ok_def)
  then have "bk_hash b = bk_hash (hm_buckets m ! i)"
    using hs [OF bag_nth [OF i(1,2)]] hs [OF bag_nth [OF j(1)]] j i(3) by (simp add: kv_def)
  then have "j = i"
    using i j k by (intro unique_match [OF ind i(1,2) refl, of k]) (simp_all add: kv_def)
  then show "hm_lookup m k = Some v" using b j i by (simp add: hm_lookup_def kv_def)
qed

lemma lookup_after_set:
  assumes m: "hm_ok hash compare m" and m': "hm_ok hash compare m'"
    and b': "bag (hm_buckets m') = add_mset (h, x) R"
    and b: "bag (hm_buckets m) = R \<or> (\<exists>y. compare x y = 0 \<and> bag (hm_buckets m) = add_mset (h, y) R)"
  shows "hm_lookup m' k = (if compare k x = 0 then Some x else hm_lookup m k)"
proof (rule option_eqI)
  fix v
  have all: "\<forall>y\<in>#add_mset (h, x) R. fst y = get_hash m' (snd y)" "indep (Some compare) (add_mset (h, x) R)"
    using hm_ok_D(2,3) [OF m'] unfolding b' by auto
  then have h: "h = get_hash m' x" and hs: "\<And>g y. (g, y) \<in># R \<Longrightarrow> g = get_hash m' y" by auto
  have ind: "\<And>y. y \<in># R \<Longrightarrow> \<not> clash (Some compare) (h, x) y" using all(2) by (simp add: indep_add)
  show "hm_lookup m' k = Some v \<longleftrightarrow> (if compare k x = 0 then Some x else hm_lookup m k) = Some v"
  proof (cases "compare k x = 0")
    case True
    have "\<not> (g, v) \<in># R" if "compare k v = 0" for g
    proof
      assume r: "(g, v) \<in># R"
      have "compare x v = 0" using that True compare_sym compare_trans by blast
      moreover have "g = h" using hs [OF r] h hash_compare [OF \<open>compare x v = 0\<close>] m'
        by (simp add: get_hash_def hm_ok_def)
      ultimately show False using ind [OF r] by (simp add: clash_def)
    qed
    then show ?thesis using True lookup_iff [OF m', of k v] b' by auto
  next
    case False
    then have "(\<exists>g. (g, v) \<in># bag (hm_buckets m') \<and> compare k v = 0) \<longleftrightarrow> (\<exists>g. (g, v) \<in># R \<and> compare k v = 0)"
      using b' by auto
    also have "\<dots> \<longleftrightarrow> (\<exists>g. (g, v) \<in># bag (hm_buckets m) \<and> compare k v = 0)"
      using b
    proof (elim disjE exE conjE)
      fix y assume y: "compare x y = 0" "bag (hm_buckets m) = add_mset (h, y) R"
      have "compare k y \<noteq> 0" using False compare_trans compare_sym [OF y(1)] by blast
      then show ?thesis using y(2) by auto
    qed simp
    finally show ?thesis using False lookup_iff [OF m', of k v] lookup_iff [OF m, of k v] by simp
  qed
qed

lemma lookup_after_delete:
  assumes m: "hm_ok hash compare m" and m': "hm_ok hash compare m'"
    and b: "bag (hm_buckets m) = add_mset (h, y) (bag (hm_buckets m'))" and y: "compare x y = 0"
  shows "hm_lookup m' k = (if compare k x = 0 then None else hm_lookup m k)"
proof (rule option_eqI)
  fix v
  have hs: "\<And>g z. (g, z) \<in># bag (hm_buckets m) \<Longrightarrow> g = get_hash m z"
    and ind: "\<And>z. z \<in># bag (hm_buckets m') \<Longrightarrow> \<not> clash (Some compare) (h, y) z"
    using m b by (force simp: hm_ok_def hm_inv_def indep_add)+
  show "hm_lookup m' k = Some v \<longleftrightarrow> (if compare k x = 0 then None else hm_lookup m k) = Some v"
  proof (cases "compare k x = 0")
    case True
    have "\<not> (g, v) \<in># bag (hm_buckets m')" if "compare k v = 0" for g
    proof
      assume r: "(g, v) \<in># bag (hm_buckets m')"
      have yv: "compare y v = 0" using that True y compare_sym compare_trans by metis
      have "g = get_hash m v" "h = get_hash m y" using hs r b by auto
      then have "g = h" using hash_compare [OF yv] m by (simp add: get_hash_def hm_ok_def)
      then show False using ind [OF r] yv by (simp add: clash_def)
    qed
    then show ?thesis using True lookup_iff [OF m', of k v] by auto
  next
    case False
    then have "compare k y \<noteq> 0" using y compare_sym compare_trans by blast
    then show ?thesis using False lookup_iff [OF m', of k v] lookup_iff [OF m, of k v] b by auto
  qed
qed


theorem get_spec:
  assumes ok: "hm_ok hash compare m"
  shows "hashmap_get m key = Some (hm_lookup m key)"
proof -
  note D = hm_ok_D [OF ok]
  obtain k where k: "hm_nbuckets m = 2 ^ k" "table_inv (hm_nbuckets m) (hm_buckets m)"
    "hm_mask m = hm_nbuckets m - 1" "hm_count m = size (bag (hm_buckets m))"
    using D(1) by (rule hm_inv_D)
  let ?h = "get_hash m key" and ?bs = "hm_buckets m"
  have h [simp]: "clip_hash ?h = ?h" by (simp add: get_hash_def)
  have sz: "size (bag ?bs) < hm_nbuckets m" using hm_count_less [OF D(1)] k(4) by simp
  have get: "hashmap_get m key =
      map_option (map_option (\<lambda>i. bk_item (?bs ! i)))
        (get_loop (Some compare) (hm_nbuckets m - 1) key ?h (unat ?h mod hm_nbuckets m) ?bs)"
    by (simp add: hashmap_get_def hashmap_get_with_hash_def k(3) D(5) and_mask_mod [OF k(1)] bind_Some_map Let_def)
  show ?thesis
  proof (cases rule: get_table [OF k(1,2) sz D(2), of key ?h])
    case 1
    have "hm_lookup m key = None"
    proof (rule ccontr)
      assume "hm_lookup m key \<noteq> None"
      then obtain v h where v: "(h, v) \<in># bag ?bs" "compare key v = 0" using lookup_iff [OF ok] by blast
      then have "h = ?h" using D(3) [OF v(1)] hash_compare [OF v(2)] D(4) by (simp add: get_hash_def)
      then show False using 1(2) v by (auto simp: clash_def)
    qed
    then show ?thesis using 1 get by simp
  next
    case (2 p)
    have "(?h, bk_item (?bs ! p)) \<in># bag ?bs"
      using bag_nth [of p ?bs] 2 k(2) by (simp add: kv_def table_inv_def)
    then have "hm_lookup m key = Some (bk_item (?bs ! p))" using lookup_iff [OF ok] 2 by blast
    then show ?thesis using 2 get by simp
  qed
qed

lemma stored_inv:
  assumes ok: "hm_inv m1" "hm_hash m1 = hash" "hm_compare m1 = Some compare" and lt: "hm_count m1 < hm_growat m1"
    and bs: "table_inv (hm_nbuckets m1) bs" and h: "h = get_hash m1 x"
    and new: "old = None \<Longrightarrow> (\<forall>y\<in>#bag (hm_buckets m1). \<not> clash (Some compare) (h, x) y) \<and>
        bag bs = add_mset (h, x) (bag (hm_buckets m1))"
    and repl: "\<And>y. old = Some y \<Longrightarrow> compare x y = 0 \<and>
        (\<exists>R. bag (hm_buckets m1) = add_mset (h, y) R \<and> bag bs = add_mset (h, x) R)"
  shows "hm_ok hash compare (m1\<lparr>hm_buckets := bs, hm_count := hm_count m1 + (if old = None then 1 else 0)\<rparr>)"
proof -
  obtain R where R: "bag bs = add_mset (h, x) R" "R \<subseteq># bag (hm_buckets m1)"
    "size (bag bs) = hm_count m1 + (if old = None then 1 else 0)"
    "\<forall>y\<in>#R. \<not> clash (Some compare) (h, x) y"
  proof (cases old)
    case None
    then show ?thesis using that new ok by (simp add: hm_inv_def)
  next
    case (Some y)
    then obtain R where r: "compare x y = 0" "bag (hm_buckets m1) = add_mset (h, y) R" "bag bs = add_mset (h, x) R"
      using repl by blast
    have "indep (Some compare) (add_mset (h, y) R)" using ok r(2) unfolding hm_inv_def by metis
    then have "\<forall>z\<in>#R. \<not> clash (Some compare) (h, y) z" by (simp add: indep_add)
    moreover have "clash (Some compare) (h, y) (h, x)" using compare_sym [OF r(1)] by (simp add: clash_def)
    ultimately have "\<forall>z\<in>#R. \<not> clash (Some compare) (h, x) z" using clash_trans by blast
    then show ?thesis using that r ok Some by (simp add: hm_inv_def)
  qed
  have "indep (Some compare) R" using indep_mono [OF _ R(2)] ok by (simp add: hm_inv_def)
  then have "indep (Some compare) (bag bs)" unfolding R(1) indep_add using R(4) clash_sym by blast
  moreover have "\<forall>y\<in>#bag bs. fst y = get_hash m1 (snd y)"
    using R(1,2) ok h by (auto simp: hm_inv_def dest: mset_subset_eqD)
  ultimately show ?thesis
    using ok bs lt R(3) unfolding hm_ok_def hm_inv_def by (simp add: get_hash_def)
qed

theorem set_spec:
  assumes ok: "hm_ok hash compare m" and sz: "hm_count m + 2 < 65536"
  obtains (oom) "hashmap_set mok m x = Some (m\<lparr>hm_oom := True\<rparr>, None)"
      "hm_count m = hm_growat m" "\<not> (\<forall>s. mok s)"
    | (stored) m' where "hashmap_set mok m x = Some (m', hm_lookup m x)" "hm_ok hash compare m'" "\<not> hm_oom m'"
      "\<And>k. hm_lookup m' k = (if compare k x = 0 then Some x else hm_lookup m k)"
      "hm_count m' = hm_count m + (if hm_lookup m x = None then 1 else 0)"
proof -
  note D = hm_ok_D [OF ok]
  let ?m = "m\<lparr>hm_oom := False\<rparr>" and ?h = "get_hash m x"
  have h [simp]: "clip_hash ?h = ?h" by (simp add: get_hash_def)
  have inv0: "hm_inv ?m" and sz0: "hm_count ?m + 2 < 65536" using D(1) sz by simp_all
  obtain gok m1 where g: "(if hm_count ?m = hm_growat ?m then resize mok ?m (hm_nbuckets ?m * 2 ^ hm_growpower ?m mod 2 ^ 64)
      else Some (True, ?m)) = Some (gok, m1)"
    "\<not> gok \<longrightarrow> m1 = ?m \<and> hm_count ?m = hm_growat ?m \<and> \<not> (\<forall>s. mok s)"
    "gok \<longrightarrow> hm_inv m1 \<and> hm_count m1 < hm_growat m1 \<and> bag (hm_buckets m1) = bag (hm_buckets ?m) \<and>
       hm_count m1 = hm_count ?m \<and> hm_oom m1 = hm_oom ?m \<and> hm_hash m1 = hm_hash ?m \<and>
       hm_compare m1 = hm_compare ?m \<and> get_hash m1 = get_hash ?m"
    using grow_stage [OF inv0 sz0, of mok] by blast
  show ?thesis
  proof (cases gok)
    case False
    then show ?thesis
      using oom g unfolding hashmap_set_def hashmap_set_with_hash_def by (simp only: h Let_def) simp
  next
    case True
    then have m1: "hm_inv m1" "hm_hash m1 = hash" "hm_compare m1 = Some compare" "hm_count m1 < hm_growat m1"
      "bag (hm_buckets m1) = bag (hm_buckets m)" "get_hash m1 = get_hash m" "hm_count m1 = hm_count m" "\<not> hm_oom m1"
      using g(3) D by simp_all
    obtain k where k: "4 \<le> k" "hm_nbuckets m1 = 2 ^ k" "2 \<le> hm_nbuckets m1" "table_inv (hm_nbuckets m1) (hm_buckets m1)"
      "hm_count m1 = size (bag (hm_buckets m1))" "indep (hm_compare m1) (bag (hm_buckets m1))"
      "hm_mask m1 = hm_nbuckets m1 - 1"
      using m1(1) by (rule hm_inv_D)
    have s: "size (bag (hm_buckets m1)) < hm_nbuckets m1" "size (bag (hm_buckets m1)) + 2 < 65536"
      using hm_count_less [OF m1(1)] k(5) m1(7) sz by simp_all
    have ind: "indep (Some compare) (bag (hm_buckets m1))" using k(6) m1(3) by simp
    obtain bs old where t: "set_loop (Some compare) (hm_nbuckets m1 - 1) \<lparr>bk_hash = ?h, bk_dib = 1, bk_item = x\<rparr>
          (unat ?h mod hm_nbuckets m1) (hm_buckets m1) = Some (bs, old)" "table_inv (hm_nbuckets m1) bs"
      "old = None \<longrightarrow> (\<forall>y\<in>#bag (hm_buckets m1). \<not> clash (Some compare) (?h, x) y) \<and>
         bag bs = add_mset (?h, x) (bag (hm_buckets m1))"
      "\<forall>y. old = Some y \<longrightarrow> compare x y = 0 \<and>
         (\<exists>R. bag (hm_buckets m1) = add_mset (?h, y) R \<and> bag bs = add_mset (?h, x) R)"
      using set_table [OF k(2-4) s ind, of ?h x] by blast
    let ?m' = "m1\<lparr>hm_buckets := bs, hm_count := hm_count m1 + (if old = None then 1 else 0)\<rparr>"
    have ok': "hm_ok hash compare ?m'"
      using t m1(6) by (intro stored_inv [OF m1(1-4) t(2), of ?h x old]) simp_all
    have set: "hashmap_set mok m x = Some (?m', old)"
      unfolding hashmap_set_def hashmap_set_with_hash_def
      using g(1) True t(1) by (simp add: h k(7) m1(3) and_mask_mod [OF k(2)])
    have old: "old = hm_lookup m x"
    proof (cases old)
      case None
      have "hm_lookup m x = None"
      proof (rule ccontr)
        assume "hm_lookup m x \<noteq> None"
        then obtain v g where v: "(g, v) \<in># bag (hm_buckets m)" "compare x v = 0" using lookup_iff [OF ok] by blast
        then have "g = ?h" using D(3) [OF v(1)] hash_compare [OF v(2)] D(4) by (simp add: get_hash_def)
        then show False using t(3) None v m1(5) by (auto simp: clash_def)
      qed
      then show ?thesis using None by simp
    next
      case (Some y)
      then show ?thesis using t(4) Some m1(5) lookup_iff [OF ok, of x y] by force
    qed
    have "hm_lookup ?m' k = (if compare k x = 0 then Some x else hm_lookup m k)" for k
    proof (cases old)
      case None
      then show ?thesis using t(3) None m1(5) by (intro lookup_after_set [OF ok ok', of ?h]) auto
    next
      case (Some y)
      then obtain R where "compare x y = 0" "bag (hm_buckets m) = add_mset (?h, y) R" "bag bs = add_mset (?h, x) R"
        using t(4) m1(5) by auto
      then show ?thesis by (intro lookup_after_set [OF ok ok', of ?h x R]) auto
    qed
    then show ?thesis using stored [OF set [unfolded old]] set ok' old m1(7,8) by simp
  qed
qed

lemma removed_inv:
  assumes ok: "hm_ok hash compare m" and bs: "table_inv (hm_nbuckets m) bs"
    and b: "bag (hm_buckets m) = add_mset z (bag bs)"
  shows "hm_ok hash compare (m\<lparr>hm_oom := False, hm_buckets := bs, hm_count := hm_count m - 1\<rparr>)"
proof -
  note D = hm_ok_D [OF ok]
  have "indep (Some compare) (bag bs)" using D(2) unfolding b by (simp add: indep_add)
  moreover have "\<forall>y\<in>#bag bs. fst y = get_hash m (snd y)" using D(3) unfolding b by simp
  moreover have "hm_count m - 1 = size (bag bs)" using D(1) b by (simp add: hm_inv_def)
  ultimately show ?thesis
    using D(1,4,5) bs unfolding hm_ok_def hm_inv_def by (auto simp: get_hash_def)
qed

lemma shrink_stage:
  assumes ok: "hm_ok hash compare m" and sz: "hm_count m + 2 < 65536"
  obtains rok m1 where
    "(if hm_nbuckets m > hm_cap m \<and> hm_count m \<le> hm_shrinkat m then resize mok m (hm_nbuckets m div 2)
      else Some (True, m)) = Some (rok, m1)"
    "hm_ok hash compare m1" "bag (hm_buckets m1) = bag (hm_buckets m)" "hm_count m1 = hm_count m" "hm_oom m1 = hm_oom m"
proof (cases "hm_nbuckets m > hm_cap m \<and> hm_count m \<le> hm_shrinkat m")
  case False
  show ?thesis by (rule that [of True m]) (use False ok in auto)
next
  case True
  note D = hm_ok_D [OF ok]
  obtain k where k: "4 \<le> k" "hm_nbuckets m = 2 ^ k" "k \<le> 63" using D(1) by (rule hm_inv_D)
  obtain c where c: "4 \<le> c" "hm_cap m = 2 ^ c" using D(1) by (auto simp: hm_inv_def)
  have ck: "c < k" using True k c power_strict_increasing_iff [of "2 :: nat" c k] by simp
  then obtain j where j: "k = Suc j" by (cases k) auto
  have new: "hm_nbuckets m div 2 = 2 ^ j" using k j by simp
  have j4: "4 \<le> j" "j \<le> 63" "c \<le> j" using ck c j k by simp_all
  have cap: "hm_cap m \<le> hm_nbuckets m div 2" unfolding new c using j4 by (intro power_increasing) auto
  have "hm_shrinkat m = mul_010 (hm_nbuckets m)" using D(1) by (simp add: hm_inv_def)
  then have "hm_count m \<le> hm_nbuckets m div 8" using True mul_010_bound [of "hm_nbuckets m"] by simp
  then have le4: "hm_count m \<le> hm_nbuckets m div 2 div 2" by linarith
  have pos: "0 < hm_nbuckets m div 2" unfolding new by simp
  have lt: "hm_count m < hm_nbuckets m div 2" using le4 pos by linarith
  have room: "hm_count m \<le> mul_060 (hm_nbuckets m div 2)" using le4 mul_060_bounds(1) [OF pos] by linarith
  obtain rok bs where r: "resize mok m (hm_nbuckets m div 2) = Some (rok, if rok then m\<lparr>hm_buckets := bs,
      hm_nbuckets := hm_nbuckets m div 2, hm_mask := hm_nbuckets m div 2 - 1,
      hm_growat := mul_060 (hm_nbuckets m div 2), hm_shrinkat := mul_010 (hm_nbuckets m div 2)\<rparr> else m)"
      "table_inv (hm_nbuckets m div 2) bs" "bag bs = bag (hm_buckets m)"
    using resize_ok [OF D(1) new j4(1,2) lt sz, of mok] by blast
  let ?m = "m\<lparr>hm_buckets := bs, hm_nbuckets := hm_nbuckets m div 2, hm_mask := hm_nbuckets m div 2 - 1,
      hm_growat := mul_060 (hm_nbuckets m div 2), hm_shrinkat := mul_010 (hm_nbuckets m div 2)\<rparr>"
  have "hm_inv ?m" by (rule hm_inv_resized [OF D(1) new j4(1,2) cap room r(2,3)])
  then have ok': "hm_ok hash compare ?m" using D(4,5) by (simp add: hm_ok_def)
  show ?thesis
  proof (rule that [of rok "if rok then ?m else m"])
    show "(if hm_cap m < hm_nbuckets m \<and> hm_count m \<le> hm_shrinkat m then resize mok m (hm_nbuckets m div 2)
        else Some (True, m)) = Some (rok, if rok then ?m else m)" using True r(1) by simp
  qed (use ok ok' r in auto)
qed

theorem delete_spec:
  assumes ok: "hm_ok hash compare m" and sz: "hm_count m + 2 < 65536"
  obtains m' where "hashmap_delete mok m key = Some (m', hm_lookup m key)" "hm_ok hash compare m'" "\<not> hm_oom m'"
    "\<And>k. hm_lookup m' k = (if compare k key = 0 then None else hm_lookup m k)"
    "hm_count m' = hm_count m - (if hm_lookup m key = None then 0 else 1)"
proof -
  note D = hm_ok_D [OF ok]
  obtain k where k: "hm_nbuckets m = 2 ^ k" "2 \<le> hm_nbuckets m" "table_inv (hm_nbuckets m) (hm_buckets m)"
    "hm_mask m = hm_nbuckets m - 1" "hm_count m = size (bag (hm_buckets m))"
    using D(1) by (rule hm_inv_D)
  let ?h = "get_hash m key" and ?bs = "hm_buckets m" and ?m = "m\<lparr>hm_oom := False\<rparr>"
  have h [simp]: "clip_hash ?h = ?h" by (simp add: get_hash_def)
  have s: "size (bag ?bs) < hm_nbuckets m" using hm_count_less [OF D(1)] k(5) by simp
  have look: "hashmap_get m key = Some (hm_lookup m key)" by (rule get_spec [OF ok])
  show ?thesis
  proof (cases rule: get_table [OF k(1,3) s D(2), of key ?h])
    case 1
    have "hm_lookup m key = None"
      using look 1(1) by (simp add: hashmap_get_def hashmap_get_with_hash_def k(4) D(5) and_mask_mod [OF k(1)])
    moreover have "hashmap_delete mok m key = Some (?m, None)"
      using 1(1) by (simp add: hashmap_delete_def hashmap_delete_with_hash_def k(4) D(5) and_mask_mod [OF k(1)])
    moreover have "hm_lookup m k' = None" if "compare k' key = 0" for k'
      using \<open>hm_lookup m key = None\<close> lookup_iff [OF ok] that compare_trans compare_sym by (metis option.exhaust)
    ultimately show ?thesis using that [of ?m] ok by (simp add: hm_ok_def)
  next
    case (2 p)
    obtain bs where bs: "shift_loop (hm_nbuckets m - 1) p (?bs[p := (?bs ! p)\<lparr>bk_dib := 0\<rparr>]) = Some bs"
      "table_inv (hm_nbuckets m) bs" "bag ?bs = add_mset (kv (?bs ! p)) (bag bs)"
      using shift_table [OF k(1-3) 2(2,3) s] by blast
    let ?m2 = "m\<lparr>hm_oom := False, hm_buckets := bs, hm_count := hm_count m - 1\<rparr>"
    have ok2: "hm_ok hash compare ?m2" by (rule removed_inv [OF ok bs(2,3)])
    have sz2: "hm_count ?m2 + 2 < 65536" using sz by simp
    obtain rok m1 where r: "(if hm_nbuckets ?m2 > hm_cap ?m2 \<and> hm_count ?m2 \<le> hm_shrinkat ?m2
        then resize mok ?m2 (hm_nbuckets ?m2 div 2) else Some (True, ?m2)) = Some (rok, m1)"
      "hm_ok hash compare m1" "bag (hm_buckets m1) = bag bs" "hm_count m1 = hm_count m - 1" "\<not> hm_oom m1"
      using shrink_stage [OF ok2 sz2, of mok] by auto
    have l: "hm_lookup m key = Some (bk_item (?bs ! p))"
      using look 2(1) by (simp add: hashmap_get_def hashmap_get_with_hash_def k(4) D(5) and_mask_mod [OF k(1)])
    have "hashmap_delete mok m key = Some (m1, Some (bk_item (?bs ! p)))"
      using 2(1) bs(1) r(1)
      unfolding hashmap_delete_def hashmap_delete_with_hash_def
      by (auto simp: Let_def k(4) D(5) and_mask_mod [OF k(1)] simp del: One_nat_def split: if_splits)
    moreover have "hm_lookup m1 k' = (if compare k' key = 0 then None else hm_lookup m k')" for k'
      using bs(3) r(3) 2(5) by (intro lookup_after_delete [OF ok r(2), of "bk_hash (?bs ! p)"]) (simp_all add: kv_def)
    ultimately show ?thesis using that [of m1] l r by simp
  qed
qed

end

section \<open>Creating, clearing and traversing\<close>

lemma find_None_bag: "bag bs = {#} \<Longrightarrow> find (\<lambda>b. 0 < bk_dib b \<and> P b) bs = None"
  by (auto simp: bag_def find_None_iff filter_mset_eq_conv)

lemma hm_ok_new_map:
  assumes "cap = 2 ^ k" "4 \<le> k" "k \<le> 63"
  shows "hm_ok hash compare (new_map el cap bsz s0 s1 hash (Some compare) ef z)"
    and "hm_lookup (new_map el cap bsz s0 s1 hash (Some compare) ef z) x = None"
proof -
  have "(0 :: nat) < 2 ^ k" by simp
  then show "hm_ok hash compare (new_map el cap bsz s0 s1 hash (Some compare) ef z)"
    using assms by (auto simp: hm_ok_def hm_inv_def new_map_def indep_def)
  show "hm_lookup (new_map el cap bsz s0 s1 hash (Some compare) ef z) x = None"
    by (simp add: hm_lookup_def new_map_def find_None_bag)
qed

lemma hashmap_new_ok:
  assumes "cap \<le> 2 ^ 63"
  shows "\<exists>r. hashmap_new mok el cap s0 s1 hash (Some compare) ef z = Some r \<and> ((\<forall>s. mok s) \<longrightarrow> r \<noteq> None) \<and>
    (\<forall>m. r = Some m \<longrightarrow> hm_ok hash compare m \<and> (\<forall>x. hm_lookup m x = None) \<and> hm_count m = 0 \<and>
       cap \<le> hm_nbuckets m \<and> (hm_nbuckets m = 16 \<or> hm_nbuckets m < 2 * cap))"
proof -
  obtain k where k: "4 \<le> k" "k \<le> 63" "(if cap < 16 then Some 16 else ncap_loop cap 16) = Some (2 ^ k)"
    "cap \<le> 2 ^ k" "2 ^ k = (16 :: nat) \<or> 2 ^ k < 2 * cap"
  proof (cases "cap < 16")
    case True
    then show ?thesis using that [of 4] by simp
  next
    case False
    obtain k where "4 \<le> k" "k \<le> 63" "ncap_loop cap (2 ^ 4) = Some (2 ^ k)" "cap \<le> 2 ^ k" "k = 4 \<or> 2 ^ k < 2 * cap"
      using ncap_loop_returns [OF assms, of 4] by auto
    then show ?thesis using that [of k] False by auto
  qed
  obtain bsz where bsz: "bucketsz_loop ((8 + el) mod 2 ^ 64) = Some bsz" using bucketsz_loop_returns by blast
  let ?ok = "mok ((168 + bsz * 2) mod 2 ^ 64) \<and> mok (bsz * 2 ^ k mod 2 ^ 64)"
  have r: "hashmap_new mok el cap s0 s1 hash (Some compare) ef z =
      Some (if ?ok then Some (new_map el (2 ^ k) bsz s0 s1 hash (Some compare) ef z) else None)"
    by (simp only: hashmap_new_def hashmap_new_with_allocator_def bsz k(3) bind.simps if_splits) auto
  have "hm_count (new_map el (2 ^ k) bsz s0 s1 hash (Some compare) ef z) = 0"
    "hm_nbuckets (new_map el (2 ^ k) bsz s0 s1 hash (Some compare) ef z) = 2 ^ k"
    by (simp_all add: new_map_def)
  then show ?thesis
    unfolding r using k(4,5) by (simp add: hm_ok_new_map [OF refl k(1,2)])
qed

lemma hashmap_new_diverges:
  assumes "2 ^ 63 < cap"
  shows "hashmap_new mok el cap s0 s1 hash c ef z = None"
proof -
  have "ncap_loop cap 16 \<noteq> Some r" for r
  proof
    assume "ncap_loop cap 16 = Some r"
    then have "cap \<le> r \<and> r \<le> 2 ^ 63" by (rule ncap_loop_some) (intro disjI2 exI [of _ 4], simp)
    then show False using assms by simp
  qed
  then have "ncap_loop cap 16 = None" by (metis option.exhaust)
  moreover have "\<not> cap < 16" using assms by simp
  ultimately show ?thesis by (simp add: hashmap_new_def hashmap_new_with_allocator_def)
qed

lemma hashmap_clear_ok:
  assumes "hm_ok hash compare m" "hashmap_clear mok m update_cap = (m', freed)"
  shows "hm_ok hash compare m'" and "hm_lookup m' x = None" and "hm_count m' = 0"
    and "freed = (if hm_elfree m then map bk_item (filter (\<lambda>b. bk_dib b \<noteq> 0) (hm_buckets m)) else [])"
proof -
  have inv: "hm_inv m" and hc: "hm_hash m = hash" "hm_compare m = Some compare" using assms by (auto simp: hm_ok_def)
  obtain k where k: "4 \<le> k" "k \<le> 63" "hm_nbuckets m = 2 ^ k" "length (hm_buckets m) = hm_nbuckets m"
    using inv by (auto simp: hm_inv_def table_inv_def)
  obtain c where c: "4 \<le> c" "hm_cap m = 2 ^ c" "hm_cap m \<le> hm_nbuckets m"
    using inv by (auto simp: hm_inv_def)
  have c63: "c \<le> 63" using c k power_increasing_iff [of "2 :: nat" c k] by simp
  let ?n = "if update_cap then hm_nbuckets m else hm_cap m"
  have n: "hm_nbuckets m' = ?n" "hm_buckets m' = replicate ?n (empty_bucket (hm_zero m))"
    "hm_cap m' = ?n" "hm_mask m' = ?n - 1" "hm_growat m' = mul_075 ?n" "hm_shrinkat m' = mul_010 ?n"
    "hm_growpower m' = hm_growpower m" "hm_hash m' = hash" "hm_compare m' = Some compare"
    using assms(2) c(3) k(4) hc by (auto simp: hashmap_clear_def Let_def map_replicate_const min_def split: if_splits)
  show c0: "hm_count m' = 0" using assms(2) by (auto simp: hashmap_clear_def Let_def split: if_splits)
  have b: "bag (hm_buckets m') = {#}" using n(2) by simp
  have n2: "\<exists>j\<ge>4. j \<le> 63 \<and> ?n = 2 ^ j" using k c c63 by auto
  then have "0 < ?n" by auto
  then have t: "table_inv ?n (hm_buckets m')" unfolding n(2) by (rule table_inv_replicate)
  have gp: "1 \<le> hm_growpower m" "hm_growpower m \<le> 16" using inv by (auto simp: hm_inv_def)
  have "hm_inv m'" unfolding hm_inv_def b c0 using n n2 t gp by (auto simp: indep_def)
  then show "hm_ok hash compare m'" using n by (simp add: hm_ok_def)
  show "hm_lookup m' x = None" using b by (simp add: hm_lookup_def find_None_bag)
  show "freed = (if hm_elfree m then map bk_item (filter (\<lambda>b. bk_dib b \<noteq> 0) (hm_buckets m)) else [])"
    using assms(2) by (auto simp: hashmap_clear_def free_elements_def Let_def)
qed

lemma scan_loop_all:
  "scan_loop (\<lambda>x s. (True, s @ [x])) bs s = (True, s @ map bk_item (filter (\<lambda>b. bk_dib b \<noteq> 0) bs))"
  by (induction bs arbitrary: s) auto

lemma iter_all_end: "hm_nbuckets m \<le> i \<Longrightarrow> iter_all m i = []"
  by (subst iter_all.simps, subst hashmap_iter.simps) simp

lemma iter_all_skip:
  assumes "i < hm_nbuckets m" "bk_dib (hm_buckets m ! i) = 0"
  shows "iter_all m i = iter_all m (Suc i)"
proof -
  have "hashmap_iter m i = hashmap_iter m (Suc i)" using assms by (subst hashmap_iter.simps) (simp add: Let_def)
  then show ?thesis by (subst (1 2) iter_all.simps) (simp only:)
qed

lemma iter_all_item:
  assumes "i < hm_nbuckets m" "bk_dib (hm_buckets m ! i) \<noteq> 0"
  shows "iter_all m i = bk_item (hm_buckets m ! i) # iter_all m (Suc i)"
proof -
  have "hashmap_iter m i = (Suc i, Some (bk_item (hm_buckets m ! i)))"
    using assms by (subst hashmap_iter.simps) (simp add: Let_def)
  then show ?thesis by (subst iter_all.simps) simp
qed

lemma iter_all_drop:
  assumes "length (hm_buckets m) = hm_nbuckets m" "i \<le> hm_nbuckets m"
  shows "iter_all m i = map bk_item (filter (\<lambda>b. bk_dib b \<noteq> 0) (drop i (hm_buckets m)))"
  using assms(2)
proof (induction rule: inc_induct)
  case base
  then show ?case using assms(1) by (simp add: iter_all_end)
next
  case (step i)
  have "drop i (hm_buckets m) = hm_buckets m ! i # drop (Suc i) (hm_buckets m)"
    using assms(1) step(2) by (simp add: Cons_nth_drop_Suc)
  then show ?case
    using step iter_all_skip [of i m] iter_all_item [of i m] by (cases "bk_dib (hm_buckets m ! i) = 0") simp_all
qed

end
