(* ===== verification/Policy_Tables.thy ===== *)
theory Policy_Tables
  imports Hash_Functions Hashmap_Spec
begin

text \<open>
  The policy tables of the daemon: the items of \<open>usm_alloc_policies\<close>,
  \<open>usm_swap_policies\<close> and \<open>usm_process_linking\<close> with their hash and compare
  callbacks (\<open>impl/usm/usm.c\<close>), their creation in \<open>usm_init\<close> and the registration
  functions of \<open>include/usm/usm.h\<close>.  A pointer to a policy's operations is the
  64-bit value the code stores for it.  The locale \<open>table_store\<close> is what the
  clients of a table rely on; it is interpreted on both kinds of tables.
\<close>

section \<open>Items and callbacks\<close>

record usm_policy =
  pol_name :: string
  pol_ops :: u64

record usm_process_link =
  pl_procName :: string
  pl_alloc_pol :: u64
  pl_swp_pol :: u64
  pl_prio :: int

fun strcmp :: "string \<Rightarrow> string \<Rightarrow> int" where
  "strcmp [] [] = 0"
| "strcmp [] (b # bs) = -1"
| "strcmp (a # as) [] = 1"
| "strcmp (a # as) (b # bs) =
     (if a = b then strcmp as bs else if (of_char a :: nat) < of_char b then -1 else 1)"

definition cstr_bytes :: "string \<Rightarrow> bytes" where
  "cstr_bytes s = map of_char s"

definition usm_policy_compare :: "usm_policy \<Rightarrow> usm_policy \<Rightarrow> int" where
  "usm_policy_compare a b = strcmp (pol_name a) (pol_name b)"

definition usm_policy_hash :: "usm_policy \<Rightarrow> u64 \<Rightarrow> u64 \<Rightarrow> u64" where
  "usm_policy_hash item seed0 seed1 = hashmap_sip (cstr_bytes (pol_name item)) seed0 seed1"

definition usm_plink_compare :: "usm_process_link \<Rightarrow> usm_process_link \<Rightarrow> int" where
  "usm_plink_compare a b = strcmp (pl_procName a) (pl_procName b)"

definition usm_plink_hash :: "usm_process_link \<Rightarrow> u64 \<Rightarrow> u64 \<Rightarrow> u64" where
  "usm_plink_hash item seed0 seed1 = hashmap_sip (cstr_bytes (pl_procName item)) seed0 seed1"

section \<open>The tables\<close>

record usm_tables =
  alloc_policies :: "usm_policy hashmap"
  swap_policies :: "usm_policy hashmap"
  process_linking :: "usm_process_link hashmap"
  default_alloc_policy :: u64
  default_swap_policy :: u64
  allocPoliciesNumber :: u16

definition zero_policy :: usm_policy where
  "zero_policy = \<lparr>pol_name = [], pol_ops = 0\<rparr>"

definition zero_plink :: usm_process_link where
  "zero_plink = \<lparr>pl_procName = [], pl_alloc_pol = 0, pl_swp_pol = 0, pl_prio = 0\<rparr>"

text \<open>The three \<open>hashmap_new\<close> calls that end \<open>usm_init\<close>; \<open>sizeof(struct usm_policy)\<close> is
  16 and \<open>sizeof(struct usm_process_link)\<close> 32.\<close>

definition new_policy_table :: "(nat \<Rightarrow> bool) \<Rightarrow> usm_policy hashmap option option" where
  "new_policy_table mok =
     hashmap_new mok 16 0 0 0 usm_policy_hash (Some usm_policy_compare) False zero_policy"

definition new_plink_table :: "(nat \<Rightarrow> bool) \<Rightarrow> usm_process_link hashmap option option" where
  "new_plink_table mok =
     hashmap_new mok 32 0 0 0 usm_plink_hash (Some usm_plink_compare) False zero_plink"

text \<open>\<open>is_default\<close> copies the operations into the default policy; the result is the
  C return value and the new state.\<close>

definition usm_register_alloc_policy ::
  "(nat \<Rightarrow> bool) \<Rightarrow> usm_tables \<Rightarrow> u64 \<Rightarrow> string \<Rightarrow> bool \<Rightarrow> (int \<times> usm_tables) option" where
  "usm_register_alloc_policy mok t alloc_policy policy_name is_default = do {
     let t = (if is_default then t\<lparr>default_alloc_policy := alloc_policy\<rparr> else t);
     (m, old) \<leftarrow> hashmap_set mok (alloc_policies t) \<lparr>pol_name = policy_name, pol_ops = alloc_policy\<rparr>;
     let t = t\<lparr>alloc_policies := m\<rparr>;
     (if old = None \<and> hashmap_oom m then Some (1, t)
      else Some (0, t\<lparr>allocPoliciesNumber := allocPoliciesNumber t + 1\<rparr>))
   }"

definition usm_register_swap_policy ::
  "(nat \<Rightarrow> bool) \<Rightarrow> usm_tables \<Rightarrow> u64 \<Rightarrow> string \<Rightarrow> bool \<Rightarrow> (int \<times> usm_tables) option" where
  "usm_register_swap_policy mok t swap_policy policy_name is_default = do {
     let t = (if is_default then t\<lparr>default_swap_policy := swap_policy\<rparr> else t);
     (m, old) \<leftarrow> hashmap_set mok (alloc_policies t) \<lparr>pol_name = policy_name, pol_ops = swap_policy\<rparr>;
     let t = t\<lparr>alloc_policies := m\<rparr>;
     (if old = None \<and> hashmap_oom m then Some (1, t)
      else Some (0, t\<lparr>allocPoliciesNumber := allocPoliciesNumber t + 1\<rparr>))
   }"

section \<open>The callbacks meet the contract\<close>

lemma strcmp_eq_0 [simp]: "strcmp a b = 0 \<longleftrightarrow> a = b"
  by (induction a b rule: strcmp.induct) auto

interpretation policies: hash_contract usm_policy_hash usm_policy_compare
  by unfold_locales (auto simp: usm_policy_hash_def usm_policy_compare_def)

interpretation plinks: hash_contract usm_plink_hash usm_plink_compare
  by unfold_locales (auto simp: usm_plink_hash_def usm_plink_compare_def)

section \<open>The interface of a table\<close>

text \<open>What a client of a table relies on: looking up and storing return, a store that
  does not run out of memory is seen by the next lookup and touches no other
  key, and one that does changes nothing.\<close>

locale table_store =
  fixes inv :: "'t \<Rightarrow> bool" and room :: "'t \<Rightarrow> bool" and lookup :: "'t \<Rightarrow> 'a \<Rightarrow> 'a option"
    and same :: "'a \<Rightarrow> 'a \<Rightarrow> bool" and get :: "'t \<Rightarrow> 'a \<Rightarrow> 'a option option"
    and put :: "'t \<Rightarrow> 'a \<Rightarrow> ('t \<times> 'a option) option" and full :: "'t \<Rightarrow> bool"
  assumes get_returns: "inv t \<Longrightarrow> get t k = Some (lookup t k)"
    and put_returns: "inv t \<Longrightarrow> room t \<Longrightarrow> \<exists>t' old. put t x = Some (t', old)"
    and put_inv: "inv t \<Longrightarrow> room t \<Longrightarrow> put t x = Some (t', old) \<Longrightarrow> inv t'"
    and put_full: "inv t \<Longrightarrow> room t \<Longrightarrow> put t x = Some (t', old) \<Longrightarrow> full t' \<Longrightarrow> old = None \<and> lookup t' = lookup t"
    and put_lookup: "inv t \<Longrightarrow> room t \<Longrightarrow> put t x = Some (t', old) \<Longrightarrow> \<not> full t' \<Longrightarrow>
      old = lookup t x \<and> lookup t' k = (if same k x then Some x else lookup t k)"
    and same_refl: "same x x"
begin

lemma get_after_put:
  assumes "inv t" "room t" "put t x = Some (t', old)" "\<not> full t'"
  shows "get t' x = Some (Some x)"
  using assms get_returns [OF put_inv] put_lookup same_refl by simp

lemma get_other:
  assumes "inv t" "room t" "put t x = Some (t', old)" "\<not> same k x"
  shows "get t' k = get t k"
proof (cases "full t'")
  case True
  then show ?thesis
    using assms get_returns [OF put_inv [OF assms(1-3)]] get_returns [OF assms(1)] put_full by simp
next
  case False
  then show ?thesis
    using assms get_returns [OF put_inv [OF assms(1-3)]] get_returns [OF assms(1)] put_lookup [OF assms(1-3)] by simp
qed

lemma not_full_if_old:
  assumes "inv t" "room t" "put t x = Some (t', Some y)"
  shows "\<not> full t'"
  using put_full [OF assms(1-3)] by auto

end

lemma hm_table_store:
  assumes "hash_contract hash compare"
  shows "table_store (hm_ok hash compare) (\<lambda>m. hm_count m + 2 < 65536) hm_lookup (\<lambda>a b. compare a b = 0)
    hashmap_get (hashmap_set mok) hashmap_oom"
proof -
  note S = hash_contract.set_spec [OF assms, where mok = mok]
  have oom_ok: "hm_ok hash compare (m\<lparr>hm_oom := b\<rparr>) = hm_ok hash compare m" for m b by (simp add: hm_ok_def)
  show ?thesis
  proof (unfold_locales, goal_cases)
    case (1 t k)
    then show ?case by (rule hash_contract.get_spec [OF assms])
  next
    case (2 t x)
    then show ?case by (rule S [where x = x]) auto
  next
    case (3 t x t' old)
    from 3(1,2) show ?case by (rule S [where x = x]) (use 3 oom_ok in auto)
  next
    case (4 t x t' old)
    from 4(1,2) show ?case by (rule S [where x = x]) (use 4 in \<open>auto simp: hashmap_oom_def\<close>)
  next
    case (5 t x t' old k)
    from 5(1,2) show ?case by (rule S [where x = x]) (use 5 in \<open>auto simp: hashmap_oom_def\<close>)
  next
    case (6 x)
    show ?case using hash_contract.compare_refl [OF assms] .
  qed
qed

interpretation policy_table: table_store "hm_ok usm_policy_hash usm_policy_compare" "\<lambda>m. hm_count m + 2 < 65536"
  hm_lookup "\<lambda>a b. usm_policy_compare a b = 0" hashmap_get "hashmap_set mok" hashmap_oom for mok
  by (rule hm_table_store) (rule policies.hash_contract_axioms)

interpretation plink_table: table_store "hm_ok usm_plink_hash usm_plink_compare" "\<lambda>m. hm_count m + 2 < 65536"
  hm_lookup "\<lambda>a b. usm_plink_compare a b = 0" hashmap_get "hashmap_set mok" hashmap_oom for mok
  by (rule hm_table_store) (rule plinks.hash_contract_axioms)

section \<open>Properties of the hash map\<close>

text \<open>The table \<open>usm_init\<close> creates when the allocator succeeds.\<close>

definition policy_table0 :: "usm_policy hashmap" where
  "policy_table0 = new_map 16 16 24 0 0 usm_policy_hash (Some usm_policy_compare) False zero_policy"

lemma policy_table0_ok: "hm_ok usm_policy_hash usm_policy_compare policy_table0"
  unfolding policy_table0_def by (rule hm_ok_new_map(1) [of 16 4]) simp_all

lemma policy_table0_simps [simp]:
  "hm_count policy_table0 = 0" "hm_lookup policy_table0 x = None" "hm_growat policy_table0 = 9"
  using hm_ok_new_map(2) [of 16 4]
  by (simp_all add: policy_table0_def) (simp_all add: new_map_def mul_060_def)

lemma new_policy_table0: "new_policy_table (\<lambda>_. True) = Some (Some policy_table0)"
proof -
  have "bucketsz_loop 24 = Some 24" by (subst bucketsz_loop.simps) simp
  then show ?thesis
    by (simp add: new_policy_table_def hashmap_new_def hashmap_new_with_allocator_def policy_table0_def)
qed

text \<open>C2: with callbacks that meet their contract, \<open>hashmap_get\<close> returns on every map
  satisfying the invariant, and finds exactly what the map associates with the key.\<close>

theorem hashmap_get_correct:
  assumes "hash_contract hash compare" "hm_ok hash compare m"
  shows "hashmap_get m key = Some (hm_lookup m key)"
  using hash_contract.get_spec [OF assms] .

theorem hashmap_get_correct_witness: "hashmap_get policy_table0 \<lparr>pol_name = ''policyOne'', pol_ops = 0\<rparr> = Some None"
  using hashmap_get_correct [OF policies.hash_contract_axioms policy_table0_ok] by simp

text \<open>C1: \<open>hashmap_set\<close> on a map of fewer than 65534 items returns and keeps the
  invariant.  Unless it reports out of memory it returns the item it replaces and
  the map then associates the new item with its key and nothing else changes; it
  reports out of memory only when the map had to grow and an allocation failed,
  and then the map is unchanged.\<close>

theorem hashmap_set_correct:
  assumes "hash_contract hash compare" "hm_ok hash compare m" "hm_count m + 2 < 65536"
  shows "\<exists>m' old. hashmap_set mok m x = Some (m', old) \<and> hm_ok hash compare m' \<and>
    (if hm_oom m' then old = None \<and> m' = m\<lparr>hm_oom := True\<rparr> \<and> hm_count m = hm_growat m \<and> \<not> (\<forall>s. mok s)
     else old = hm_lookup m x \<and> (\<forall>k. hm_lookup m' k = (if compare k x = 0 then Some x else hm_lookup m k)) \<and>
       hm_count m' = hm_count m + (if old = None then 1 else 0))"
proof (rule hash_contract.set_spec [OF assms, where mok = mok and x = x])
  assume "hashmap_set mok m x = Some (m\<lparr>hm_oom := True\<rparr>, None)" "hm_count m = hm_growat m" "\<not> (\<forall>s. mok s)"
  then show ?thesis using assms(2) by (auto simp: hm_ok_def)
qed auto

theorem hashmap_set_correct_witness:
  "\<exists>m'. hashmap_set (\<lambda>_. False) policy_table0 \<lparr>pol_name = ''policyOne'', pol_ops = 7\<rparr> = Some (m', None) \<and>
     \<not> hm_oom m' \<and> hm_lookup m' \<lparr>pol_name = ''policyOne'', pol_ops = 0\<rparr> = Some \<lparr>pol_name = ''policyOne'', pol_ops = 7\<rparr> \<and>
     hm_count m' = 1"
  using hashmap_set_correct [OF policies.hash_contract_axioms policy_table0_ok,
      of "\<lambda>_. False" "\<lparr>pol_name = ''policyOne'', pol_ops = 7\<rparr>"]
  by (auto simp: usm_policy_compare_def split: if_splits)

text \<open>C3: \<open>hashmap_delete\<close> on a map of fewer than 65534 items returns the item stored
  under the key, if any, and removes it and nothing else; the invariant is kept
  whether or not the shrinking allocation succeeds.\<close>

theorem hashmap_delete_correct:
  assumes "hash_contract hash compare" "hm_ok hash compare m" "hm_count m + 2 < 65536"
  shows "\<exists>m'. hashmap_delete mok m key = Some (m', hm_lookup m key) \<and> hm_ok hash compare m' \<and> \<not> hm_oom m' \<and>
    (\<forall>k. hm_lookup m' k = (if compare k key = 0 then None else hm_lookup m k)) \<and>
    hm_count m' = hm_count m - (if hm_lookup m key = None then 0 else 1)"
  by (rule hash_contract.delete_spec [OF assms, where mok = mok and key = key]) auto

theorem hashmap_delete_correct_witness:
  "\<exists>m1 m2. hashmap_set (\<lambda>_. True) policy_table0 \<lparr>pol_name = ''policyOne'', pol_ops = 7\<rparr> = Some (m1, None) \<and>
     hashmap_delete (\<lambda>_. True) m1 \<lparr>pol_name = ''policyOne'', pol_ops = 0\<rparr> =
       Some (m2, Some \<lparr>pol_name = ''policyOne'', pol_ops = 7\<rparr>) \<and> hm_count m2 = 0"
proof -
  let ?p = "\<lparr>pol_name = ''policyOne'', pol_ops = 7\<rparr>" and ?k = "\<lparr>pol_name = ''policyOne'', pol_ops = 0\<rparr>"
  obtain m1 where m1: "hashmap_set (\<lambda>_. True) policy_table0 ?p = Some (m1, None)"
    "hm_ok usm_policy_hash usm_policy_compare m1" "hm_count m1 = 1" "hm_lookup m1 ?k = Some ?p"
    by (rule policies.set_spec [OF policy_table0_ok, where mok = "\<lambda>_. True" and x = ?p])
      (auto simp: usm_policy_compare_def)
  have "\<exists>m2. hashmap_delete (\<lambda>_. True) m1 ?k = Some (m2, Some ?p) \<and> hm_count m2 = 0"
    using hashmap_delete_correct [OF policies.hash_contract_axioms m1(2), of "\<lambda>_. True" ?k] m1 by auto
  then show ?thesis using m1(1) by blast
qed

text \<open>\<open>hashmap_new\<close> returns for every capacity up to \<open>2^63\<close>: a failed allocation gives
  NULL, otherwise the map satisfies the invariant, is empty and has a power of
  two of buckets, at least the capacity and less than twice it (16 at least).\<close>

theorem hashmap_new_correct:
  assumes "cap \<le> 2 ^ 63"
  shows "\<exists>r. hashmap_new mok elsize cap s0 s1 hash (Some compare) elfree zero = Some r \<and>
    ((\<forall>s. mok s) \<longrightarrow> r \<noteq> None) \<and>
    (\<forall>m. r = Some m \<longrightarrow> hm_ok hash compare m \<and> (\<forall>x. hm_lookup m x = None) \<and> hm_count m = 0 \<and>
       cap \<le> hm_nbuckets m \<and> (hm_nbuckets m = 16 \<or> hm_nbuckets m < 2 * cap))"
  by (rule hashmap_new_ok [OF assms])

theorem hashmap_new_correct_witness:
  "\<exists>m. hashmap_new (\<lambda>_. True) 16 100 0 0 usm_policy_hash (Some usm_policy_compare) False zero_policy = Some (Some m) \<and>
     hm_ok usm_policy_hash usm_policy_compare m \<and> 100 \<le> hm_nbuckets m"
  using hashmap_new_correct [of 100 "\<lambda>_. True" 16 0 0 usm_policy_hash usm_policy_compare False zero_policy] by auto

text \<open>For a capacity above \<open>2^63\<close> the doubling loop of \<open>hashmap_new\<close> wraps to 0 and never
  ends.\<close>

theorem hashmap_new_never_returns:
  assumes "2 ^ 63 < cap"
  shows "hashmap_new mok elsize cap s0 s1 hash c elfree zero = None"
  by (rule hashmap_new_diverges [OF assms])

theorem hashmap_new_never_returns_witness:
  "hashmap_new (\<lambda>_. True) 16 (2 ^ 63 + 1) 0 0 usm_policy_hash (Some usm_policy_compare) False zero_policy = None"
  by (rule hashmap_new_never_returns) simp

text \<open>\<open>hashmap_clear\<close> leaves an empty map that satisfies the invariant, whatever the
  allocator does, and hands every stored item to \<open>elfree\<close> exactly once, in bucket
  order, when there is such a callback.\<close>

theorem hashmap_clear_correct:
  assumes "hm_ok hash compare m" "hashmap_clear mok m update_cap = (m', freed)"
  shows "hm_ok hash compare m' \<and> (\<forall>x. hm_lookup m' x = None) \<and> hm_count m' = 0 \<and>
    mset freed = (if hm_elfree m then image_mset snd (bag (hm_buckets m)) else {#})"
  using hashmap_clear_ok [OF assms]
  by (auto simp: bag_def kv_def image_mset.compositionality comp_def simp flip: mset_filter)

theorem hashmap_clear_correct_witness:
  "hm_ok usm_policy_hash usm_policy_compare (fst (hashmap_clear (\<lambda>_. True) policy_table0 True))"
  using hashmap_clear_correct [OF policy_table0_ok surjective_pairing] by blast

text \<open>Iterating with \<open>hashmap_iter\<close> from cursor 0 yields every stored item exactly
  once, in the order in which \<open>hashmap_scan\<close> calls its callback.\<close>

theorem hashmap_iter_scan:
  assumes "hm_ok hash compare m"
  shows "hashmap_scan m (\<lambda>x s. (True, s @ [x])) [] = (True, iter_all m 0) \<and>
    mset (iter_all m 0) = image_mset snd (bag (hm_buckets m)) \<and> length (iter_all m 0) = hm_count m"
proof -
  have inv: "length (hm_buckets m) = hm_nbuckets m" "hm_count m = size (bag (hm_buckets m))"
    using assms by (auto simp: hm_ok_def hm_inv_def table_inv_def)
  have it: "iter_all m 0 = map bk_item (filter (\<lambda>b. bk_dib b \<noteq> 0) (hm_buckets m))"
    using iter_all_drop [OF inv(1), of 0] by simp
  have ms: "mset (iter_all m 0) = image_mset snd (bag (hm_buckets m))"
    unfolding it by (auto simp: bag_def kv_def image_mset.compositionality comp_def simp flip: mset_filter)
  then have "length (iter_all m 0) = hm_count m" using inv(2) by (metis size_image_mset size_mset)
  then show ?thesis using ms by (simp add: hashmap_scan_def scan_loop_all it)
qed

theorem hashmap_iter_scan_witness: "iter_all policy_table0 0 = []"
  using hashmap_iter_scan [OF policy_table0_ok] by simp

section \<open>Registration\<close>

definition tables_ok :: "usm_tables \<Rightarrow> bool" where
  "tables_ok t \<longleftrightarrow> hm_ok usm_policy_hash usm_policy_compare (alloc_policies t) \<and>
     hm_ok usm_policy_hash usm_policy_compare (swap_policies t) \<and>
     hm_ok usm_plink_hash usm_plink_compare (process_linking t)"

text \<open>The policy names a table of policies resolves.\<close>

definition policy_named :: "usm_policy hashmap \<Rightarrow> string \<Rightarrow> u64 option" where
  "policy_named m name = map_option pol_ops (hm_lookup m \<lparr>pol_name = name, pol_ops = 0\<rparr>)"

lemma policy_named_table0 [simp]: "policy_named policy_table0 name = None"
  by (simp add: policy_named_def)

lemma set_policy:
  assumes "hm_ok usm_policy_hash usm_policy_compare m" "hm_count m + 2 < 65536"
  obtains m' old where "hashmap_set mok m \<lparr>pol_name = name, pol_ops = ops\<rparr> = Some (m', old)"
    "hm_ok usm_policy_hash usm_policy_compare m'" "hashmap_oom m' \<longrightarrow> old = None"
    "policy_named m' = (if hashmap_oom m' then policy_named m else (policy_named m)(name \<mapsto> ops))"
    "hashmap_oom m' \<longrightarrow> \<not> (\<forall>s. mok s)" "hm_count m' \<le> Suc (hm_count m)"
proof (rule policies.set_spec [OF assms, where mok = mok and x = "\<lparr>pol_name = name, pol_ops = ops\<rparr>"])
  assume a: "hashmap_set mok m \<lparr>pol_name = name, pol_ops = ops\<rparr> = Some (m\<lparr>hm_oom := True\<rparr>, None)"
    "hm_count m = hm_growat m" "\<not> (\<forall>s. mok s)"
  show ?thesis
    by (rule that [OF a(1)]) (use assms(1) a in \<open>auto simp: hm_ok_def hashmap_oom_def policy_named_def fun_eq_iff\<close>)
next
  fix m' assume a: "hashmap_set mok m \<lparr>pol_name = name, pol_ops = ops\<rparr> =
      Some (m', hm_lookup m \<lparr>pol_name = name, pol_ops = ops\<rparr>)" "hm_ok usm_policy_hash usm_policy_compare m'"
    "\<not> hm_oom m'" "hm_count m' = hm_count m + (if hm_lookup m \<lparr>pol_name = name, pol_ops = ops\<rparr> = None then 1 else 0)"
    "\<And>k. hm_lookup m' k = (if usm_policy_compare k \<lparr>pol_name = name, pol_ops = ops\<rparr> = 0
      then Some \<lparr>pol_name = name, pol_ops = ops\<rparr> else hm_lookup m k)"
  show ?thesis
    by (rule that [OF a(1,2)])
      (use a in \<open>auto simp: hashmap_oom_def policy_named_def fun_eq_iff usm_policy_compare_def\<close>)
qed

text \<open>The registrations succeed while the allocator does.\<close>

lemma register_ok:
  assumes "tables_ok t" "hm_count (alloc_policies t) + 2 < 65536" "\<forall>s. mok s"
  shows "\<exists>t'. usm_register_alloc_policy mok t ops name is_default = Some (0, t') \<and> tables_ok t' \<and>
      default_alloc_policy t' = (if is_default then ops else default_alloc_policy t) \<and>
      default_swap_policy t' = default_swap_policy t \<and> swap_policies t' = swap_policies t \<and> process_linking t' = process_linking t \<and>
      policy_named (alloc_policies t') = (policy_named (alloc_policies t))(name \<mapsto> ops) \<and>
      hm_count (alloc_policies t') \<le> Suc (hm_count (alloc_policies t))"
    and "\<exists>t'. usm_register_swap_policy mok t ops name is_default = Some (0, t') \<and> tables_ok t' \<and>
      default_swap_policy t' = (if is_default then ops else default_swap_policy t) \<and>
      default_alloc_policy t' = default_alloc_policy t \<and> swap_policies t' = swap_policies t \<and>
      process_linking t' = process_linking t \<and> policy_named (alloc_policies t') = (policy_named (alloc_policies t))(name \<mapsto> ops) \<and>
      hm_count (alloc_policies t') \<le> Suc (hm_count (alloc_policies t))"
proof -
  have "hm_ok usm_policy_hash usm_policy_compare (alloc_policies t)" using assms(1) by (simp add: tables_ok_def)
  from set_policy [OF this assms(2), of mok name ops]
  obtain m' old where m': "hashmap_set mok (alloc_policies t) \<lparr>pol_name = name, pol_ops = ops\<rparr> = Some (m', old)"
    "hm_ok usm_policy_hash usm_policy_compare m'" "\<not> hashmap_oom m'" "hm_count m' \<le> Suc (hm_count (alloc_policies t))"
    "policy_named m' = (policy_named (alloc_policies t))(name \<mapsto> ops)"
    using assms(3) by metis
  show "\<exists>t'. usm_register_alloc_policy mok t ops name is_default = Some (0, t') \<and> tables_ok t' \<and>
      default_alloc_policy t' = (if is_default then ops else default_alloc_policy t) \<and>
      default_swap_policy t' = default_swap_policy t \<and> swap_policies t' = swap_policies t \<and> process_linking t' = process_linking t \<and>
      policy_named (alloc_policies t') = (policy_named (alloc_policies t))(name \<mapsto> ops) \<and>
      hm_count (alloc_policies t') \<le> Suc (hm_count (alloc_policies t))"
    using assms(1) m' by (cases is_default) (auto simp: usm_register_alloc_policy_def tables_ok_def Let_def)
  show "\<exists>t'. usm_register_swap_policy mok t ops name is_default = Some (0, t') \<and> tables_ok t' \<and>
      default_swap_policy t' = (if is_default then ops else default_swap_policy t) \<and>
      default_alloc_policy t' = default_alloc_policy t \<and> swap_policies t' = swap_policies t \<and>
      process_linking t' = process_linking t \<and> policy_named (alloc_policies t') = (policy_named (alloc_policies t))(name \<mapsto> ops) \<and>
      hm_count (alloc_policies t') \<le> Suc (hm_count (alloc_policies t))"
    using assms(1) m' by (cases is_default) (auto simp: usm_register_swap_policy_def tables_ok_def Let_def)
qed

text \<open>Registering an allocation policy returns; with result 0 its name resolves to
  its operations in \<open>usm_alloc_policies\<close> and every other name resolves as before,
  with result 1 (out of memory, never when the allocator succeeds) no name changes.\<close>

theorem usm_register_alloc_policy_correct:
  assumes "tables_ok t" "hm_count (alloc_policies t) + 2 < 65536"
  shows "\<exists>r t'. usm_register_alloc_policy mok t ops name is_default = Some (r, t') \<and> tables_ok t' \<and>
    swap_policies t' = swap_policies t \<and> process_linking t' = process_linking t \<and>
    default_alloc_policy t' = (if is_default then ops else default_alloc_policy t) \<and>
    (if r = 0 then policy_named (alloc_policies t') = (policy_named (alloc_policies t))(name \<mapsto> ops)
     else r = 1 \<and> \<not> (\<forall>s. mok s) \<and> policy_named (alloc_policies t') = policy_named (alloc_policies t))"
proof -
  have "hm_ok usm_policy_hash usm_policy_compare (alloc_policies t)" using assms(1) by (simp add: tables_ok_def)
  then obtain m' old where m': "hashmap_set mok (alloc_policies t) \<lparr>pol_name = name, pol_ops = ops\<rparr> = Some (m', old)"
    "hm_ok usm_policy_hash usm_policy_compare m'" "hashmap_oom m' \<longrightarrow> old = None"
    "policy_named m' = (if hashmap_oom m' then policy_named (alloc_policies t)
       else (policy_named (alloc_policies t))(name \<mapsto> ops))"
    "hashmap_oom m' \<longrightarrow> \<not> (\<forall>s. mok s)"
    using set_policy [OF _ assms(2), of mok name ops] by metis
  then show ?thesis
    using assms(1) unfolding usm_register_alloc_policy_def
    by (cases "hashmap_oom m'"; cases is_default) (auto simp: tables_ok_def Let_def)
qed

definition tables0 :: usm_tables where
  "tables0 = \<lparr>alloc_policies = policy_table0, swap_policies = policy_table0,
     process_linking = new_map 32 16 40 0 0 usm_plink_hash (Some usm_plink_compare) False zero_plink,
     default_alloc_policy = 0, default_swap_policy = 0, allocPoliciesNumber = 0\<rparr>"

lemma tables0_ok: "tables_ok tables0"
  unfolding tables_ok_def tables0_def
  using policy_table0_ok hm_ok_new_map(1) [of 16 4 usm_plink_hash usm_plink_compare] by simp

theorem usm_register_alloc_policy_correct_witness:
  "\<exists>t'. usm_register_alloc_policy (\<lambda>_. True) tables0 42 ''policyOne'' True = Some (0, t') \<and>
     policy_named (alloc_policies t') ''policyOne'' = Some 42"
  using usm_register_alloc_policy_correct [OF tables0_ok, of "\<lambda>_. True" 42 "''policyOne''" True]
  by (auto simp: tables0_def split: if_splits)

text \<open>Registering a swap policy enters it into \<open>usm_alloc_policies\<close>: the name then
  resolves to the swap operations among the allocation policies, hiding an
  allocation policy of that name, and \<open>usm_swap_policies\<close> is unchanged.\<close>

theorem usm_register_swap_policy_misplaced:
  assumes "tables_ok t" "hm_count (alloc_policies t) + 2 < 65536"
  shows "\<exists>r t'. usm_register_swap_policy mok t ops name is_default = Some (r, t') \<and> tables_ok t' \<and>
    swap_policies t' = swap_policies t \<and>
    (r = 0 \<longrightarrow> policy_named (alloc_policies t') = (policy_named (alloc_policies t))(name \<mapsto> ops)) \<and>
    ((\<forall>s. mok s) \<longrightarrow> r = 0)"
proof -
  have "hm_ok usm_policy_hash usm_policy_compare (alloc_policies t)" using assms(1) by (simp add: tables_ok_def)
  then obtain m' old where m': "hashmap_set mok (alloc_policies t) \<lparr>pol_name = name, pol_ops = ops\<rparr> = Some (m', old)"
    "hm_ok usm_policy_hash usm_policy_compare m'" "hashmap_oom m' \<longrightarrow> old = None"
    "policy_named m' = (if hashmap_oom m' then policy_named (alloc_policies t)
       else (policy_named (alloc_policies t))(name \<mapsto> ops))"
    "hashmap_oom m' \<longrightarrow> \<not> (\<forall>s. mok s)"
    using set_policy [OF _ assms(2), of mok name ops] by metis
  then show ?thesis
    using assms(1) unfolding usm_register_swap_policy_def
    by (cases "hashmap_oom m'"; cases is_default) (auto simp: tables_ok_def Let_def)
qed

theorem usm_register_swap_policy_misplaced_witness:
  "\<exists>t'. usm_register_swap_policy (\<lambda>_. True) tables0 43 ''policyOne'' True = Some (0, t') \<and>
     policy_named (alloc_policies t') ''policyOne'' = Some 43 \<and> policy_named (swap_policies t') ''policyOne'' = None"
  using usm_register_swap_policy_misplaced [OF tables0_ok, of "\<lambda>_. True" 43 "''policyOne''" True]
  by (auto simp: tables0_def)

end
