(* ===== verification/Linked_List.thy ===== *)
theory Linked_List
  imports Usm_Prelude
begin

text \<open>
  The intrusive doubly linked lists of \<open>daemon/include/usm/list.h\<close>.  The memory
  is a record of the two link fields of every \<open>struct list_head\<close>, as functions of
  its address; each operation performs the assignments of the source in their
  order.  \<open>is_list h hp xs\<close> says that the circular list with head \<open>hp\<close> holds the
  nodes \<open>xs\<close>; every operation is shown to implement the operation on HOL lists it
  stands for, and to leave every other list alone.  The lists with a single-pointer
  head are in \<open>Hash_List\<close>.
\<close>

section \<open>Lists with a head\<close>

type_synonym addr = u64

record lheap =
  lh_next :: "addr \<Rightarrow> addr"
  lh_prev :: "addr \<Rightarrow> addr"

definition set_next :: "addr \<Rightarrow> addr \<Rightarrow> lheap \<Rightarrow> lheap" where
  "set_next a v h = h\<lparr>lh_next := (lh_next h)(a := v)\<rparr>"

definition set_prev :: "addr \<Rightarrow> addr \<Rightarrow> lheap \<Rightarrow> lheap" where
  "set_prev a v h = h\<lparr>lh_prev := (lh_prev h)(a := v)\<rparr>"

definition LIST_POISON1 :: addr where "LIST_POISON1 = 0x00100100"
definition LIST_POISON2 :: addr where "LIST_POISON2 = 0x00200200"

definition INIT_LIST_HEAD :: "addr \<Rightarrow> lheap \<Rightarrow> lheap" where
  "INIT_LIST_HEAD p h = set_prev p p (set_next p p h)"

definition list_add_between :: "addr \<Rightarrow> addr \<Rightarrow> addr \<Rightarrow> lheap \<Rightarrow> lheap" where
  "list_add_between new prev nxt h =
    (let h = set_prev nxt new h;
         h = set_next new nxt h;
         h = set_prev new prev h
     in set_next prev new h)"

definition list_add :: "addr \<Rightarrow> addr \<Rightarrow> lheap \<Rightarrow> lheap" where
  "list_add new head h = list_add_between new head (lh_next h head) h"

definition list_add_tail :: "addr \<Rightarrow> addr \<Rightarrow> lheap \<Rightarrow> lheap" where
  "list_add_tail new head h = list_add_between new (lh_prev h head) head h"

definition list_del_between :: "addr \<Rightarrow> addr \<Rightarrow> lheap \<Rightarrow> lheap" where
  "list_del_between prev nxt h = set_next prev nxt (set_prev nxt prev h)"

definition list_del :: "addr \<Rightarrow> lheap \<Rightarrow> lheap" where
  "list_del entry h =
    (let h = list_del_between (lh_prev h entry) (lh_next h entry) h;
         h = set_next entry LIST_POISON1 h
     in set_prev entry LIST_POISON2 h)"

definition list_del_init :: "addr \<Rightarrow> lheap \<Rightarrow> lheap" where
  "list_del_init entry h =
     INIT_LIST_HEAD entry (list_del_between (lh_prev h entry) (lh_next h entry) h)"

definition list_move :: "addr \<Rightarrow> addr \<Rightarrow> lheap \<Rightarrow> lheap" where
  "list_move list head h =
     list_add list head (list_del_between (lh_prev h list) (lh_next h list) h)"

definition list_move_tail :: "addr \<Rightarrow> addr \<Rightarrow> lheap \<Rightarrow> lheap" where
  "list_move_tail list head h =
     list_add_tail list head (list_del_between (lh_prev h list) (lh_next h list) h)"

definition list_empty :: "addr \<Rightarrow> lheap \<Rightarrow> bool" where
  "list_empty head h \<longleftrightarrow> lh_next h head = head"

definition list_splice_at :: "addr \<Rightarrow> addr \<Rightarrow> lheap \<Rightarrow> lheap" where
  "list_splice_at list head h =
    (let first = lh_next h list; last = lh_prev h list; at = lh_next h head;
         h = set_prev first head h;
         h = set_next head first h;
         h = set_next last at h
     in set_prev at last h)"

definition list_splice :: "addr \<Rightarrow> addr \<Rightarrow> lheap \<Rightarrow> lheap" where
  "list_splice list head h = (if \<not> list_empty list h then list_splice_at list head h else h)"

definition list_splice_init :: "addr \<Rightarrow> addr \<Rightarrow> lheap \<Rightarrow> lheap" where
  "list_splice_init list head h =
     (if \<not> list_empty list h then INIT_LIST_HEAD list (list_splice_at list head h) else h)"

definition list_first_entry :: "addr \<Rightarrow> lheap \<Rightarrow> addr" where
  "list_first_entry head h = lh_next h head"

text \<open>\<open>list_for_each\<close>: the nodes a traversal from \<open>pos\<close> visits; \<open>None\<close> when it never
  meets the head.\<close>

partial_function (option) list_for_each :: "addr \<Rightarrow> addr \<Rightarrow> lheap \<Rightarrow> addr list option" where
  "list_for_each pos head h =
    (if pos = head then Some []
     else Option.bind (list_for_each (lh_next h pos) head h) (\<lambda>xs. Some (pos # xs)))"

text \<open>\<open>list_for_each_safe\<close> with a body that may unlink the current node: the successor
  is read before the body runs.\<close>

partial_function (option) list_for_each_safe ::
  "(addr \<Rightarrow> lheap \<Rightarrow> lheap) \<Rightarrow> addr \<Rightarrow> addr \<Rightarrow> addr \<Rightarrow> lheap \<Rightarrow> lheap option" where
  "list_for_each_safe body pos n head h =
    (if pos = head then Some h
     else let h = body pos h in list_for_each_safe body n (lh_next h n) head h)"

section \<open>Abstraction to lists\<close>

definition linked :: "lheap \<Rightarrow> addr \<Rightarrow> addr \<Rightarrow> bool" where
  "linked h p q \<longleftrightarrow> lh_next h p = q \<and> lh_prev h q = p"

fun chain :: "lheap \<Rightarrow> addr \<Rightarrow> addr list \<Rightarrow> addr \<Rightarrow> bool" where
  "chain h p [] q = linked h p q"
| "chain h p (x # xs) q = (linked h p x \<and> chain h x xs q)"

definition is_list :: "lheap \<Rightarrow> addr \<Rightarrow> addr list \<Rightarrow> bool" where
  "is_list h hp xs \<longleftrightarrow> chain h hp xs hp \<and> distinct (hp # xs)"

lemma lh_sel [simp]:
  "lh_next (set_next a v h) = (lh_next h)(a := v)" "lh_prev (set_next a v h) = lh_prev h"
  "lh_next (set_prev a v h) = lh_next h" "lh_prev (set_prev a v h) = (lh_prev h)(a := v)"
  by (simp_all add: set_next_def set_prev_def)

lemma chain_append: "chain h p (ys @ x # zs) q \<longleftrightarrow> chain h p ys x \<and> chain h x zs q"
  by (induction ys arbitrary: p) auto

lemma chain_ends:
  assumes "chain h p xs q"
  shows "lh_prev h q = last (p # xs)" and "lh_next h p = hd (xs @ [q])"
  using assms by (induction xs arbitrary: p) (auto simp: linked_def)

text \<open>A chain is determined by the \<open>next\<close> fields of its first node and its inner ones and
  the \<open>prev\<close> fields of the inner ones and its last.\<close>

lemma chain_frame:
  assumes "chain h p xs q" "\<And>a. a \<in> set (p # xs) \<Longrightarrow> lh_next h' a = lh_next h a"
    "\<And>a. a \<in> set (xs @ [q]) \<Longrightarrow> lh_prev h' a = lh_prev h a"
  shows "chain h' p xs q"
  using assms by (induction xs arbitrary: p) (auto simp: linked_def)

text \<open>The end of a chain redirected to another node.\<close>

lemma chain_retarget:
  assumes "chain h p xs q" "lh_next h' (last (p # xs)) = q'" "lh_prev h' q' = last (p # xs)"
    and "\<And>a. a \<in> set (butlast (p # xs)) \<Longrightarrow> lh_next h' a = lh_next h a"
    and "\<And>a. a \<in> set xs \<Longrightarrow> lh_prev h' a = lh_prev h a"
  shows "chain h' p xs q'"
  using assms by (induction xs arbitrary: p) (auto simp: linked_def split: if_splits)

lemma is_list_frame:
  assumes "is_list h hp xs" "\<And>a. a \<in> set (hp # xs) \<Longrightarrow> lh_next h' a = lh_next h a \<and> lh_prev h' a = lh_prev h a"
  shows "is_list h' hp xs"
  using assms by (auto simp: is_list_def intro: chain_frame)

lemma is_list_ends:
  assumes "is_list h hp xs"
  shows "lh_next h hp = hd (xs @ [hp])" "lh_prev h hp = last (hp # xs)"
  using assms chain_ends by (auto simp: is_list_def)

lemma is_list_empty_iff: "is_list h hp xs \<Longrightarrow> list_empty hp h \<longleftrightarrow> xs = []"
  by (cases xs) (auto simp: list_empty_def is_list_def linked_def)

lemma INIT_LIST_HEAD_is_list: "is_list (INIT_LIST_HEAD p h) p []"
  by (simp add: is_list_def INIT_LIST_HEAD_def linked_def)

lemma list_add_is_list:
  assumes "is_list h hp xs" "new \<notin> set (hp # xs)"
  shows "is_list (list_add new hp h) hp (new # xs)"
proof -
  let ?q = "hd (xs @ [hp])" and ?h = "list_add new hp h"
  have c: "chain h hp xs hp" and d: "distinct (hp # xs)" using assms(1) by (auto simp: is_list_def)
  have h: "?h = list_add_between new hp ?q h" using chain_ends(2) [OF c] by (simp add: list_add_def)
  have "chain ?h new xs hp"
  proof (cases xs)
    case Nil
    then show ?thesis using assms(2) unfolding h by (auto simp: list_add_between_def linked_def Let_def)
  next
    case (Cons y ys)
    then have "chain h y ys hp" using c by simp
    then have "chain ?h y ys hp"
      by (rule chain_frame) (use d assms(2) Cons in \<open>auto simp: h list_add_between_def Let_def\<close>)
    moreover have "linked ?h new y" using d assms(2) Cons unfolding h
      by (auto simp: list_add_between_def linked_def Let_def)
    ultimately show ?thesis using Cons by simp
  qed
  moreover have "linked ?h hp new" using d assms(2) unfolding h
    by (cases xs) (auto simp: list_add_between_def linked_def Let_def)
  ultimately show ?thesis using d assms(2) by (auto simp: is_list_def)
qed

lemma last_notin_butlast: "distinct (p # xs) \<Longrightarrow> a \<in> set (butlast (p # xs)) \<Longrightarrow> a \<noteq> last (p # xs)"
  by (metis append_butlast_last_id distinct_butlast list.distinct(1) not_distinct_conv_prefix)

lemma list_add_tail_is_list:
  assumes "is_list h hp xs" "new \<notin> set (hp # xs)"
  shows "is_list (list_add_tail new hp h) hp (xs @ [new])"
proof -
  let ?p = "last (hp # xs)" and ?h = "list_add_tail new hp h"
  have c: "chain h hp xs hp" and d: "distinct (hp # xs)" using assms(1) by (auto simp: is_list_def)
  have h: "?h = list_add_between new ?p hp h" using chain_ends(1) [OF c] by (simp add: list_add_tail_def)
  have p: "?p \<in> set (hp # xs)" by (rule last_in_set) simp
  have "chain ?h hp xs new"
  proof (rule chain_retarget [OF c])
    show "lh_next ?h ?p = new" "lh_prev ?h new = ?p"
      using p assms(2) unfolding h by (auto simp: list_add_between_def Let_def)
    show "lh_next ?h a = lh_next h a" if "a \<in> set (butlast (hp # xs))" for a
      using last_notin_butlast [OF d that] in_set_butlastD [OF that] assms(2) unfolding h
      by (auto simp: list_add_between_def Let_def)
    show "lh_prev ?h a = lh_prev h a" if "a \<in> set xs" for a
      using that d assms(2) unfolding h by (auto simp: list_add_between_def Let_def)
  qed
  moreover have "linked ?h new hp" using p assms(2) unfolding h
    by (auto simp: list_add_between_def linked_def Let_def)
  ultimately show ?thesis using d assms(2) by (auto simp: is_list_def chain_append)
qed

text \<open>Unlinking a node, whatever is done to its own fields afterwards.\<close>

lemma list_unlink:
  assumes l: "is_list h hp (ys @ x # zs)"
    and h': "\<And>a. a \<noteq> x \<Longrightarrow> lh_next h' a = lh_next (list_del_between (lh_prev h x) (lh_next h x) h) a"
      "\<And>a. a \<noteq> x \<Longrightarrow> lh_prev h' a = lh_prev (list_del_between (lh_prev h x) (lh_next h x) h) a"
  shows "is_list h' hp (ys @ zs)"
proof -
  let ?p = "last (hp # ys)" and ?q = "hd (zs @ [hp])"
  have c: "chain h hp ys x" "chain h x zs hp" and d: "distinct (hp # ys @ x # zs)"
    using l by (auto simp: is_list_def chain_append)
  have pq: "lh_prev h x = ?p" "lh_next h x = ?q" using chain_ends c by auto
  have p: "?p \<in> set (hp # ys)" by (rule last_in_set) simp
  have q: "?q \<in> set (hp # zs)" by (cases zs) auto
  have N: "lh_next h' a = (if a = ?p then ?q else lh_next h a)" if "a \<noteq> x" for a
    using h'(1) [OF that] by (simp add: list_del_between_def pq)
  have P: "lh_prev h' a = (if a = ?q then ?p else lh_prev h a)" if "a \<noteq> x" for a
    using h'(2) [OF that] by (simp add: list_del_between_def pq)
  have x: "x \<noteq> ?p" "x \<noteq> ?q" using p q d by auto
  have "chain h' hp ys ?q"
  proof (rule chain_retarget [OF c(1)])
    show "lh_next h' ?p = ?q" using N x by simp
    show "lh_prev h' ?q = ?p" using P x by simp
    have dy: "distinct (hp # ys)" using d by simp
    show "lh_next h' a = lh_next h a" if "a \<in> set (butlast (hp # ys))" for a
      using N [of a] last_notin_butlast [OF dy that] in_set_butlastD [OF that] d by (auto split: if_splits)
    show "lh_prev h' a = lh_prev h a" if "a \<in> set ys" for a
    proof -
      have "a \<noteq> x" "a \<noteq> ?q" using that q d by auto
      then show ?thesis using P by simp
    qed
  qed
  moreover have "chain h' z zs' hp" if "zs = z # zs'" for z zs'
  proof -
    have "chain h z zs' hp" using c(2) that by simp
    then show ?thesis
    proof (rule chain_frame)
      fix a assume "a \<in> set (z # zs')"
      then have "a \<noteq> x" "a \<noteq> ?p" using that d p by auto
      then show "lh_next h' a = lh_next h a" using N by simp
    next
      fix a assume "a \<in> set (zs' @ [hp])"
      then have "a \<noteq> x" "a \<noteq> ?q" using that d by auto
      then show "lh_prev h' a = lh_prev h a" using P by simp
    qed
  qed
  ultimately have "chain h' hp (ys @ zs) hp" by (cases zs) (auto simp: chain_append)
  then show ?thesis using d by (auto simp: is_list_def)
qed

lemma list_del_is_list:
  assumes "is_list h hp (ys @ x # zs)"
  shows "is_list (list_del x h) hp (ys @ zs)"
    and "lh_next (list_del x h) x = LIST_POISON1" "lh_prev (list_del x h) x = LIST_POISON2"
  by (rule list_unlink [OF assms]) (simp_all add: list_del_def Let_def)

lemma list_del_init_is_list:
  assumes "is_list h hp (ys @ x # zs)"
  shows "is_list (list_del_init x h) hp (ys @ zs)" and "is_list (list_del_init x h) x []"
   apply (rule list_unlink [OF assms])
    apply (simp_all add: list_del_init_def INIT_LIST_HEAD_def is_list_def linked_def)
  done

text \<open>The addresses an operation may write, and that it writes nothing else.\<close>

definition same_links :: "addr \<Rightarrow> lheap \<Rightarrow> lheap \<Rightarrow> bool" where
  "same_links a h h' \<longleftrightarrow> lh_next h' a = lh_next h a \<and> lh_prev h' a = lh_prev h a"

lemma list_add_same:
  assumes "is_list h hp xs" "a \<notin> set (hp # xs)" "a \<noteq> new"
  shows "same_links a h (list_add new hp h)"
  using assms is_list_ends(1) [OF assms(1)]
  by (cases xs) (auto simp: same_links_def list_add_def list_add_between_def Let_def)

lemma list_add_tail_same:
  assumes "is_list h hp xs" "a \<notin> set (hp # xs)" "a \<noteq> new"
  shows "same_links a h (list_add_tail new hp h)"
proof -
  have "lh_prev h hp \<in> set (hp # xs)" using is_list_ends(2) [OF assms(1)] last_in_set [of "hp # xs"] by simp
  then show ?thesis
    using assms by (auto simp: same_links_def list_add_tail_def list_add_between_def Let_def)
qed

lemma is_list_neighbours:
  assumes "is_list h hp (ys @ x # zs)"
  shows "lh_prev h x \<in> set (hp # ys)" "lh_next h x \<in> set (hp # zs)"
proof -
  have c: "chain h hp ys x" "chain h x zs hp" using assms by (auto simp: is_list_def chain_append)
  show "lh_prev h x \<in> set (hp # ys)" using chain_ends(1) [OF c(1)] last_in_set [of "hp # ys"] by simp
  show "lh_next h x \<in> set (hp # zs)" using chain_ends(2) [OF c(2)] by (cases zs) auto
qed

lemma list_del_same:
  assumes "is_list h hp (ys @ x # zs)" "a \<notin> set (hp # ys @ x # zs)"
  shows "same_links a h (list_del x h)" "same_links a h (list_del_init x h)"
    "same_links a h (list_del_between (lh_prev h x) (lh_next h x) h)"
  using assms is_list_neighbours [OF assms(1)]
  by (auto simp: same_links_def list_del_def list_del_init_def INIT_LIST_HEAD_def list_del_between_def Let_def)

lemma is_list_same:
  assumes "is_list h hp xs" "\<And>a. a \<in> set (hp # xs) \<Longrightarrow> same_links a h h'"
  shows "is_list h' hp xs"
  using assms by (intro is_list_frame [OF assms(1)]) (auto simp: same_links_def)

lemma list_move_is_list:
  assumes x: "is_list h hp (ys @ x # zs)" and o: "is_list h hq ws" and d: "set (hp # ys @ x # zs) \<inter> set (hq # ws) = {}"
  shows "is_list (list_move x hq h) hp (ys @ zs)" "is_list (list_move x hq h) hq (x # ws)"
    and "is_list (list_move_tail x hq h) hp (ys @ zs)" "is_list (list_move_tail x hq h) hq (ws @ [x])"
proof -
  let ?h = "list_del_between (lh_prev h x) (lh_next h x) h"
  have a: "is_list ?h hp (ys @ zs)" by (rule list_unlink [OF x]) simp_all
  have b: "is_list ?h hq ws"
    using d by (intro is_list_same [OF o] list_del_same(3) [OF x]) auto
  have nx: "x \<notin> set (hq # ws)" using d by auto
  have xs: "distinct (hp # ys @ x # zs)" using x by (simp add: is_list_def)
  show "is_list (list_move x hq h) hq (x # ws)"
    unfolding list_move_def by (rule list_add_is_list [OF b nx])
  show "is_list (list_move_tail x hq h) hq (ws @ [x])"
    unfolding list_move_tail_def by (rule list_add_tail_is_list [OF b nx])
  show "is_list (list_move x hq h) hp (ys @ zs)"
    unfolding list_move_def using d xs by (intro is_list_same [OF a] list_add_same [OF b]) auto
  show "is_list (list_move_tail x hq h) hp (ys @ zs)"
    unfolding list_move_tail_def using d xs by (intro is_list_same [OF a] list_add_tail_same [OF b]) auto
qed

lemma list_splice_at_is_list:
  assumes l: "is_list h lp ys" "ys \<noteq> []" and x: "is_list h hp xs" and d: "set (lp # ys) \<inter> set (hp # xs) = {}"
  shows "is_list (list_splice_at lp hp h) hp (ys @ xs)"
proof -
  obtain y ys' where ys: "ys = y # ys'" using l(2) by (cases ys) auto
  let ?h = "list_splice_at lp hp h" and ?at = "hd (xs @ [hp])"
  have f: "lh_next h lp = y" "lh_prev h lp = last ys" using is_list_ends [OF l(1)] ys by auto
  have at: "lh_next h hp = ?at" using is_list_ends(1) [OF x] by simp
  have c: "chain h y ys' lp" and dy: "distinct (lp # ys)" using l(1) ys by (auto simp: is_list_def)
  have cx: "chain h hp xs hp" and dx: "distinct (hp # xs)" using x by (auto simp: is_list_def)
  have la: "last ys \<in> set ys" using l(2) by simp
  have ata: "?at \<in> set (hp # xs)" by (cases xs) auto
  have N: "lh_next ?h a = (if a = last ys then ?at else if a = hp then y else lh_next h a)" for a
    by (simp add: list_splice_at_def Let_def f at)
  have P: "lh_prev ?h a = (if a = ?at then last ys else if a = y then hp else lh_prev h a)" for a
    by (simp add: list_splice_at_def Let_def f at)
  have hy: "hp \<noteq> last ys" "y \<noteq> ?at" using d la ata ys by auto
  have "linked ?h hp y" using hy by (simp add: linked_def N P)
  moreover have "chain ?h y ys' ?at"
  proof (rule chain_retarget [OF c])
    show "lh_next ?h (last (y # ys')) = ?at" "lh_prev ?h ?at = last (y # ys')" using ys by (simp_all add: N P)
    show "lh_next ?h a = lh_next h a" if "a \<in> set (butlast (y # ys'))" for a
    proof -
      have "a \<noteq> last ys" using last_notin_butlast [OF _ that] dy ys by simp
      moreover have "a \<noteq> hp" using in_set_butlastD [OF that] d ys by auto
      ultimately show ?thesis by (simp add: N)
    qed
    show "lh_prev ?h a = lh_prev h a" if "a \<in> set ys'" for a
      using that dy d ata ys by (auto simp: P)
  qed
  moreover have "chain ?h z xs' hp" if "xs = z # xs'" for z xs'
  proof -
    have "chain h z xs' hp" using cx that by simp
    then show ?thesis
    proof (rule chain_frame)
      fix a assume "a \<in> set (z # xs')"
      then have "a \<noteq> last ys" "a \<noteq> hp" using that d la dx by auto
      then show "lh_next ?h a = lh_next h a" by (simp add: N)
    next
      fix a assume "a \<in> set (xs' @ [hp])"
      then have "a \<noteq> ?at" "a \<noteq> y" using that d dx ys by auto
      then show "lh_prev ?h a = lh_prev h a" by (simp add: P)
    qed
  qed
  ultimately have "chain ?h hp (y # ys' @ xs) hp" by (cases xs) (auto simp: chain_append)
  then show ?thesis using dx dy d ys by (auto simp: is_list_def)
qed

lemma list_splice_is_list:
  assumes l: "is_list h lp ys" and x: "is_list h hp xs" and d: "set (lp # ys) \<inter> set (hp # xs) = {}"
  shows "is_list (list_splice lp hp h) hp (ys @ xs)"
    and "is_list (list_splice_init lp hp h) hp (ys @ xs)" "is_list (list_splice_init lp hp h) lp []"
proof -
  have e: "list_empty lp h \<longleftrightarrow> ys = []" by (rule is_list_empty_iff [OF l])
  have s: "ys \<noteq> [] \<Longrightarrow> is_list (list_splice_at lp hp h) hp (ys @ xs)"
    using list_splice_at_is_list [OF l _ x d] .
  show "is_list (list_splice lp hp h) hp (ys @ xs)"
    using x s by (cases "ys = []") (simp_all add: list_splice_def e)
  show "is_list (list_splice_init lp hp h) lp []"
    using l INIT_LIST_HEAD_is_list by (cases "ys = []") (simp_all add: list_splice_init_def e)
  show "is_list (list_splice_init lp hp h) hp (ys @ xs)"
  proof (cases "ys = []")
    case True
    then show ?thesis using x by (simp add: list_splice_init_def e)
  next
    case False
    have "is_list (INIT_LIST_HEAD lp (list_splice_at lp hp h)) hp (ys @ xs)"
      using d l by (intro is_list_same [OF s [OF False]])
        (auto simp: same_links_def INIT_LIST_HEAD_def is_list_def)
    then show ?thesis using False by (simp add: list_splice_init_def e)
  qed
qed

lemma list_for_each_chain:
  assumes "chain h p xs hp" "hp \<notin> set xs"
  shows "list_for_each (lh_next h p) hp h = Some xs"
  using assms
proof (induction xs arbitrary: p)
  case Nil
  then show ?case by (simp add: linked_def list_for_each.simps)
next
  case (Cons x xs)
  then show ?case by (subst list_for_each.simps) (auto simp: linked_def)
qed

lemma list_for_each_is_list: "is_list h hp xs \<Longrightarrow> list_for_each (lh_next h hp) hp h = Some xs"
  by (rule list_for_each_chain) (auto simp: is_list_def)

lemma list_for_each_safe_unlink:
  assumes "is_list h hp xs"
    and body: "\<And>h x xs. is_list h hp (x # xs) \<Longrightarrow> is_list (body x h) hp xs"
  shows "\<exists>h'. list_for_each_safe body (lh_next h hp) (lh_next h (lh_next h hp)) hp h = Some h' \<and> is_list h' hp []"
  using assms(1)
proof (induction xs arbitrary: h)
  case Nil
  then have "lh_next h hp = hp" by (simp add: is_list_def linked_def)
  then show ?case using Nil by (subst list_for_each_safe.simps) simp
next
  case (Cons x xs)
  have x: "lh_next h hp = x" "x \<noteq> hp" "lh_next h x = hd (xs @ [hp])"
    using Cons.prems chain_ends(2) by (auto simp: is_list_def linked_def)
  have l: "is_list (body x h) hp xs" by (rule body [OF Cons.prems])
  have "lh_next (body x h) hp = hd (xs @ [hp])" by (rule is_list_ends(1) [OF l])
  with Cons.IH [OF l] show ?case
    using x by (subst list_for_each_safe.simps) (simp add: Let_def)
qed

section \<open>The interface the page policies use\<close>

text \<open>A family of lists named by their heads: adding at either end, removing a node,
  looking at the first one.\<close>

locale node_lists =
  fixes holds :: "'h \<Rightarrow> 'a \<Rightarrow> 'a list \<Rightarrow> bool" and push enqueue :: "'a \<Rightarrow> 'a \<Rightarrow> 'h \<Rightarrow> 'h"
    and remove :: "'a \<Rightarrow> 'h \<Rightarrow> 'h" and first :: "'a \<Rightarrow> 'h \<Rightarrow> 'a" and isempty :: "'a \<Rightarrow> 'h \<Rightarrow> bool"
  assumes holds_distinct: "holds h p xs \<Longrightarrow> distinct (p # xs)"
    and holds_push: "holds h p xs \<Longrightarrow> x \<notin> set (p # xs) \<Longrightarrow> holds (push x p h) p (x # xs)"
    and holds_enqueue: "holds h p xs \<Longrightarrow> x \<notin> set (p # xs) \<Longrightarrow> holds (enqueue x p h) p (xs @ [x])"
    and holds_remove: "holds h p (ys @ x # zs) \<Longrightarrow> holds (remove x h) p (ys @ zs)"
    and holds_first: "holds h p (x # xs) \<Longrightarrow> first p h = x"
    and holds_empty: "holds h p xs \<Longrightarrow> isempty p h \<longleftrightarrow> xs = []"

text \<open>Taking up to \<open>n\<close> nodes from the front of a list, and returning nodes to its end.\<close>

fun take_first :: "('a \<Rightarrow> 'h \<Rightarrow> 'h) \<Rightarrow> ('a \<Rightarrow> 'h \<Rightarrow> 'a) \<Rightarrow> ('a \<Rightarrow> 'h \<Rightarrow> bool) \<Rightarrow> nat \<Rightarrow> 'a \<Rightarrow> 'h \<Rightarrow> 'a list \<times> 'h" where
  "take_first remove first isempty 0 p h = ([], h)"
| "take_first remove first isempty (Suc n) p h =
     (if isempty p h then ([], h)
      else let x = first p h; (xs, h') = take_first remove first isempty n p (remove x h) in (x # xs, h'))"

context node_lists
begin

lemma take_first_holds:
  assumes "holds h p xs"
  shows "\<exists>h'. take_first remove first isempty n p h = (take n xs, h') \<and> holds h' p (drop n xs)"
  using assms
proof (induction n arbitrary: h xs)
  case (Suc n)
  show ?case
  proof (cases xs)
    case Nil
    then show ?thesis using Suc.prems holds_empty by auto
  next
    case (Cons x ys)
    have "holds (remove x h) p ys" using holds_remove [of h p "[]" x ys] Suc.prems Cons by simp
    from Suc.IH [OF this] show ?thesis
      using Suc.prems Cons holds_empty [OF Suc.prems] holds_first [of h p x ys] by (auto simp: Let_def)
  qed
qed auto

lemma enqueue_all_holds:
  assumes "holds h p xs" "distinct ys" "set ys \<inter> set (p # xs) = {}"
  shows "holds (fold (\<lambda>x. enqueue x p) ys h) p (xs @ ys)"
  using assms
proof (induction ys arbitrary: h xs)
  case (Cons y ys)
  have "holds (enqueue y p h) p (xs @ [y])" using Cons.prems by (intro holds_enqueue) auto
  from Cons.IH [OF this] show ?case using Cons.prems by auto
qed simp

end

interpretation list_h: node_lists is_list list_add list_add_tail list_del list_first_entry list_empty
proof (unfold_locales, goal_cases)
  case (1 h p xs)
  then show ?case by (simp add: is_list_def)
next
  case (2 h p xs x)
  then show ?case by (rule list_add_is_list)
next
  case (3 h p xs x)
  then show ?case by (rule list_add_tail_is_list)
next
  case (4 h p ys x zs)
  then show ?case by (rule list_del_is_list(1))
next
  case (5 h p x xs)
  then show ?case by (simp add: is_list_def linked_def list_first_entry_def)
next
  case (6 h p xs)
  then show ?case by (rule is_list_empty_iff)
qed

section \<open>Properties\<close>

text \<open>\<open>list_add\<close> puts a fresh node in front and \<open>list_add_tail\<close> at the end of the list,
  and a list that shares no node with it is not affected.\<close>

theorem list_add_refines:
  assumes "is_list h hp xs" "new \<notin> set (hp # xs)"
  shows "is_list (list_add new hp h) hp (new # xs) \<and> is_list (list_add_tail new hp h) hp (xs @ [new]) \<and>
    (\<forall>hq ys. is_list h hq ys \<longrightarrow> set (hq # ys) \<inter> set (new # hp # xs) = {} \<longrightarrow>
      is_list (list_add new hp h) hq ys \<and> is_list (list_add_tail new hp h) hq ys)"
proof (intro conjI allI impI)
  show "is_list (list_add new hp h) hp (new # xs)" by (rule list_add_is_list [OF assms])
  show "is_list (list_add_tail new hp h) hp (xs @ [new])" by (rule list_add_tail_is_list [OF assms])
next
  fix hq ys assume o: "is_list h hq ys" and d: "set (hq # ys) \<inter> set (new # hp # xs) = {}"
  show "is_list (list_add new hp h) hq ys"
    using d by (intro is_list_same [OF o] list_add_same [OF assms(1)]) auto
  show "is_list (list_add_tail new hp h) hq ys"
    using d by (intro is_list_same [OF o] list_add_tail_same [OF assms(1)]) auto
qed

definition links0 :: lheap where
  "links0 = \<lparr>lh_next = (\<lambda>a. a), lh_prev = (\<lambda>a. a)\<rparr>"

lemma links0_empty: "is_list links0 a []"
  by (simp add: links0_def is_list_def linked_def)

theorem list_add_refines_witness:
  "is_list (list_add_tail 2 1 (list_add 3 1 links0)) 1 [3, 2]"
proof -
  have "is_list (list_add 3 1 links0) 1 [3]" using list_add_refines [OF links0_empty, of 3 1] by simp
  from list_add_refines [OF this, of 2] show ?thesis by simp
qed

text \<open>C6: deleting a node from the middle of a list leaves the others in order; \<open>list_del\<close>
  poisons the node's links and \<open>list_del_init\<close> makes it an empty list of its own;
  lists sharing no node with it are not affected.\<close>

theorem list_del_refines:
  assumes "is_list h hp (ys @ x # zs)"
  shows "is_list (list_del x h) hp (ys @ zs) \<and> lh_next (list_del x h) x = LIST_POISON1 \<and>
    lh_prev (list_del x h) x = LIST_POISON2 \<and>
    is_list (list_del_init x h) hp (ys @ zs) \<and> is_list (list_del_init x h) x [] \<and>
    (\<forall>hq ws. is_list h hq ws \<longrightarrow> set (hq # ws) \<inter> set (hp # ys @ x # zs) = {} \<longrightarrow>
      is_list (list_del x h) hq ws \<and> is_list (list_del_init x h) hq ws)"
proof (intro conjI allI impI)
  fix hq ws assume o: "is_list h hq ws" and d: "set (hq # ws) \<inter> set (hp # ys @ x # zs) = {}"
  show "is_list (list_del x h) hq ws"
    using d by (intro is_list_same [OF o] list_del_same(1) [OF assms]) auto
  show "is_list (list_del_init x h) hq ws"
    using d by (intro is_list_same [OF o] list_del_same(2) [OF assms]) auto
qed (use list_del_is_list [OF assms] list_del_init_is_list [OF assms] in auto)

theorem list_del_refines_witness:
  "is_list (list_del 3 (list_add 3 1 links0)) 1 [] \<and> lh_next (list_del 3 (list_add 3 1 links0)) 3 = 0x00100100"
proof -
  have "is_list (list_add 3 1 links0) 1 ([] @ 3 # [])" using list_add_is_list [OF links0_empty, of 3 1] by simp
  from list_del_refines [OF this] show ?thesis by (simp add: LIST_POISON1_def)
qed

text \<open>\<open>list_move\<close> and \<open>list_move_tail\<close> take a node out of its list and put it at the front or
  at the end of another.\<close>

theorem list_move_refines:
  assumes "is_list h hp (ys @ x # zs)" "is_list h hq ws" "set (hp # ys @ x # zs) \<inter> set (hq # ws) = {}"
  shows "is_list (list_move x hq h) hp (ys @ zs) \<and> is_list (list_move x hq h) hq (x # ws) \<and>
    is_list (list_move_tail x hq h) hp (ys @ zs) \<and> is_list (list_move_tail x hq h) hq (ws @ [x])"
  using list_move_is_list [OF assms] by blast

theorem list_move_refines_witness:
  "is_list (list_move 3 9 (list_add 3 1 links0)) 1 [] \<and> is_list (list_move 3 9 (list_add 3 1 links0)) 9 [3]"
proof -
  have a: "is_list (list_add 3 1 links0) 1 ([] @ 3 # [])" using list_add_is_list [OF links0_empty, of 3 1] by simp
  have b: "is_list (list_add 3 1 links0) 9 []"
    by (rule is_list_same [OF links0_empty], rule list_add_same [OF links0_empty]) auto
  show ?thesis using list_move_refines [OF a b] by simp
qed

text \<open>Splicing one list into another puts all its nodes, in order, in front of the
  other's; with \<open>list_splice_init\<close> the spliced list is then empty.\<close>

theorem list_splice_refines:
  assumes "is_list h lp ys" "is_list h hp xs" "set (lp # ys) \<inter> set (hp # xs) = {}"
  shows "is_list (list_splice lp hp h) hp (ys @ xs) \<and> is_list (list_splice_init lp hp h) hp (ys @ xs) \<and>
    is_list (list_splice_init lp hp h) lp []"
  using list_splice_is_list [OF assms] by blast

theorem list_splice_refines_witness:
  "is_list (list_splice_init 9 1 (list_add 8 9 links0)) 1 [8] \<and> is_list (list_splice_init 9 1 (list_add 8 9 links0)) 9 []"
proof -
  have a: "is_list (list_add 8 9 links0) 9 [8]" using list_add_is_list [OF links0_empty, of 8 9] by simp
  have b: "is_list (list_add 8 9 links0) 1 []"
    by (rule is_list_same [OF links0_empty], rule list_add_same [OF links0_empty]) auto
  show ?thesis using list_splice_refines [OF a b] by simp
qed

text \<open>\<open>list_for_each\<close> ends and visits exactly the nodes of the list in order, and
  \<open>list_for_each_safe\<close> that deletes every node it visits ends with the empty list.\<close>

theorem list_traversals:
  assumes "is_list h hp xs"
  shows "list_for_each (lh_next h hp) hp h = Some xs \<and>
    (\<exists>h'. list_for_each_safe list_del (lh_next h hp) (lh_next h (lh_next h hp)) hp h = Some h' \<and> is_list h' hp [])"
  using list_for_each_is_list [OF assms] list_for_each_safe_unlink [OF assms, of list_del]
    list_del_is_list(1) [of _ hp "[]"] by auto

theorem list_traversals_witness: "list_for_each (lh_next (list_add 3 1 links0) 1) 1 (list_add 3 1 links0) = Some [3]"
  using list_traversals [OF list_add_is_list [OF links0_empty, of 3 1]] by simp

end
