(* ===== verification/List_Sort.thy ===== *)
theory List_Sort
  imports Linked_List
begin

text \<open>
  The bottom-up merge sort of \<open>daemon/impl/usm/list_sort.c\<close> on the linked lists of
  \<open>Linked_List\<close>, at the level of its pointers: \<open>NULL\<close> is the address 0, a pointer to
  a pointer (\<open>tail\<close>) is a \<open>slot\<close>, either the local variable it may point to or the
  link field of a node.  The comparison is a parameter on node addresses.  \<open>merge\<close>
  is shown to compute the merge of two null-terminated lists; the pending lists
  are shown to have the sizes the counter prescribes, so that no link is followed
  past the end of the list of lists; and \<open>list_sort\<close> is shown to return and to
  leave the circular list sorted and stable.
\<close>

section \<open>Pointers to pointers\<close>

datatype slot = Local | Field addr

fun load_next :: "slot \<Rightarrow> addr \<times> lheap \<Rightarrow> addr" where
  "load_next Local (v, h) = v"
| "load_next (Field a) (v, h) = lh_next h a"

fun store_next :: "slot \<Rightarrow> addr \<Rightarrow> addr \<times> lheap \<Rightarrow> addr \<times> lheap" where
  "store_next Local x (v, h) = (x, h)"
| "store_next (Field a) x (v, h) = (v, set_next a x h)"

fun load_prev :: "slot \<Rightarrow> addr \<times> lheap \<Rightarrow> addr" where
  "load_prev Local (v, h) = v"
| "load_prev (Field a) (v, h) = lh_prev h a"

fun store_prev :: "slot \<Rightarrow> addr \<Rightarrow> addr \<times> lheap \<Rightarrow> addr \<times> lheap" where
  "store_prev Local x (v, h) = (x, h)"
| "store_prev (Field a) x (v, h) = (v, set_prev a x h)"

section \<open>The functions of list_sort.c\<close>

text \<open>\<open>head\<close> is the local variable of \<open>merge\<close>.\<close>

partial_function (option) merge_loop ::
  "(addr \<Rightarrow> addr \<Rightarrow> int) \<Rightarrow> slot \<Rightarrow> addr \<Rightarrow> addr \<Rightarrow> addr \<Rightarrow> lheap \<Rightarrow> (addr \<times> lheap) option" where
  "merge_loop cmp tail head a b h =
    (if cmp a b \<le> 0 then
       (let (head, h) = store_next tail a (head, h);
            tail = Field a;
            a = lh_next h a
        in if a = 0 then Some (store_next tail b (head, h)) else merge_loop cmp tail head a b h)
     else
       (let (head, h) = store_next tail b (head, h);
            tail = Field b;
            b = lh_next h b
        in if b = 0 then Some (store_next tail a (head, h)) else merge_loop cmp tail head a b h))"

definition merge :: "(addr \<Rightarrow> addr \<Rightarrow> int) \<Rightarrow> addr \<Rightarrow> addr \<Rightarrow> lheap \<Rightarrow> (addr \<times> lheap) option" where
  "merge cmp a b h = merge_loop cmp Local 0 a b h"

partial_function (option) merge_final_loop ::
  "(addr \<Rightarrow> addr \<Rightarrow> int) \<Rightarrow> addr \<Rightarrow> addr \<Rightarrow> addr \<Rightarrow> lheap \<Rightarrow> (addr \<times> addr \<times> lheap) option" where
  "merge_final_loop cmp tail a b h =
    (if cmp a b \<le> 0 then
       (let h = set_prev a tail (set_next tail a h);
            tail = a;
            a = lh_next h a
        in if a = 0 then Some (tail, b, h) else merge_final_loop cmp tail a b h)
     else
       (let h = set_prev b tail (set_next tail b h);
            tail = b;
            b = lh_next h b
        in if b = 0 then Some (tail, a, h) else merge_final_loop cmp tail a b h))"

text \<open>The \<open>do \<dots> while (b)\<close> loop; its occasional call \<open>cmp(priv, b, b)\<close> only gives the
  client a chance to run and has no result here.\<close>

partial_function (option) link_rest :: "addr \<Rightarrow> addr \<Rightarrow> lheap \<Rightarrow> (addr \<times> lheap) option" where
  "link_rest tail b h =
    (let h = set_prev b tail h; tail = b; b = lh_next h b
     in if b \<noteq> 0 then link_rest tail b h else Some (tail, h))"

definition merge_final :: "(addr \<Rightarrow> addr \<Rightarrow> int) \<Rightarrow> addr \<Rightarrow> addr \<Rightarrow> addr \<Rightarrow> lheap \<Rightarrow> lheap option" where
  "merge_final cmp head a b h =
     Option.bind (merge_final_loop cmp head a b h) (\<lambda>(tail, b, h).
       Option.bind (link_rest tail b (set_next tail b h)) (\<lambda>(tail, h).
         Some (set_prev head tail (set_next tail head h))))"

text \<open>\<open>for (bits = count; bits & 1; bits >>= 1) tail = &(*tail)->prev;\<close>\<close>

function find_tail :: "nat \<Rightarrow> slot \<Rightarrow> addr \<Rightarrow> lheap \<Rightarrow> nat \<times> slot" where
  "find_tail bits tail pending h =
    (if odd bits then find_tail (bits div 2) (Field (load_prev tail (pending, h))) pending h
     else (bits, tail))"
  by pat_completeness auto
termination by (relation "measure (\<lambda>(bits, _). bits)") (auto elim: oddE)

declare find_tail.simps [simp del]

text \<open>Do the indicated merge.\<close>

definition merge_pending ::
  "(addr \<Rightarrow> addr \<Rightarrow> int) \<Rightarrow> nat \<times> slot \<Rightarrow> addr \<Rightarrow> lheap \<Rightarrow> (addr \<times> lheap) option" where
  "merge_pending cmp = (\<lambda>(bits, tail) pending h.
    if bits \<noteq> 0 then
      (let a = load_prev tail (pending, h); b = lh_prev h a in
       Option.bind (merge cmp b a h) (\<lambda>(a, h).
         Some (store_prev tail a (pending, set_prev a (lh_prev h b) h))))
    else Some (pending, h))"

text \<open>The \<open>do \<dots> while (list)\<close> loop: merge, then move one element from the input list to
  \<open>pending\<close>.\<close>

partial_function (option) sort_loop ::
  "(addr \<Rightarrow> addr \<Rightarrow> int) \<Rightarrow> addr \<Rightarrow> addr \<Rightarrow> nat \<Rightarrow> lheap \<Rightarrow> (addr \<times> lheap) option" where
  "sort_loop cmp list pending cnt h =
    Option.bind (merge_pending cmp (find_tail cnt Local pending h) pending h) (\<lambda>(pending, h).
      let h = set_prev list pending h;
          pending = list;
          list = lh_next h list;
          h = set_next pending 0 h
      in if list \<noteq> 0 then sort_loop cmp list pending (cnt + 1) h else Some (pending, h))"

partial_function (option) final_loop ::
  "(addr \<Rightarrow> addr \<Rightarrow> int) \<Rightarrow> addr \<Rightarrow> addr \<Rightarrow> lheap \<Rightarrow> (addr \<times> addr \<times> lheap) option" where
  "final_loop cmp list pending h =
    (let nxt = lh_prev h pending in
     if nxt = 0 then Some (list, pending, h)
     else Option.bind (merge cmp pending list h) (\<lambda>(list, h). final_loop cmp list nxt h))"

definition list_sort :: "(addr \<Rightarrow> addr \<Rightarrow> int) \<Rightarrow> addr \<Rightarrow> lheap \<Rightarrow> lheap option" where
  "list_sort cmp head h =
    (let list = lh_next h head in
     if list = lh_prev h head then Some h
     else
       Option.bind (sort_loop cmp list 0 0 (set_next (lh_prev h head) 0 h)) (\<lambda>(pending, h).
         Option.bind (final_loop cmp pending (lh_prev h pending) h) (\<lambda>(list, pending, h).
           merge_final cmp head pending list h)))"

section \<open>Null-terminated lists\<close>

fun path :: "lheap \<Rightarrow> addr \<Rightarrow> addr list \<Rightarrow> bool" where
  "path h p [] \<longleftrightarrow> p = 0"
| "path h p (x # xs) \<longleftrightarrow> p = x \<and> x \<noteq> 0 \<and> path h (lh_next h x) xs"

fun merge_list :: "(addr \<Rightarrow> addr \<Rightarrow> int) \<Rightarrow> addr list \<Rightarrow> addr list \<Rightarrow> addr list" where
  "merge_list cmp (a # as) (b # bs) =
     (if cmp a b \<le> 0 then a # merge_list cmp as (b # bs) else b # merge_list cmp (a # as) bs)"
| "merge_list cmp [] bs = bs"
| "merge_list cmp as [] = as"

lemma path_frame: "path h p xs \<Longrightarrow> (\<And>x. x \<in> set xs \<Longrightarrow> lh_next h' x = lh_next h x) \<Longrightarrow> path h' p xs"
  by (induction xs arbitrary: p) auto

lemma path_0 [simp]: "path h 0 xs \<longleftrightarrow> xs = []"
  by (cases xs) auto

lemma path_nonzero: "path h p xs \<Longrightarrow> p = 0 \<longleftrightarrow> xs = []"
  by (cases xs) auto

lemma set_merge_list [simp]: "set (merge_list cmp xs ys) = set xs \<union> set ys"
  by (induction cmp xs ys rule: merge_list.induct) auto

lemma length_merge_list [simp]: "length (merge_list cmp xs ys) = length xs + length ys"
  by (induction cmp xs ys rule: merge_list.induct) auto

lemma distinct_merge_list: "distinct (xs @ ys) \<Longrightarrow> distinct (merge_list cmp xs ys)"
  by (induction cmp xs ys rule: merge_list.induct) auto

lemma merge_list_Nil2 [simp]: "merge_list cmp xs [] = xs"
  by (cases xs) auto

text \<open>What a run of the loop from \<open>tail\<close> achieves: \<open>*tail\<close> ends up pointing to the
  null-terminated list \<open>zs\<close>, and only the links of \<open>S\<close> and \<open>*tail\<close> itself change.\<close>

definition merged :: "slot \<Rightarrow> addr \<Rightarrow> lheap \<Rightarrow> addr set \<Rightarrow> addr list \<Rightarrow> (addr \<times> lheap) option \<Rightarrow> bool" where
  "merged tail head h S zs res \<longleftrightarrow>
    (\<exists>head' h'. res = Some (head', h') \<and> path h' (load_next tail (head', h')) zs \<and> lh_prev h' = lh_prev h \<and>
      (\<forall>x. x \<notin> S \<longrightarrow> tail \<noteq> Field x \<longrightarrow> lh_next h' x = lh_next h x) \<and> (tail \<noteq> Local \<longrightarrow> head' = head))"

lemma merged_Cons:
  assumes "merged (Field x) head1 h1 S zs res" "store_next tail x (head, h) = (head1, h1)"
    "x \<noteq> 0" "tail \<noteq> Field x" "\<And>t. tail = Field t \<Longrightarrow> t \<notin> S"
  shows "merged tail head h (insert x S) (x # zs) res"
proof (cases tail)
  case Local
  then show ?thesis using assms unfolding merged_def by auto
next
  case (Field t)
  then show ?thesis using assms unfolding merged_def by auto
qed

lemma merged_last:
  assumes "path h y ys" "x \<notin> set ys"
  shows "merged (Field x) head h S ys (Some (store_next (Field x) y (head, h)))"
  using assms by (auto simp: merged_def intro: path_frame)

lemma store_next_path:
  assumes "store_next tail v (head, h) = (head1, h1)" "path h p xs" "\<And>t. tail = Field t \<Longrightarrow> t \<notin> set xs"
  shows "path h1 p xs"
  using assms by (cases tail) (auto intro: path_frame)

lemma merge_loop_ok:
  assumes "path h a xs" "path h b ys" "xs \<noteq> []" "ys \<noteq> []" "distinct (xs @ ys)" "\<And>t. tail = Field t \<Longrightarrow> t \<notin> set (xs @ ys)"
  shows "merged tail head h (set (xs @ ys)) (merge_list cmp xs ys) (merge_loop cmp tail head a b h)"
  using assms
proof (induction cmp xs ys arbitrary: tail head a b h rule: merge_list.induct)
  case (1 cmp x xs y ys)
  then have ab: "a = x" "b = y" "x \<noteq> 0" "y \<noteq> 0" by auto
  have tn: "tail \<noteq> Field x" "tail \<noteq> Field y" using 1(8) by auto
  show ?case
  proof (cases "cmp x y \<le> 0")
    case True
    obtain hd1 h1 where s: "store_next tail x (head, h) = (hd1, h1)" by (cases "store_next tail x (head, h)")
    have p: "path h1 x (x # xs)" "path h1 y (y # ys)"
      using store_next_path [OF s] 1(3,4,8) ab by (metis Un_iff set_append)+
    let ?r = "if lh_next h1 x = 0 then Some (store_next (Field x) y (hd1, h1))
      else merge_loop cmp (Field x) hd1 (lh_next h1 x) y h1"
    have "merged (Field x) hd1 h1 (set (xs @ y # ys)) (merge_list cmp xs (y # ys)) ?r"
    proof (cases "xs = []")
      case xe: True
      have "merged (Field x) hd1 h1 (set (xs @ y # ys)) (y # ys) (Some (store_next (Field x) y (hd1, h1)))"
        using merged_last [OF p(2)] 1(7) by auto
      then show ?thesis using xe p(1) by simp
    next
      case xn: False
      then show ?thesis using 1(1) [OF True, of h1 "lh_next h1 x" y "Field x" hd1] p 1(7) by (auto dest: path_nonzero)
    qed
    from merged_Cons [OF this s ab(3) tn(1)] 1(8) show ?thesis
      using True ab s by (subst merge_loop.simps) (auto simp: Let_def)
  next
    case False
    obtain hd1 h1 where s: "store_next tail y (head, h) = (hd1, h1)" by (cases "store_next tail y (head, h)")
    have p: "path h1 x (x # xs)" "path h1 y (y # ys)"
      using store_next_path [OF s] 1(3,4,8) ab by (metis Un_iff set_append)+
    let ?r = "if lh_next h1 y = 0 then Some (store_next (Field y) x (hd1, h1))
      else merge_loop cmp (Field y) hd1 x (lh_next h1 y) h1"
    have "merged (Field y) hd1 h1 (set ((x # xs) @ ys)) (merge_list cmp (x # xs) ys) ?r"
    proof (cases "ys = []")
      case ye: True
      have "merged (Field y) hd1 h1 (set ((x # xs) @ ys)) (x # xs) (Some (store_next (Field y) x (hd1, h1)))"
        using merged_last [OF p(1)] 1(7) by auto
      then show ?thesis using ye p(2) by simp
    next
      case yn: False
      then show ?thesis using 1(2) [OF False, of h1 x "lh_next h1 y" "Field y" hd1] p 1(7) by (auto dest: path_nonzero)
    qed
    from merged_Cons [OF this s ab(4) tn(2)] 1(8) show ?thesis
      using False ab s by (subst merge_loop.simps) (auto simp: Let_def insert_commute)
  qed
qed auto

lemma merge_ok:
  assumes "path h a xs" "path h b ys" "xs \<noteq> []" "ys \<noteq> []" "distinct (xs @ ys)"
  obtains c h' where "merge cmp a b h = Some (c, h')" "path h' c (merge_list cmp xs ys)" "lh_prev h' = lh_prev h"
    "\<And>x. x \<notin> set (xs @ ys) \<Longrightarrow> lh_next h' x = lh_next h x"
  using merge_loop_ok [OF assms, of Local 0 cmp] unfolding merge_def merged_def by auto


section \<open>The final merge\<close>

text \<open>\<open>dlinks h t zs\<close>: the nodes \<open>zs\<close> follow \<open>t\<close>, linked both ways.\<close>

fun dlinks :: "lheap \<Rightarrow> addr \<Rightarrow> addr list \<Rightarrow> bool" where
  "dlinks h t [] \<longleftrightarrow> True"
| "dlinks h t (x # xs) \<longleftrightarrow> linked h t x \<and> dlinks h x xs"

definition relinked :: "addr \<Rightarrow> lheap \<Rightarrow> addr set \<Rightarrow> addr list \<Rightarrow> (addr \<times> lheap) option \<Rightarrow> bool" where
  "relinked tail h S zs res \<longleftrightarrow>
    (\<exists>h'. res = Some (last zs, h') \<and> dlinks h' tail zs \<and>
      (\<forall>x. x \<notin> S \<longrightarrow> x \<noteq> tail \<longrightarrow> lh_next h' x = lh_next h x) \<and> (\<forall>x. x \<notin> S \<longrightarrow> lh_prev h' x = lh_prev h x))"

lemma relinked_Cons:
  assumes "relinked x (set_prev x tail (set_next tail x h)) S zs res" "zs \<noteq> []" "x \<noteq> tail" "x \<notin> S" "tail \<notin> S"
  shows "relinked tail h (insert x S) (x # zs) res"
  using assms by (auto simp: relinked_def linked_def)

lemma link_rest_ok:
  assumes "path h b ys" "ys \<noteq> []" "distinct ys" "tail \<notin> set ys" "lh_next h tail = b"
  shows "\<exists>h'. link_rest tail b h = Some (last ys, h') \<and> dlinks h' tail ys \<and> lh_next h' = lh_next h \<and>
    (\<forall>x. x \<notin> set ys \<longrightarrow> lh_prev h' x = lh_prev h x)"
  using assms
proof (induction ys arbitrary: tail b h)
  case (Cons y ys)
  let ?h = "set_prev y tail h"
  have b: "b = y" using Cons.prems(1) by simp
  have e: "link_rest tail b h = (if lh_next h y \<noteq> 0 then link_rest y (lh_next h y) ?h else Some (y, ?h))"
    using b by (subst link_rest.simps) (simp add: Let_def)
  have l: "linked ?h tail y" using Cons.prems(4,5) b by (simp add: linked_def)
  show ?case
  proof (cases "ys = []")
    case True
    have "link_rest tail b h = Some (y, ?h)" using e Cons.prems(1) True by simp
    then show ?thesis using l True by simp
  next
    case False
    have p: "path ?h (lh_next h y) ys" using Cons.prems(1) by (auto intro: path_frame)
    then have n: "lh_next h y \<noteq> 0" using False by (auto dest: path_nonzero)
    obtain h' where h': "link_rest y (lh_next h y) ?h = Some (last ys, h')" "dlinks h' y ys"
      "lh_next h' = lh_next ?h" "\<forall>x. x \<notin> set ys \<longrightarrow> lh_prev h' x = lh_prev ?h x"
      using Cons.IH [OF p False] Cons.prems(3) by (auto simp del: lh_sel(4))
    have "linked h' tail y" using l h'(3,4) Cons.prems(3) by (simp add: linked_def)
    then show ?thesis using e n h' False by simp
  qed
qed simp

definition merge_rest :: "addr \<times> addr \<times> lheap \<Rightarrow> (addr \<times> lheap) option" where
  "merge_rest = (\<lambda>(tail, b, h). link_rest tail b (set_next tail b h))"

lemma merge_rest_ok:
  assumes "path h b ys" "ys \<noteq> []" "distinct ys" "tail \<notin> set ys" "set ys \<subseteq> S"
  shows "relinked tail h S ys (merge_rest (tail, b, h))"
proof -
  have "path (set_next tail b h) b ys" using assms by (auto intro: path_frame)
  then obtain h' where "link_rest tail b (set_next tail b h) = Some (last ys, h')" "dlinks h' tail ys"
    "lh_next h' = lh_next (set_next tail b h)" "\<forall>x. x \<notin> set ys \<longrightarrow> lh_prev h' x = lh_prev h x"
    using link_rest_ok [of "set_next tail b h" b ys tail] assms(2-4) by auto
  then show ?thesis using assms(5) by (auto simp: relinked_def merge_rest_def)
qed

lemma merge_final_loop_ok:
  assumes "path h a xs" "path h b ys" "xs \<noteq> []" "ys \<noteq> []" "distinct (xs @ ys)" "tail \<notin> set (xs @ ys)"
  shows "relinked tail h (set (xs @ ys)) (merge_list cmp xs ys)
    (Option.bind (merge_final_loop cmp tail a b h) merge_rest)"
  using assms
proof (induction cmp xs ys arbitrary: tail a b h rule: merge_list.induct)
  case (1 cmp x xs y ys)
  then have ab: "a = x" "b = y" by auto
  show ?case
  proof (cases "cmp x y \<le> 0")
    case True
    let ?h = "set_prev x tail (set_next tail x h)"
    let ?r = "if lh_next h x = 0 then Some (x, y, ?h) else merge_final_loop cmp x (lh_next h x) y ?h"
    have p: "path ?h (lh_next h x) xs" "path ?h y (y # ys)" using 1(3,4,7,8) by (auto intro: path_frame)
    have t: "lh_next ?h x = lh_next h x" using 1(8) by auto
    have "relinked x ?h (set (xs @ y # ys)) (merge_list cmp xs (y # ys)) (Option.bind ?r merge_rest)"
    proof (cases "xs = []")
      case xe: True
      then show ?thesis using p(1) merge_rest_ok [OF p(2), of x] 1(7) by auto
    next
      case xn: False
      then show ?thesis using 1(1) [OF True p] 1(7) path_nonzero [OF p(1)] by auto
    qed
    from relinked_Cons [OF this] 1(7,8) show ?thesis
      using True ab t by (subst merge_final_loop.simps) (auto simp: Let_def simp flip: length_0_conv)
  next
    case False
    let ?h = "set_prev y tail (set_next tail y h)"
    let ?r = "if lh_next h y = 0 then Some (y, x, ?h) else merge_final_loop cmp y x (lh_next h y) ?h"
    have p: "path ?h x (x # xs)" "path ?h (lh_next h y) ys" using 1(3,4,7,8) by (auto intro: path_frame)
    have t: "lh_next ?h y = lh_next h y" using 1(8) by auto
    have "relinked y ?h (set ((x # xs) @ ys)) (merge_list cmp (x # xs) ys) (Option.bind ?r merge_rest)"
    proof (cases "ys = []")
      case ye: True
      then show ?thesis using p(2) merge_rest_ok [OF p(1), of y] 1(7) by auto
    next
      case yn: False
      then show ?thesis using 1(2) [OF False p] 1(7) path_nonzero [OF p(2)] by auto
    qed
    from relinked_Cons [OF this] 1(7,8) show ?thesis
      using False ab t by (subst merge_final_loop.simps) (auto simp: Let_def insert_commute simp flip: length_0_conv)
  qed
qed auto

lemma dlinks_chain: "dlinks h p xs \<Longrightarrow> lh_next h (last (p # xs)) = q \<Longrightarrow> lh_prev h q = last (p # xs) \<Longrightarrow> chain h p xs q"
  by (induction xs arbitrary: p) (auto simp: linked_def split: if_splits)

lemma dlinks_frame:
  assumes "dlinks h p xs" "\<And>a. a \<in> set (butlast (p # xs)) \<Longrightarrow> lh_next h' a = lh_next h a"
    "\<And>a. a \<in> set xs \<Longrightarrow> lh_prev h' a = lh_prev h a"
  shows "dlinks h' p xs"
  using assms by (induction xs arbitrary: p) (auto simp: linked_def)

lemma merge_final_ok:
  assumes p: "path h a xs" "path h b ys" "xs \<noteq> []" "ys \<noteq> []" and d: "distinct (head # xs @ ys)"
  obtains h' where "merge_final cmp head a b h = Some h'" "is_list h' head (merge_list cmp xs ys)"
    "\<And>x. x \<notin> set (head # xs @ ys) \<Longrightarrow> same_links x h h'"
proof -
  let ?zs = "merge_list cmp xs ys"
  have d': "distinct (head # ?zs)" using d distinct_merge_list [of xs ys cmp] by auto
  have zn: "?zs \<noteq> []" using p(3) by (metis length_merge_list add_is_0 length_0_conv)
  obtain h1 where h1: "Option.bind (merge_final_loop cmp head a b h) merge_rest = Some (last ?zs, h1)" "dlinks h1 head ?zs"
    "\<And>x. x \<notin> set (xs @ ys) \<Longrightarrow> x \<noteq> head \<Longrightarrow> lh_next h1 x = lh_next h x" "\<And>x. x \<notin> set (xs @ ys) \<Longrightarrow> lh_prev h1 x = lh_prev h x"
    using merge_final_loop_ok [OF p, of head cmp] d unfolding relinked_def by auto
  let ?h' = "set_prev head (last ?zs) (set_next (last ?zs) head h1)"
  have r: "merge_final cmp head a b h = Some ?h'"
    using h1(1) by (auto simp: merge_final_def merge_rest_def bind_eq_Some_conv)
  have lz: "last ?zs \<in> set xs \<union> set ys" using last_in_set [OF zn] by simp
  have "dlinks ?h' head ?zs"
    using d' zn last_notin_butlast [OF d'] by (intro dlinks_frame [OF h1(2)]) auto
  then have "chain ?h' head ?zs head" using zn lz d by (intro dlinks_chain) auto
  then have "is_list ?h' head ?zs" using d' by (simp add: is_list_def)
  moreover have "same_links x h ?h'" if "x \<notin> set (head # xs @ ys)" for x
    using h1(3,4) [of x] that lz by (auto simp: same_links_def)
  ultimately show ?thesis using r that by blast
qed

section \<open>The pending lists\<close>

text \<open>The list of lists: sublists null-terminated through \<open>next\<close>, their first nodes
  chained through \<open>prev\<close>.\<close>

fun ppath :: "lheap \<Rightarrow> addr \<Rightarrow> addr list list \<Rightarrow> bool" where
  "ppath h p [] \<longleftrightarrow> p = 0"
| "ppath h p (xs # xss) \<longleftrightarrow> xs \<noteq> [] \<and> path h p xs \<and> ppath h (lh_prev h p) xss"

text \<open>The sizes the counter prescribes, newest first, and the merge of one step.\<close>

function psizes :: "nat \<Rightarrow> nat \<Rightarrow> bool \<Rightarrow> nat list" where
  "psizes c s b = (if c = 0 then []
     else replicate (if odd c then (if b then 1 else 0) else (if b then 2 else 1)) s @ psizes (c div 2) (2 * s) (odd c))"
  by pat_completeness auto
termination by (relation "measure (\<lambda>(c, _). c)") auto

declare psizes.simps [simp del]

function merge_at :: "(addr \<Rightarrow> addr \<Rightarrow> int) \<Rightarrow> nat \<Rightarrow> addr list list \<Rightarrow> addr list list" where
  "merge_at cmp c pss = (if odd c then hd pss # merge_at cmp (c div 2) (tl pss)
     else if c = 0 then pss else merge_list cmp (pss ! 1) (pss ! 0) # drop 2 pss)"
  by pat_completeness auto
termination by (relation "measure (\<lambda>(cmp, c, _). c)") (auto elim: oddE)

declare merge_at.simps [simp del]

lemma psizes_True: "c \<noteq> 0 \<Longrightarrow> psizes c s True = s # psizes c s False"
  by (subst (1 2) psizes.simps) (simp add: numeral_2_eq_2)

lemma psizes_even: "even c \<Longrightarrow> c \<noteq> 0 \<Longrightarrow> psizes c s True = s # s # psizes (c div 2) (2 * s) False"
  by (subst psizes.simps) (simp add: numeral_2_eq_2)

lemma psizes_odd: "odd c \<Longrightarrow> psizes c s True = s # psizes (c div 2) (2 * s) True"
  by (subst psizes.simps) (auto elim: oddE)

lemma psizes_odd_False: "odd c \<Longrightarrow> psizes c s False = psizes (c div 2) (2 * s) True"
  by (subst psizes.simps) (auto elim: oddE)

lemma psizes_even_False: "even c \<Longrightarrow> c \<noteq> 0 \<Longrightarrow> psizes c s False = s # psizes (c div 2) (2 * s) False"
  by (subst psizes.simps) simp

lemma psizes_0 [simp]: "psizes 0 s b = []"
  by (subst psizes.simps) simp

text \<open>Every step merges two lists of the same size, and gives the sizes of the next count.\<close>

lemma merge_at_sizes:
  assumes "map length pss = psizes c s True"
  shows "map length (merge_at cmp c pss) = psizes (Suc c) s False"
  using assms
proof (induction c arbitrary: s pss rule: less_induct)
  case (less c)
  consider "odd c" | "c = 0" | "even c" "c \<noteq> 0" by blast
  then show ?case
  proof cases
    case 1
    then obtain p qs where q: "pss = p # qs" "length p = s" "map length qs = psizes (c div 2) (2 * s) True"
      using less.prems psizes_odd [OF 1, of s] by (auto simp: map_eq_Cons_conv)
    have "map length (merge_at cmp (c div 2) qs) = psizes (Suc (c div 2)) (2 * s) False"
      using less.IH [OF _ q(3)] 1 by (auto elim: oddE)
    moreover have "Suc c div 2 = Suc (c div 2)" using 1 by (auto elim: oddE)
    ultimately show ?thesis
      using 1 q psizes_even_False [of "Suc c" s] by (simp add: merge_at.simps [of cmp c])
  next
    case 2
    then show ?thesis using less.prems by (simp add: merge_at.simps psizes_odd_False)
  next
    case 3
    then obtain p q qs where q: "pss = p # q # qs" "length p = s" "length q = s" "map length qs = psizes (c div 2) (2 * s) False"
      using less.prems psizes_even [OF 3, of s] by (auto simp: map_eq_Cons_conv)
    have "c div 2 \<noteq> 0" using 3 by (auto elim: evenE)
    then have "psizes (c div 2) (2 * s) True = (2 * s) # psizes (c div 2) (2 * s) False" by (rule psizes_True)
    moreover have "Suc c div 2 = c div 2" using 3 by (auto elim: evenE)
    ultimately show ?thesis
      using 3 q psizes_odd_False [of "Suc c" s] by (simp add: merge_at.simps [of cmp c] mult_2)
  qed
qed

lemma merge_at_mset:
  assumes "map length pss = psizes c s True"
  shows "mset (concat (merge_at cmp c pss)) = mset (concat pss)"
  using assms
proof (induction c arbitrary: s pss rule: less_induct)
  case (less c)
  have mm: "mset (merge_list cmp xs ys) = mset xs + mset ys" for xs ys
    by (induction cmp xs ys rule: merge_list.induct) auto
  consider "odd c" | "c = 0" | "even c" "c \<noteq> 0" by blast
  then show ?case
  proof cases
    case 1
    then obtain p qs where q: "pss = p # qs" "map length qs = psizes (c div 2) (2 * s) True"
      using less.prems psizes_odd [OF 1, of s] by (auto simp: map_eq_Cons_conv)
    then show ?thesis
      using less.IH [OF _ q(2)] 1 by (auto elim: oddE simp: merge_at.simps [of cmp c])
  next
    case 3
    then obtain p q qs where "pss = p # q # qs"
      using less.prems psizes_even [OF 3, of s] by (auto simp: map_eq_Cons_conv)
    then show ?thesis using 3 mm by (simp add: merge_at.simps [of cmp c])
  qed (simp add: merge_at.simps)
qed

definition pmerged :: "slot \<Rightarrow> addr \<Rightarrow> lheap \<Rightarrow> addr set \<Rightarrow> addr list list \<Rightarrow> (addr \<times> lheap) option \<Rightarrow> bool" where
  "pmerged tail pending h S zss res \<longleftrightarrow>
    (\<exists>pending' h'. res = Some (pending', h') \<and> ppath h' (load_prev tail (pending', h')) zss \<and>
      (\<forall>x. x \<notin> S \<longrightarrow> lh_next h' x = lh_next h x) \<and>
      (\<forall>x. x \<notin> S \<longrightarrow> tail \<noteq> Field x \<longrightarrow> lh_prev h' x = lh_prev h x) \<and> (tail \<noteq> Local \<longrightarrow> pending' = pending))"

lemma path_hd: "path h p xs \<Longrightarrow> xs \<noteq> [] \<Longrightarrow> p \<in> set xs \<and> p \<noteq> 0"
  by (cases xs) auto

lemma ppath_frame:
  assumes "ppath h p pss" "\<And>x. x \<in> set (concat pss) \<Longrightarrow> lh_next h' x = lh_next h x \<and> lh_prev h' x = lh_prev h x"
  shows "ppath h' p pss"
  using assms
proof (induction pss arbitrary: p)
  case (Cons xs xss)
  then have "p \<in> set xs" "path h' p xs" using path_hd [of h p xs] by (auto intro: path_frame)
  then show ?case using Cons by auto
qed simp

lemma pmerged_Cons:
  assumes "pmerged (Field p) pending h S zss res" "path h p ps" "ps \<noteq> []" "load_prev tail (pending, h) = p"
    "S \<inter> set ps = {}" "\<And>t. tail = Field t \<Longrightarrow> t \<notin> S \<union> set ps"
  shows "pmerged tail pending h (S \<union> set ps) (ps # zss) res"
proof -
  obtain h' where r: "res = Some (pending, h')" "ppath h' (lh_prev h' p) zss"
    "\<And>x. x \<notin> S \<Longrightarrow> lh_next h' x = lh_next h x" "\<And>x. x \<notin> S \<Longrightarrow> p \<noteq> x \<Longrightarrow> lh_prev h' x = lh_prev h x"
    using assms(1) by (auto simp: pmerged_def)
  have p: "p \<in> set ps" using path_hd [OF assms(2,3)] by simp
  have "path h' p ps" using assms(2,5) r(3) by (auto intro!: path_frame [OF assms(2)])
  moreover have "lh_prev h' t = lh_prev h t" if "tail = Field t" for t
    using r(4) [of t] assms(6) [OF that] p by blast
  then have "load_prev tail (pending, h') = p" using assms(4) by (cases tail) auto
  ultimately show ?thesis using r assms(3) p by (auto simp: pmerged_def)
qed

lemma store_prev_effect:
  assumes "store_prev tail v (pending, h) = (pending', h')"
  shows "load_prev tail (pending', h') = v" "lh_next h' = lh_next h" "tail \<noteq> Field x \<Longrightarrow> lh_prev h' x = lh_prev h x"
    "tail \<noteq> Local \<Longrightarrow> pending' = pending"
  using assms by (cases tail; auto)+

lemma merge_two_ok:
  assumes "ppath h (load_prev tail (pending, h)) (ps # qs # pss)" "distinct (concat (ps # qs # pss))" "bits \<noteq> 0"
    "\<And>t. tail = Field t \<Longrightarrow> t \<notin> set (concat (ps # qs # pss))"
  shows "pmerged tail pending h (set (concat (ps # qs # pss))) (merge_list cmp qs ps # pss) (merge_pending cmp (bits, tail) pending h)"
proof -
  let ?a = "load_prev tail (pending, h)" let ?b = "lh_prev h ?a"
  have p: "path h ?b qs" "path h ?a ps" "qs \<noteq> []" "ps \<noteq> []" "distinct (qs @ ps)" "ppath h (lh_prev h ?b) pss"
    using assms(1,2) by auto
  from p(1-5) obtain m h1 where m: "merge cmp ?b ?a h = Some (m, h1)" "path h1 m (merge_list cmp qs ps)"
    "lh_prev h1 = lh_prev h" "\<And>x. x \<notin> set (qs @ ps) \<Longrightarrow> lh_next h1 x = lh_next h x" by (rule merge_ok) blast
  have ne: "merge_list cmp qs ps \<noteq> []" using p(3) by (metis add_is_0 length_0_conv length_merge_list)
  have ms: "m \<in> set qs \<union> set ps" using path_hd [OF m(2) ne] by simp
  let ?h2 = "set_prev m (lh_prev h1 ?b) h1"
  obtain pending' h3 where s: "store_prev tail m (pending, ?h2) = (pending', h3)" by fastforce
  note e = store_prev_effect [OF s]
  have tm: "tail \<noteq> Field m" using assms(4) ms by auto
  have "lh_prev h3 m = lh_prev h ?b" using e(3) [OF tm] m(3) by simp
  moreover have "path h3 m (merge_list cmp qs ps)" using e(2) by (intro path_frame [OF m(2)]) simp
  moreover have "ppath h3 (lh_prev h ?b) pss"
  proof (rule ppath_frame [OF p(6)])
    fix x assume x: "x \<in> set (concat pss)"
    then have "x \<notin> set (qs @ ps)" "tail \<noteq> Field x" "x \<noteq> m" using assms(2,4) ms by auto
    then show "lh_next h3 x = lh_next h x \<and> lh_prev h3 x = lh_prev h x" using e(2,3) m(3,4) by simp
  qed
  ultimately have "ppath h3 (load_prev tail (pending', h3)) (merge_list cmp qs ps # pss)" using e(1) ne by simp
  moreover have "merge_pending cmp (bits, tail) pending h = Some (pending', h3)"
    using m(1) s assms(3) by (simp add: merge_pending_def Let_def)
  ultimately show ?thesis using e m ms unfolding pmerged_def by auto
qed

lemma merge_pending_ok:
  assumes "ppath h (load_prev tail (pending, h)) pss" "map length pss = psizes c s True" "distinct (concat pss)"
    "\<And>t. tail = Field t \<Longrightarrow> t \<notin> set (concat pss)"
  shows "pmerged tail pending h (set (concat pss)) (merge_at cmp c pss) (merge_pending cmp (find_tail c tail pending h) pending h)"
  using assms
proof (induction c arbitrary: s pss tail rule: less_induct)
  case (less c)
  consider "odd c" | "c = 0" | "even c" "c \<noteq> 0" by blast
  then show ?case
  proof cases
    case 1
    let ?p = "load_prev tail (pending, h)"
    obtain ps qs where q: "pss = ps # qs" "map length qs = psizes (c div 2) (2 * s) True"
      using less.prems(2) psizes_odd [OF 1, of s] by (auto simp: map_eq_Cons_conv)
    have p: "path h ?p ps" "ps \<noteq> []" "ppath h (lh_prev h ?p) qs" using less.prems(1) q(1) by auto
    have "c div 2 < c" using 1 by (auto elim: oddE)
    from less.IH [OF this, of "Field ?p" qs "2 * s"] p q less.prems(3) path_hd [OF p(1,2)]
    have "pmerged (Field ?p) pending h (set (concat qs)) (merge_at cmp (c div 2) qs)
      (merge_pending cmp (find_tail (c div 2) (Field ?p) pending h) pending h)" by auto
    from pmerged_Cons [OF this p(1,2) refl] less.prems(3,4) q(1)
    have "pmerged tail pending h (set (concat qs) \<union> set ps) (ps # merge_at cmp (c div 2) qs)
      (merge_pending cmp (find_tail (c div 2) (Field ?p) pending h) pending h)" by auto
    then show ?thesis
      using 1 q(1) by (simp add: merge_at.simps [of cmp c] find_tail.simps [of c] Un_commute)
  next
    case 2
    then show ?thesis
      using less.prems(1) by (simp add: merge_at.simps find_tail.simps merge_pending_def pmerged_def)
  next
    case 3
    then obtain ps qs qss where q: "pss = ps # qs # qss"
      using less.prems(2) psizes_even [OF 3, of s] by (auto simp: map_eq_Cons_conv)
    have "pmerged tail pending h (set (concat pss)) (merge_list cmp qs ps # qss) (merge_pending cmp (c, tail) pending h)"
      unfolding q using less.prems(1,3,4) q 3(2) by (intro merge_two_ok) auto
    then show ?thesis using 3 q by (simp add: merge_at.simps [of cmp c] find_tail.simps [of c])
  qed
qed

lemma psizes_two:
  assumes "2 \<le> n"
  shows "\<exists>x y ys. psizes n s True = x # y # ys"
proof (cases "even n")
  case True
  then show ?thesis using psizes_even [OF True, of s] assms by auto
next
  case False
  have "n div 2 \<noteq> 0" using assms by simp
  then show ?thesis using psizes_odd [OF False, of s] psizes_True [of "n div 2" "2 * s"] by auto
qed

lemma psizes_shape:
  assumes "0 < s"
  shows "sorted (psizes c s b) \<and> (\<forall>x \<in> set (psizes c s b). \<exists>k. x = s * 2 ^ k) \<and> (\<forall>x. count_list (psizes c s b) x \<le> 2)"
  using assms
proof (induction c s b rule: psizes.induct)
  case (1 c s b)
  let ?n = "if odd c then (if b then 1 else 0) else (if b then 2 else 1) :: nat" and ?r = "psizes (c div 2) (2 * s) (odd c)"
  show ?case
  proof (cases "c = 0")
    case False
    note i = 1(1) [OF False]
    have r: "sorted ?r" "\<And>x. x \<in> set ?r \<Longrightarrow> \<exists>k. x = 2 * s * 2 ^ k" "\<And>x. count_list ?r x \<le> 2" using i 1(2) by auto
    have ge: "s < x" if "x \<in> set ?r" for x using r(2) [OF that] 1(2) by (auto intro: less_le_trans [of s "2 * s"])
    have pw: "\<exists>k. x = s * 2 ^ k" if x: "x \<in> set (replicate ?n s @ ?r)" for x
    proof (cases "x \<in> set ?r")
      case True
      then obtain k where "x = 2 * s * 2 ^ k" using r(2) by blast
      then have "x = s * 2 ^ Suc k" by simp
      then show ?thesis by blast
    next
      case False
      then have "x = s * 2 ^ 0" using x by auto
      then show ?thesis by blast
    qed
    have so: "sorted (replicate ?n s @ ?r)" using r(1) ge by (auto simp: sorted_append less_imp_le)
    have cn: "count_list (replicate ?n s @ ?r) x \<le> 2" for x
    proof (cases "x = s")
      case True
      then have "count_list ?r x = 0" using ge by (auto simp: count_list_0_iff)
      then show ?thesis using True by (simp add: count_list_append numeral_2_eq_2)
    next
      case False
      then show ?thesis using r(3) by (simp add: count_list_append numeral_2_eq_2)
    qed
    have "psizes c s b = replicate ?n s @ ?r" using False by (subst psizes.simps) simp
    then show ?thesis using so pw cn by metis
  qed simp
qed

lemma cut_path:
  assumes "chain h head xs head" "distinct (head # xs)" "xs \<noteq> []" "0 \<notin> set xs"
  shows "path (set_next (last xs) 0 h) (hd xs) xs"
proof -
  have "path (set_next (last xs) 0 h) (hd xs) xs" if "chain h p xs q" "distinct xs" "xs \<noteq> []" "0 \<notin> set xs" for p q
    using that
  proof (induction xs arbitrary: p)
    case (Cons x xs)
    show ?case
    proof (cases xs)
      case (Cons y ys)
      then have "path (set_next (last xs) 0 h) (hd xs) xs" using Cons.IH [of x] Cons.prems by auto
      moreover have "lh_next h x = hd xs" using Cons.prems Cons by (auto simp: linked_def)
      moreover have "x \<noteq> last xs" using Cons.prems Cons by (metis distinct.simps(2) last_in_set list.distinct(1))
      ultimately show ?thesis using Cons.prems Cons by auto
    qed (use Cons.prems in simp)
  qed simp
  then show ?thesis using assms by auto
qed

text \<open>What the loop makes of the pending lists.\<close>

fun sort_runs :: "(addr \<Rightarrow> addr \<Rightarrow> int) \<Rightarrow> nat \<Rightarrow> addr list list \<Rightarrow> addr list \<Rightarrow> addr list list" where
  "sort_runs cmp c pss [] = pss"
| "sort_runs cmp c pss (x # xs) = sort_runs cmp (Suc c) ([x] # merge_at cmp c pss) xs"

lemma sizes_step:
  "map length pss = psizes c 1 True \<Longrightarrow> map length ([x] # merge_at cmp c pss) = psizes (Suc c) 1 True"
  using merge_at_sizes [of pss c 1 cmp] by (simp add: psizes_True)

lemma sort_runs_sizes:
  "map length pss = psizes c 1 True \<Longrightarrow> map length (sort_runs cmp c pss xs) = psizes (c + length xs) 1 True"
proof (induction xs arbitrary: c pss)
  case (Cons x xs)
  from Cons.IH [OF sizes_step [OF Cons.prems]] show ?case by simp
qed simp

lemma sort_runs_mset:
  "map length pss = psizes c 1 True \<Longrightarrow> mset (concat (sort_runs cmp c pss xs)) = mset (concat pss) + mset xs"
proof (induction xs arbitrary: c pss)
  case (Cons x xs)
  from Cons.IH [OF sizes_step [OF Cons.prems]] merge_at_mset [OF Cons.prems] show ?case by simp
qed simp

lemma sort_loop_ok:
  assumes "path h list xs" "xs \<noteq> []" "ppath h pending pss" "map length pss = psizes c 1 True" "distinct (xs @ concat pss)"
  shows "\<exists>pending' h'. sort_loop cmp list pending c h = Some (pending', h') \<and> ppath h' pending' (sort_runs cmp c pss xs) \<and>
    (\<forall>x. x \<notin> set (xs @ concat pss) \<longrightarrow> same_links x h h')"
  using assms
proof (induction xs arbitrary: list h pending pss c)
  case (Cons x xs)
  have x: "list = x" "x \<noteq> 0" "path h (lh_next h x) xs" using Cons.prems(1) by auto
  obtain pd1 h1 where m: "merge_pending cmp (find_tail c Local pending h) pending h = Some (pd1, h1)"
    "ppath h1 pd1 (merge_at cmp c pss)" "\<And>y. y \<notin> set (concat pss) \<Longrightarrow> same_links y h h1"
    using merge_pending_ok [of h Local pending pss c 1 cmp] Cons.prems(3,4,5)
    by (auto simp: pmerged_def same_links_def)
  let ?h2 = "set_next x 0 (set_prev x pd1 h1)" and ?pss = "[x] # merge_at cmp c pss"
  have mm: "mset (concat (merge_at cmp c pss)) = mset (concat pss)" using merge_at_mset [OF Cons.prems(4)] .
  then have ms: "set (concat (merge_at cmp c pss)) = set (concat pss)" by (metis set_mset_mset)
  have d2: "distinct (concat (merge_at cmp c pss))" using mm Cons.prems(5) by (metis distinct_append mset_eq_imp_distinct_iff)
  have "ppath ?h2 pd1 (merge_at cmp c pss)"
    using Cons.prems(5) ms by (intro ppath_frame [OF m(2)]) auto
  then have p2: "ppath ?h2 x ?pss" using x(2) by simp
  have n: "lh_next h1 x = lh_next h x" using m(3) Cons.prems(5) by (auto simp: same_links_def)
  have fr: "same_links y h ?h2" if "y \<notin> set ((x # xs) @ concat pss)" for y
    using m(3) [of y] that by (auto simp: same_links_def)
  have e: "sort_loop cmp list pending c h =
    (if lh_next h x \<noteq> 0 then sort_loop cmp (lh_next h x) x (Suc c) ?h2 else Some (x, ?h2))"
    using m(1) n x(1) by (subst sort_loop.simps) (simp add: Let_def)
  show ?case
  proof (cases "xs = []")
    case True
    then have "sort_loop cmp list pending c h = Some (x, ?h2)" using e x(3) by simp
    then show ?thesis using True p2 fr by (intro exI [of _ x] exI [of _ ?h2]) auto
  next
    case False
    have p: "path ?h2 (lh_next h x) xs"
      using Cons.prems(5) m(3) by (intro path_frame [OF x(3)]) (auto simp: same_links_def)
    have d: "distinct (xs @ concat ?pss)" using Cons.prems(5) d2 ms by auto
    obtain pd' h' where r: "sort_loop cmp (lh_next h x) x (Suc c) ?h2 = Some (pd', h')" "ppath h' pd' (sort_runs cmp (Suc c) ?pss xs)"
      "\<And>y. y \<notin> set (xs @ concat ?pss) \<Longrightarrow> same_links y ?h2 h'"
      using Cons.IH [OF p False p2 sizes_step [OF Cons.prems(4)] d] by blast
    have "sort_loop cmp list pending c h = Some (pd', h')" using e r(1) path_nonzero [OF p] False by simp
    moreover have "same_links y h h'" if "y \<notin> set ((x # xs) @ concat pss)" for y
      using r(3) [of y] fr [OF that] that ms by (auto simp: same_links_def)
    ultimately show ?thesis using r(2) by auto
  qed
qed simp

lemma sort_loop_start:
  assumes l: "is_list h head xs" and z: "0 \<notin> set xs" and xn: "xs \<noteq> []"
  obtains pending h' where "sort_loop cmp (lh_next h head) 0 0 (set_next (lh_prev h head) 0 h) = Some (pending, h')"
    "ppath h' pending (sort_runs cmp 0 [] xs)" "\<And>x. x \<notin> set xs \<Longrightarrow> same_links x h h'"
proof -
  have e: "lh_next h head = hd xs" "lh_prev h head = last xs" using is_list_ends [OF l] xn by auto
  have d: "distinct (head # xs)" using l by (simp add: is_list_def)
  let ?h0 = "set_next (last xs) 0 h"
  have "path ?h0 (hd xs) xs" using cut_path [OF _ d xn z] l by (simp add: is_list_def)
  from sort_loop_ok [OF this xn, of 0 "[]" 0 cmp] d
  obtain pd h' where s: "sort_loop cmp (hd xs) 0 0 ?h0 = Some (pd, h')" "ppath h' pd (sort_runs cmp 0 [] xs)"
    "\<And>x. x \<notin> set xs \<Longrightarrow> same_links x ?h0 h'" by auto
  have "same_links x h h'" if "x \<notin> set xs" for x
    using s(3) [OF that] that last_in_set [OF xn] by (auto simp: same_links_def)
  then show ?thesis using that s(1,2) e by simp
qed

section \<open>The sorting contract\<close>

text \<open>What a client's comparison promises: it orders the nodes by some key.\<close>

locale comparison =
  fixes cmp :: "addr \<Rightarrow> addr \<Rightarrow> int" and key :: "addr \<Rightarrow> 'k::linorder"
  assumes cmp_key: "cmp a b \<le> 0 \<longleftrightarrow> key a \<le> key b"
begin

lemma sorted_merge_list:
  assumes "sorted (map key xs)" "sorted (map key ys)"
  shows "sorted (map key (merge_list cmp xs ys))"
  using assms
proof (induction xs arbitrary: ys)
  case (Cons x xs)
  note outer_IH = Cons.IH and outer_prems = Cons.prems
  from Cons.prems(2) show ?case
  proof (induction ys)
    case (Cons y ys)
    show ?case
    proof (cases "key x \<le> key y")
      case True
      then show ?thesis
        using outer_IH [of "y # ys"] outer_prems(1) Cons.prems by (auto simp: cmp_key)
    next
      case False
      then show ?thesis using Cons outer_prems(1) by (auto simp: cmp_key)
    qed
  qed (use outer_prems in simp)
qed simp

lemma filter_merge_list:
  assumes "sorted (map key xs)" "sorted (map key ys)"
  shows "filter (\<lambda>z. key z = k) (merge_list cmp xs ys) = filter (\<lambda>z. key z = k) xs @ filter (\<lambda>z. key z = k) ys"
  using assms
proof (induction xs arbitrary: ys)
  case (Cons x xs)
  note outer_IH = Cons.IH and outer_prems = Cons.prems
  from Cons.prems(2) show ?case
  proof (induction ys)
    case (Cons y ys)
    show ?case
    proof (cases "key x \<le> key y")
      case True
      then show ?thesis
        using outer_IH [of "y # ys"] outer_prems(1) Cons.prems by (simp add: cmp_key)
    next
      case False
      then have "filter (\<lambda>z. key z = k) (x # xs) = []" if "key y = k"
        using outer_prems(1) that by (auto simp: filter_empty_conv)
      then show ?thesis using Cons outer_prems(1) False by (auto simp: cmp_key)
    qed
  qed (use outer_prems in simp)
qed simp

lemma merge_sort_key: "merge_list cmp (sort_key key xs) (sort_key key ys) = sort_key key (xs @ ys)"
proof (rule sym, rule properties_for_sort_key)
  have "mset (merge_list cmp us vs) = mset us + mset vs" for us vs
    by (induction cmp us vs rule: merge_list.induct) auto
  then show "mset (merge_list cmp (sort_key key xs) (sort_key key ys)) = mset (xs @ ys)" by simp
  fix k
  have eq: "(\<lambda>z. key k = key z) = (\<lambda>z. key z = key k)" by auto
  show "filter (\<lambda>z. key k = key z) (merge_list cmp (sort_key key xs) (sort_key key ys)) = filter (\<lambda>z. key k = key z) (xs @ ys)"
    unfolding eq by (simp add: filter_merge_list sort_key_stable)
qed (simp add: sorted_merge_list)

text \<open>The pending lists are the sorted segments of the input consumed so far.\<close>

definition runs :: "addr list \<Rightarrow> addr list list \<Rightarrow> bool" where
  "runs xs pss \<longleftrightarrow> (\<exists>segs. pss = map (sort_key key) segs \<and> concat (rev segs) = xs)"

lemma runs_Nil: "runs xs [] \<longleftrightarrow> xs = []"
  by (auto simp: runs_def)

lemma runs_Cons: "runs xs (ps # pss) \<longleftrightarrow> (\<exists>us vs. xs = us @ vs \<and> runs us pss \<and> ps = sort_key key vs)"
  by (force simp: runs_def Cons_eq_map_conv)

lemma runs_mset: "runs xs pss \<Longrightarrow> mset (concat pss) = mset xs"
  by (induction pss arbitrary: xs) (auto simp: runs_Cons runs_Nil)

lemma runs_merge: "runs xs (ps # qs # pss) \<Longrightarrow> runs xs (merge_list cmp qs ps # pss)"
  unfolding runs_Cons using merge_sort_key by (metis append.assoc)

lemma runs_merge_at:
  assumes "runs xs pss" "map length pss = psizes c s True"
  shows "runs xs (merge_at cmp c pss)"
  using assms
proof (induction c arbitrary: s pss xs rule: less_induct)
  case (less c)
  consider "odd c" | "c = 0" | "even c" "c \<noteq> 0" by blast
  then show ?case
  proof cases
    case 1
    then obtain p qs where q: "pss = p # qs" "map length qs = psizes (c div 2) (2 * s) True"
      using less.prems psizes_odd [OF 1, of s] by (auto simp: map_eq_Cons_conv)
    have "c div 2 < c" using 1 by (auto elim: oddE)
    then show ?thesis
      using less.IH [OF _ _ q(2)] less.prems(1) q(1) 1 by (auto simp: merge_at.simps [of cmp c] runs_Cons)
  next
    case 3
    then obtain p q qs where "pss = p # q # qs"
      using less.prems psizes_even [OF 3, of s] by (auto simp: map_eq_Cons_conv)
    then show ?thesis using 3 less.prems(1) runs_merge by (simp add: merge_at.simps [of cmp c])
  qed (use less.prems in \<open>simp add: merge_at.simps\<close>)
qed

lemma runs_sort_runs:
  assumes "runs zs pss" "map length pss = psizes c 1 True"
  shows "runs (zs @ xs) (sort_runs cmp c pss xs)"
  using assms
proof (induction xs arbitrary: c pss zs)
  case (Cons x xs)
  have "runs (zs @ [x]) ([x] # merge_at cmp c pss)"
    using runs_merge_at [OF Cons.prems] by (subst runs_Cons) (metis sort_key_simps(1) sort_key_simps(2) insort_key.simps(1))
  from Cons.IH [OF this sizes_step [OF Cons.prems(2)]] show ?case by simp
qed simp

lemma final_loop_ok:
  assumes "path h list ls" "ls = sort_key key vs" "vs \<noteq> []" "ppath h pending pss" "pss \<noteq> []" "runs us pss" "distinct (ls @ concat pss)"
  shows "\<exists>list' pending' h' us' vs'. final_loop cmp list pending h = Some (list', pending', h') \<and> us' \<noteq> [] \<and> vs' \<noteq> [] \<and>
    path h' list' (sort_key key vs') \<and> path h' pending' (sort_key key us') \<and> us' @ vs' = us @ vs \<and>
    (\<forall>x. x \<notin> set (ls @ concat pss) \<longrightarrow> same_links x h h')"
  using assms
proof (induction pss arbitrary: list ls vs pending h us)
  case (Cons ps pss)
  then obtain us1 us2 where us: "us = us1 @ us2" "runs us1 pss" "ps = sort_key key us2" by (auto simp: runs_Cons)
  have p: "path h pending ps" "ps \<noteq> []" "ppath h (lh_prev h pending) pss" using Cons.prems(4) by auto
  show ?case
  proof (cases "pss = []")
    case True
    then have "final_loop cmp list pending h = Some (list, pending, h)" using p(3) by (subst final_loop.simps) simp
    moreover have "us1 = []" using us(2) True by (simp add: runs_Nil)
    ultimately show ?thesis
      using Cons.prems(1-3) us p
      by (intro exI [of _ list] exI [of _ pending] exI [of _ h] exI [of _ us2] exI [of _ vs]) (auto simp: same_links_def)
  next
    case False
    have n: "lh_prev h pending \<noteq> 0" using p(3) False by (cases pss) auto
    have ln: "ls \<noteq> []" using Cons.prems(2,3) by (metis length_0_conv length_sort)
    obtain c h1 where m: "merge cmp pending list h = Some (c, h1)" "path h1 c (merge_list cmp ps ls)"
      "lh_prev h1 = lh_prev h" "\<And>x. x \<notin> set (ps @ ls) \<Longrightarrow> lh_next h1 x = lh_next h x"
      using merge_ok [OF p(1) Cons.prems(1) p(2) ln, of cmp] Cons.prems(7) by (metis concat.simps(2) distinct_append inf_commute inf_sup_distrib1 set_append sup_eq_bot_iff)
    have e: "final_loop cmp list pending h = final_loop cmp c (lh_prev h pending) h1"
      using n m(1) by (subst final_loop.simps) (simp add: Let_def)
    have q: "merge_list cmp ps ls = sort_key key (us2 @ vs)" using us(3) Cons.prems(2) merge_sort_key by simp
    have p1: "ppath h1 (lh_prev h pending) pss"
      using Cons.prems(7) m(3,4) by (intro ppath_frame [OF p(3)]) auto
    have d: "distinct (merge_list cmp ps ls @ concat pss)"
      using Cons.prems(7) distinct_merge_list [of ps ls cmp] by auto
    obtain l' p' h' us' vs' where r: "final_loop cmp c (lh_prev h pending) h1 = Some (l', p', h')" "us' \<noteq> []" "vs' \<noteq> []"
      "path h' l' (sort_key key vs')" "path h' p' (sort_key key us')" "us' @ vs' = us1 @ us2 @ vs"
      "\<And>x. x \<notin> set (merge_list cmp ps ls @ concat pss) \<Longrightarrow> same_links x h1 h'"
      using Cons.IH [OF m(2) q _ p1 False us(2) d] Cons.prems(3) by auto
    have "same_links x h h'" if "x \<notin> set (ls @ concat (ps # pss))" for x
      using r(7) [of x] m(3,4) that by (auto simp: same_links_def)
    then show ?thesis using e r(1-6) us(1)
      by (intro exI [of _ l'] exI [of _ p'] exI [of _ h'] exI [of _ us'] exI [of _ vs']) auto
  qed
qed simp

lemma list_sort_ok:
  assumes l: "is_list h head xs" and z: "0 \<notin> set xs"
  shows "\<exists>h'. list_sort cmp head h = Some h' \<and> is_list h' head (sort_key key xs) \<and>
    (\<forall>x. x \<notin> set (head # xs) \<longrightarrow> same_links x h h')"
proof (cases "length xs < 2")
  case True
  then have "xs = [] \<or> (\<exists>x. xs = [x])" by (cases xs) auto
  then show ?thesis
    using l is_list_ends [OF l] by (auto simp: list_sort_def same_links_def)
next
  case False
  then have xn: "xs \<noteq> []" and l2: "2 \<le> length xs" by auto
  have e: "lh_next h head = hd xs" "lh_prev h head = last xs" using is_list_ends [OF l] xn by auto
  have d: "distinct (head # xs)" using l by (simp add: is_list_def)
  have ne: "hd xs \<noteq> last xs" using d l2 by (cases xs) (auto split: if_splits)
  let ?pss = "sort_runs cmp 0 [] xs"
  obtain pd h1 where s: "sort_loop cmp (lh_next h head) 0 0 (set_next (lh_prev h head) 0 h) = Some (pd, h1)"
    "ppath h1 pd ?pss" "\<And>x. x \<notin> set xs \<Longrightarrow> same_links x h h1"
    by (rule sort_loop_start [OF l z xn, of cmp]) blast
  have rn: "runs xs ?pss" using runs_sort_runs [of "[]" "[]" 0 xs] by (simp add: runs_Nil)
  obtain ps qss where ps: "?pss = ps # qss" "qss \<noteq> []"
    using sort_runs_sizes [of "[]" 0 cmp xs] psizes_two [OF l2, of 1] by (auto simp: map_eq_Cons_conv)
  have mp: "mset (concat ?pss) = mset xs" using runs_mset [OF rn] .
  then have sp: "set (concat ?pss) = set xs" by (rule mset_eq_setD)
  have dp: "distinct (concat ?pss)" using mp d mset_eq_imp_distinct_iff by fastforce
  obtain us vs where uv: "xs = us @ vs" "runs us qss" "ps = sort_key key vs" using rn ps(1) by (auto simp: runs_Cons)
  have p1: "path h1 pd ps" "ppath h1 (lh_prev h1 pd) qss" "ps \<noteq> []" using s(2) ps(1) by auto
  have vn: "vs \<noteq> []" using uv(3) p1(3) by auto
  obtain l' p' h2 us' vs' where f: "final_loop cmp pd (lh_prev h1 pd) h1 = Some (l', p', h2)" "us' \<noteq> []" "vs' \<noteq> []"
    "path h2 l' (sort_key key vs')" "path h2 p' (sort_key key us')" "us' @ vs' = xs"
    "\<And>x. x \<notin> set (ps @ concat qss) \<Longrightarrow> same_links x h1 h2"
    using final_loop_ok [OF p1(1) uv(3) vn p1(2) ps(2) uv(2)] dp ps(1) uv(1) by auto
  have nn: "sort_key key us' \<noteq> []" "sort_key key vs' \<noteq> []" using f(2,3) by (metis length_0_conv length_sort)+
  have d2: "distinct (head # sort_key key us' @ sort_key key vs')" using d f(6) by auto
  obtain h3 where m: "merge_final cmp head p' l' h2 = Some h3" "is_list h3 head (merge_list cmp (sort_key key us') (sort_key key vs'))"
    "\<And>x. x \<notin> set (head # sort_key key us' @ sort_key key vs') \<Longrightarrow> same_links x h2 h3"
    by (rule merge_final_ok [OF f(5,4) nn d2, of cmp]) blast
  have "list_sort cmp head h = Some h3"
    using e ne s(1) f(1) m(1) by (simp add: list_sort_def)
  moreover have "is_list h3 head (sort_key key xs)" using m(2) f(6) merge_sort_key by metis
  moreover have "same_links x h h3" if x: "x \<notin> set (head # xs)" for x
  proof -
    have "x \<notin> set (ps @ concat qss)" using x sp ps(1) by simp
    moreover have "x \<notin> set (head # sort_key key us' @ sort_key key vs')" using x f(6) by auto
    ultimately show ?thesis using s(3) [of x] f(7) [of x] m(3) [of x] x by (simp add: same_links_def)
  qed
  ultimately show ?thesis by blast
qed

end

text \<open>The comparison the daemon foresees for its events (in the comment at the end of
  \<open>event.c\<close>): higher priorities first.\<close>

definition events_compare :: "(addr \<Rightarrow> int) \<Rightarrow> addr \<Rightarrow> addr \<Rightarrow> int" where
  "events_compare prio a b = (if prio a < prio b then 1 else 0)"

interpretation by_priority: comparison "events_compare prio" "\<lambda>a. - prio a" for prio
  by unfold_locales (simp add: events_compare_def)

section \<open>Properties\<close>

text \<open>C4: \<open>list_sort\<close> returns on every well-formed circular list (whose nodes are not at
  address 0) and leaves it well formed, with exactly the stable sort of its nodes by
  the key the comparison orders by; every list that shares no node with it is
  untouched.\<close>

theorem list_sort_correct:
  fixes key :: "addr \<Rightarrow> 'k::linorder"
  assumes "\<And>a b. cmp a b \<le> 0 \<longleftrightarrow> key a \<le> key b" "is_list h head xs" "0 \<notin> set xs"
  shows "\<exists>h'. list_sort cmp head h = Some h' \<and> is_list h' head (sort_key key xs) \<and>
    (\<forall>hq ys. is_list h hq ys \<longrightarrow> set (hq # ys) \<inter> set (head # xs) = {} \<longrightarrow> is_list h' hq ys)"
proof -
  have c: "comparison cmp key" using assms(1) by unfold_locales
  show ?thesis
    using comparison.list_sort_ok [OF c assms(2,3)] is_list_same [of h] by (metis disjoint_iff)
qed

definition list4 :: lheap where
  "list4 = list_add_tail 4 1 (list_add_tail 3 1 (list_add_tail 2 1 (list_add_tail 5 1 links0)))"

lemma list4_is_list: "is_list list4 1 [5, 2, 3, 4]"
proof -
  note add = list_add_tail_is_list
  have "is_list (list_add_tail 5 1 links0) 1 [5]" using add [OF links0_empty, of 5 1] by simp
  from add [OF this, of 2] have "is_list (list_add_tail 2 1 (list_add_tail 5 1 links0)) 1 [5, 2]" by simp
  from add [OF this, of 3] have "is_list (list_add_tail 3 1 (list_add_tail 2 1 (list_add_tail 5 1 links0))) 1 [5, 2, 3]" by simp
  from add [OF this, of 4] show ?thesis by (simp add: list4_def)
qed

theorem list_sort_correct_witness:
  "\<exists>h'. list_sort (events_compare (\<lambda>a. if a = 3 then 7 else 0)) 1 list4 = Some h' \<and> is_list h' 1 [3, 5, 2, 4]"
proof -
  have "events_compare (\<lambda>a. if a = 3 then 7 else 0) a b \<le> 0 \<longleftrightarrow>
    - (if a = 3 then 7 else 0::int) \<le> - (if b = 3 then 7 else 0)" for a b :: addr
    by (simp add: events_compare_def)
  from list_sort_correct [where key = "\<lambda>a. - (if a = 3 then 7 else 0::int)", OF this list4_is_list]
  show ?thesis by auto
qed

text \<open>C5: the invariants of the pending lists that \<open>list_sort.c\<close> states: after the loop
  over an input of \<open>n\<close> nodes the pending lists hold all \<open>n\<close> nodes, their sizes are
  powers of two in ascending order with at most two lists of each size, for any
  comparison function.\<close>

theorem list_sort_pending:
  assumes "is_list h head xs" "0 \<notin> set xs" "xs \<noteq> []"
  shows "\<exists>pending h' pss. sort_loop cmp (lh_next h head) 0 0 (set_next (lh_prev h head) 0 h) = Some (pending, h') \<and>
    ppath h' pending pss \<and> mset (concat pss) = mset xs \<and> sorted (map length pss) \<and>
    (\<forall>s. count_list (map length pss) s \<le> 2) \<and> (\<forall>ps \<in> set pss. \<exists>k. length ps = 2 ^ k)"
proof -
  let ?pss = "sort_runs cmp 0 [] xs"
  obtain pd h1 where s: "sort_loop cmp (lh_next h head) 0 0 (set_next (lh_prev h head) 0 h) = Some (pd, h1)"
    "ppath h1 pd ?pss"
    by (rule sort_loop_start [OF assms, of cmp]) blast
  have z: "map length ?pss = psizes (length xs) 1 True" using sort_runs_sizes [of "[]" 0 cmp xs] by simp
  have "mset (concat ?pss) = mset xs" using sort_runs_mset [of "[]" 0 cmp xs] by simp
  moreover have "\<exists>k. length ps = 2 ^ k" if "ps \<in> set ?pss" for ps
  proof -
    have "length ps \<in> set (psizes (length xs) 1 True)" using that by (metis z image_eqI set_map)
    then show ?thesis using psizes_shape [of 1 "length xs" True] by auto
  qed
  ultimately show ?thesis using s z psizes_shape [of 1 "length xs" True] by auto
qed

theorem list_sort_pending_witness:
  "\<exists>pending h' pss. sort_loop (events_compare (\<lambda>a. 0)) 5 0 0 (set_next 4 0 list4) = Some (pending, h') \<and>
    ppath h' pending pss \<and> mset (concat pss) = mset [5, 2, 3, 4] \<and> sorted (map length pss)"
proof -
  have "lh_next list4 1 = 5" "lh_prev list4 1 = 4" using is_list_ends [OF list4_is_list] by simp_all
  then show ?thesis using list_sort_pending [OF list4_is_list, of "events_compare (\<lambda>a. 0)"] by auto
qed

end
