(* ===== verification/Mem_Channel.thy ===== *)
theory Mem_Channel
  imports Usm_Prelude "HOL-Library.Monad_Syntax"
begin

text \<open>
  Events (\<open>include/com/event.h\<close>) and the memory channel: the page a faulting task
  shares with the daemon, at the byte offsets that \<open>impl/com/com.c\<close> and the
  pre-allocation helpers of \<open>include/usm/usm.h\<close> use,

    \<open>0 usmfd | 4 status | 8 vaddr | 16 paddr | 24 flags | 32 state | 36 rem_size |
    44 further_alloc | 48 + 12 * pos extra_allocs (8 bytes pfn, 4 bytes count)\<close>.

  Memory is a byte-addressed function; a field is a base address and an offset.
  The kernel side is the environment: what it does to memory between two reads of
  the daemon is a parameter.
\<close>

section \<open>Events\<close>

datatype evt_type = ALLOC | FREE | HINTS | VIRT_AS_CHANGE | PHY_AS_CHANGE | NEW_PROC | NEW_THREAD | PROC_DTH | THREAD_DTH

record usm_event =
  ev_type :: evt_type
  ev_procName :: "string option"
  ev_vaddr :: u64
  ev_length :: u64
  ev_paddr :: u64
  ev_offst :: u64
  ev_flags :: u64
  ev_origin :: u32
  ev_usmmem :: u64

definition SYS_PAGE_SIZE :: u64 where "SYS_PAGE_SIZE = 4096"

definition UFFD_PAGEFAULT_FLAG_SWAP :: u64 where "UFFD_PAGEFAULT_FLAG_SWAP = 8"

section \<open>Byte-addressed memory\<close>

type_synonym mem = "u64 \<Rightarrow> u8"

definition rd :: "mem \<Rightarrow> u64 \<Rightarrow> nat \<Rightarrow> nat \<Rightarrow> bytes" where
  "rd m b off n = map (\<lambda>i. m (b + of_nat (off + i))) [0..<n]"

definition wr :: "mem \<Rightarrow> u64 \<Rightarrow> nat \<Rightarrow> bytes \<Rightarrow> mem" where
  "wr m b off bs =
    (\<lambda>x. let d = unat (x - b) in if off \<le> d \<and> d < off + length bs then bs ! (d - off) else m x)"

definition rd64 :: "mem \<Rightarrow> u64 \<Rightarrow> nat \<Rightarrow> u64" where
  "rd64 m b off = le_to_u64 (rd m b off 8)"

definition wr64 :: "mem \<Rightarrow> u64 \<Rightarrow> nat \<Rightarrow> u64 \<Rightarrow> mem" where
  "wr64 m b off v = wr m b off (u64_to_le 8 v)"

definition rd32 :: "mem \<Rightarrow> u64 \<Rightarrow> nat \<Rightarrow> u32" where
  "rd32 m b off = ucast (le_to_u64 (rd m b off 4))"

definition wr32 :: "mem \<Rightarrow> u64 \<Rightarrow> nat \<Rightarrow> u32 \<Rightarrow> mem" where
  "wr32 m b off v = wr m b off (u64_to_le 4 (ucast v))"

section \<open>Retrieving and submitting events\<close>

definition usm_mem_ret_ev :: "mem \<Rightarrow> usm_event \<Rightarrow> usm_event" where
  "usm_mem_ret_ev m ev =
    (let ev = ev\<lparr>ev_vaddr := rd64 m (ev_usmmem ev) 8\<rparr>;
         ev = ev\<lparr>ev_flags := rd64 m (ev_usmmem ev) 24\<rparr>;
         ev = (if ev_flags ev AND UFFD_PAGEFAULT_FLAG_SWAP \<noteq> 0
               then ev\<lparr>ev_offst := rd64 m (ev_usmmem ev) 16 * SYS_PAGE_SIZE\<rparr> else ev)
     in ev\<lparr>ev_length := rd64 m (ev_usmmem ev) 36\<rparr>)"

definition usm_mem_ret_ev_special :: "mem \<Rightarrow> usm_event \<Rightarrow> mem \<times> usm_event" where
  "usm_mem_ret_ev_special m ev =
    (let ev = usm_mem_ret_ev m (ev\<lparr>ev_type := ALLOC\<rparr>) in (wr32 m (ev_usmmem ev) 4 0, ev))"

text \<open>The polling loop: \<open>env n\<close> is what the task (and the coroutines that run during
  \<open>usm_yield\<close>) do to memory before the n-th read of the status.\<close>

partial_function (option) subm_wait :: "(nat \<Rightarrow> mem \<Rightarrow> mem) \<Rightarrow> u64 \<Rightarrow> nat \<Rightarrow> mem \<Rightarrow> mem option" where
  "subm_wait env b n m =
    (let m = env n m in if rd32 m b 4 = 2 then subm_wait env b (Suc n) m else Some m)"

definition usm_mem_subm_ev :: "(nat \<Rightarrow> mem \<Rightarrow> mem) \<Rightarrow> mem \<Rightarrow> usm_event \<Rightarrow> (u32 \<times> mem \<times> usm_event) option" where
  "usm_mem_subm_ev env m ev = do {
     let b = ev_usmmem ev;
     let m = wr64 m b 16 (ev_paddr ev);
     let m = wr32 m b 44 (ucast (ev_length ev));
     let m = wr32 m b 4 2;
     m \<leftarrow> subm_wait env b 0 m;
     let res = rd32 m b 4;
     let ev = ev\<lparr>ev_flags := rd64 m b 36\<rparr>;
     let m = wr32 m b 4 0;
     Some (if res = 3 then 0 else res, m, ev)
   }"

text \<open>\<open>usmSubmitAllocEvent\<close> of the build with memory channels.\<close>

definition usmSubmitAllocEvent :: "(nat \<Rightarrow> mem \<Rightarrow> mem) \<Rightarrow> mem \<Rightarrow> usm_event \<Rightarrow> (u32 \<times> mem \<times> usm_event) option" where
  "usmSubmitAllocEvent = usm_mem_subm_ev"

definition usm_mem_check :: "mem \<Rightarrow> u64 \<Rightarrow> int \<times> mem" where
  "usm_mem_check m b =
    (let status = rd32 m b 4; state = rd32 m b 32
     in if state = 10 then (- 1, wr32 m b 32 0)
        else if status = 1 then (1, m) else (0, m))"

section \<open>Pre-allocation entries\<close>

definition usmPrepPreAlloc :: "usm_event \<Rightarrow> u64 \<Rightarrow> nat \<Rightarrow> mem \<Rightarrow> mem" where
  "usmPrepPreAlloc ev pfn pos m = wr64 m (ev_usmmem ev) (16 + 32 + pos * 12) pfn"

definition usmPrepPreAllocFast :: "usm_event \<Rightarrow> nat \<Rightarrow> mem \<Rightarrow> mem" where
  "usmPrepPreAllocFast ev pos m =
     wr32 m (ev_usmmem ev) (16 + 32 + pos * 12 + 8) (rd32 m (ev_usmmem ev) (16 + 32 + pos * 12 + 8) + 1)"

definition usmPrepPreAllocFastCounted :: "usm_event \<Rightarrow> nat \<Rightarrow> u32 \<Rightarrow> mem \<Rightarrow> mem" where
  "usmPrepPreAllocFastCounted ev pos cnt m = wr32 m (ev_usmmem ev) (16 + 32 + pos * 12 + 8) cnt"

definition usmCheckConsumption :: "usm_event \<Rightarrow> nat \<Rightarrow> mem \<Rightarrow> bool" where
  "usmCheckConsumption ev pos m \<longleftrightarrow> rd64 m (ev_usmmem ev) (16 + 8 * (4 + pos)) = 0"

text \<open>The C function returns an \<open>int\<close>: the page frame number cut to 32 bits.\<close>

definition usmGetUnacctPage :: "usm_event \<Rightarrow> nat \<Rightarrow> mem \<Rightarrow> u32" where
  "usmGetUnacctPage ev pos m = ucast (rd64 m (ev_usmmem ev) (16 + 32 + pos * 12))"

text \<open>How the kernel walks the entries of a submitted event (the loop over \<open>fr_a\<close> in
  \<open>handle_usm_fault\<close> of the kernel patch): the page frames of \<open>n\<close> further pages, the
  next entry being read when the count of the current one is used up.\<close>

fun kernel_extents :: "mem \<Rightarrow> u64 \<Rightarrow> nat \<Rightarrow> u64 \<Rightarrow> nat \<Rightarrow> nat \<Rightarrow> u64 list" where
  "kernel_extents m b pos pfn cnt 0 = []"
| "kernel_extents m b pos pfn cnt (Suc n) = pfn #
     (case cnt of
        0 \<Rightarrow> kernel_extents m b (Suc pos) (rd64 m b (48 + 12 * Suc pos)) (unat (rd32 m b (48 + 12 * Suc pos + 8))) n
      | Suc c \<Rightarrow> kernel_extents m b pos (pfn + 1) c n)"

definition kernel_further :: "mem \<Rightarrow> u64 \<Rightarrow> u64 list" where
  "kernel_further m b =
     kernel_extents m b 0 (rd64 m b 48) (unat (rd32 m b 56)) (unat (rd32 m b 44))"

section \<open>Reading back what was written\<close>

lemma length_rd [simp]: "length (rd m b off n) = n"
  by (simp add: rd_def)

lemma unat_offset: "k < 2 ^ 64 \<Longrightarrow> unat (b + of_nat k - b :: u64) = k"
  by (simp add: unsigned_of_nat take_bit_nat_eq_self)

lemma rd_wr_same:
  assumes "off + length bs \<le> 2 ^ 64"
  shows "rd (wr m b off bs) b off (length bs) = bs"
proof (rule nth_equalityI)
  fix i assume "i < length (rd (wr m b off bs) b off (length bs))"
  then have i: "i < length bs" by simp
  then have "unat (b + of_nat (off + i) - b :: u64) = off + i" using assms by (intro unat_offset) simp
  then show "rd (wr m b off bs) b off (length bs) ! i = bs ! i"
    using i by (simp add: rd_def wr_def Let_def)
qed simp

lemma rd_wr_other:
  assumes "off' + n \<le> off \<or> off + length bs \<le> off'" "off' + n \<le> 2 ^ 64"
  shows "rd (wr m b off bs) b off' n = rd m b off' n"
proof (rule nth_equalityI)
  fix i assume "i < length (rd (wr m b off bs) b off' n)"
  then have i: "i < n" by simp
  then have "unat (b + of_nat (off' + i) - b :: u64) = off' + i" using assms by (intro unat_offset) simp
  then show "rd (wr m b off bs) b off' n ! i = rd m b off' n ! i"
    using i assms(1) by (auto simp: rd_def wr_def Let_def)
qed simp

text \<open>The rules that evaluate a field after a write, at any two offsets of one page.\<close>

named_theorems mem_simps \<open>reading a field after a write\<close>

lemma le_to_u64_u64_to_le_4: "ucast (le_to_u64 (u64_to_le 4 (ucast v))) = (v :: u32)"
proof (rule bit_word_eqI)
  fix k assume "k < LENGTH(32)"
  then show "bit (ucast (le_to_u64 (u64_to_le 4 (ucast v))) :: u32) k = bit v k"
    by (simp add: bit_ucast_iff le_to_u64_u64_to_le_bit)
qed

lemma rd64_wr64 [mem_simps]: "off + 8 \<le> 2 ^ 64 \<Longrightarrow> rd64 (wr64 m b off v) b off = v"
  using rd_wr_same [of off "u64_to_le 8 v"] by (simp add: rd64_def wr64_def)

lemma rd32_wr32 [mem_simps]: "off + 4 \<le> 2 ^ 64 \<Longrightarrow> rd32 (wr32 m b off v) b off = v"
  using rd_wr_same [of off "u64_to_le 4 (ucast v)"] by (simp add: rd32_def wr32_def le_to_u64_u64_to_le_4)

lemma rd_wr_fields [mem_simps]:
  "off' + 8 \<le> off \<or> off + 8 \<le> off' \<Longrightarrow> off' + 8 \<le> 2 ^ 64 \<Longrightarrow> rd64 (wr64 m b off v) b off' = rd64 m b off'"
  "off' + 8 \<le> off \<or> off + 4 \<le> off' \<Longrightarrow> off' + 8 \<le> 2 ^ 64 \<Longrightarrow> rd64 (wr32 m b off w) b off' = rd64 m b off'"
  "off' + 4 \<le> off \<or> off + 8 \<le> off' \<Longrightarrow> off' + 4 \<le> 2 ^ 64 \<Longrightarrow> rd32 (wr64 m b off v) b off' = rd32 m b off'"
  "off' + 4 \<le> off \<or> off + 4 \<le> off' \<Longrightarrow> off' + 4 \<le> 2 ^ 64 \<Longrightarrow> rd32 (wr32 m b off w) b off' = rd32 m b off'"
  by (simp_all add: rd64_def rd32_def wr64_def wr32_def rd_wr_other)

text \<open>A write leaves every byte outside its range alone.\<close>

lemma wr_outside: "unat (x - b) < off \<or> off + length bs \<le> unat (x - b) \<Longrightarrow> wr m b off bs x = m x"
  by (auto simp: wr_def Let_def)

section \<open>The submission protocol\<close>

text \<open>Memory before the n-th read of the status when every earlier read saw 2.\<close>

fun env_run :: "(nat \<Rightarrow> mem \<Rightarrow> mem) \<Rightarrow> nat \<Rightarrow> nat \<Rightarrow> mem \<Rightarrow> mem" where
  "env_run env s 0 m = env s m"
| "env_run env s (Suc n) m = env_run env (Suc s) n (env s m)"

definition subm_start :: "mem \<Rightarrow> usm_event \<Rightarrow> mem" where
  "subm_start m ev = wr32 (wr32 (wr64 m (ev_usmmem ev) 16 (ev_paddr ev)) (ev_usmmem ev) 44 (ucast (ev_length ev))) (ev_usmmem ev) 4 2"

lemma subm_wait_Some:
  assumes "\<forall>k < n. rd32 (env_run env s k m) b 4 = 2" "rd32 (env_run env s n m) b 4 \<noteq> 2"
  shows "subm_wait env b s m = Some (env_run env s n m)"
  using assms
proof (induction n arbitrary: s m)
  case 0
  then show ?case by (subst subm_wait.simps) (simp add: Let_def)
next
  case (Suc n)
  have "rd32 (env s m) b 4 = 2" using Suc.prems(1) by (metis env_run.simps(1) zero_less_Suc)
  moreover have "subm_wait env b (Suc s) (env s m) = Some (env_run env (Suc s) n (env s m))"
    using Suc.prems by (intro Suc.IH) (auto dest: spec [of _ "Suc _"])
  ultimately show ?case by (subst subm_wait.simps) (simp add: Let_def)
qed

lemma subm_wait_answered:
  assumes "subm_wait env b s m = Some m'"
  shows "\<exists>n. rd32 (env_run env s n m) b 4 \<noteq> 2"
proof (rule ccontr)
  assume "\<not> ?thesis"
  then have never: "\<And>n. rd32 (env_run env s n m) b 4 = 2" by simp
  define P where "P env' b' s' m' (r :: mem) \<longleftrightarrow> (\<exists>n. rd32 (env_run env' s' n m') b' 4 \<noteq> 2)" for env' b' s' m' r
  have "P env b s m m'"
  proof (rule subm_wait.raw_induct [of P, OF _ assms])
    fix sw env' b' s' m' r
    assume ih: "\<And>env b n m r. sw env b n m = Some r \<Longrightarrow> P env b n m r"
      and r: "(let m = env' s' m' in if rd32 m b' 4 = 2 then sw env' b' (Suc s') m else Some m) = Some r"
    show "P env' b' s' m' r"
    proof (cases "rd32 (env' s' m') b' 4 = 2")
      case True
      then have "P env' b' (Suc s') (env' s' m') r" using ih r by (simp add: Let_def)
      then show ?thesis unfolding P_def by (metis env_run.simps(2))
    next
      case False
      then show ?thesis unfolding P_def by (metis env_run.simps(1))
    qed
  qed
  then show False using never by (simp add: P_def)
qed

text \<open>C7: submitting an event on the memory channel hands the page frame, the number of
  further pages (cut to 32 bits) and status 2 to the task; it returns exactly when
  the task ever answers with another status, with 0 for the status 3 and the
  status itself otherwise, the count of unconsumed pages in the event's flags and
  the status reset to 0; no other byte is changed by the daemon after the hand-over.\<close>

theorem usm_mem_subm_ev_protocol:
  fixes m :: mem and ev :: usm_event
  defines "m0 \<equiv> subm_start m ev" and "b \<equiv> ev_usmmem ev"
  shows "rd64 m0 b 16 = ev_paddr ev \<and> rd32 m0 b 44 = ucast (ev_length ev) \<and> rd32 m0 b 4 = 2 \<and>
    (usm_mem_subm_ev env m ev \<noteq> None \<longleftrightarrow> (\<exists>n. rd32 (env_run env 0 n m0) b 4 \<noteq> 2)) \<and>
    (\<forall>n. (\<forall>k < n. rd32 (env_run env 0 k m0) b 4 = 2) \<longrightarrow> rd32 (env_run env 0 n m0) b 4 \<noteq> 2 \<longrightarrow>
      (let m1 = env_run env 0 n m0; st = rd32 m1 b 4
       in usm_mem_subm_ev env m ev = Some (if st = 3 then 0 else st, wr32 m1 b 4 0, ev\<lparr>ev_flags := rd64 m1 b 36\<rparr>)))"
proof -
  have f: "rd64 m0 b 16 = ev_paddr ev" "rd32 m0 b 44 = ucast (ev_length ev)" "rd32 m0 b 4 = 2"
    by (simp_all add: m0_def b_def subm_start_def mem_simps)
  have e: "usm_mem_subm_ev env m ev = Option.bind (subm_wait env b 0 m0)
    (\<lambda>m. Some (if rd32 m b 4 = 3 then 0 else rd32 m b 4, wr32 m b 4 0, ev\<lparr>ev_flags := rd64 m b 36\<rparr>))"
    unfolding m0_def b_def by (simp add: usm_mem_subm_ev_def subm_start_def Let_def)
  have s: "usm_mem_subm_ev env m ev = Some (if rd32 (env_run env 0 n m0) b 4 = 3 then 0 else rd32 (env_run env 0 n m0) b 4,
      wr32 (env_run env 0 n m0) b 4 0, ev\<lparr>ev_flags := rd64 (env_run env 0 n m0) b 36\<rparr>)"
    if "\<forall>k < n. rd32 (env_run env 0 k m0) b 4 = 2" "rd32 (env_run env 0 n m0) b 4 \<noteq> 2" for n
    using subm_wait_Some [OF that] e by simp
  have "usm_mem_subm_ev env m ev \<noteq> None" if ex: "\<exists>n. rd32 (env_run env 0 n m0) b 4 \<noteq> 2"
  proof -
    have "\<forall>k < (LEAST n. rd32 (env_run env 0 n m0) b 4 \<noteq> 2). rd32 (env_run env 0 k m0) b 4 = 2"
      using not_less_Least by blast
    from s [OF this LeastI_ex [OF ex]] show ?thesis by simp
  qed
  moreover have "\<exists>n. rd32 (env_run env 0 n m0) b 4 \<noteq> 2" if "usm_mem_subm_ev env m ev \<noteq> None"
    using that e subm_wait_answered by (cases "subm_wait env b 0 m0") auto
  ultimately show ?thesis using f s unfolding Let_def by blast
qed

definition ev0 :: usm_event where
  "ev0 = \<lparr>ev_type = ALLOC, ev_procName = None, ev_vaddr = 0, ev_length = 0, ev_paddr = 7, ev_offst = 0,
     ev_flags = 0, ev_origin = 5, ev_usmmem = 4096\<rparr>"

text \<open>A task that answers 3 at once.\<close>

definition answer3 :: "nat \<Rightarrow> mem \<Rightarrow> mem" where
  "answer3 n m = wr32 m 4096 4 3"

theorem usm_mem_subm_ev_protocol_witness:
  "usm_mem_subm_ev answer3 (\<lambda>_. 0) ev0 =
     Some (0, wr32 (answer3 0 (subm_start (\<lambda>_. 0) ev0)) 4096 4 0, ev0\<lparr>ev_flags := rd64 (subm_start (\<lambda>_. 0) ev0) 4096 36\<rparr>)"
  using usm_mem_subm_ev_protocol [of "\<lambda>_. 0" ev0 answer3]
  by (auto simp: answer3_def ev0_def mem_simps Let_def dest!: spec [of _ 0])

end
