(* ===== verification/Usm_State.thy ===== *)
theory Usm_State
  imports Policy_Tables Linked_List Mem_Channel
begin

text \<open>
  The state of the daemon and the helpers of \<open>include/usm/usm.h\<close>: the table of
  managed pages, the process descriptors, the counters, and the links of the list
  nodes.  List nodes of one kind have a heap of links of their own (the lists of the
  daemon never mix kinds): \<open>links\<close> for the \<open>iulist\<close> of the pages' nodes, \<open>tlinks\<close> and
  \<open>glinks\<close> for the \<open>iulist\<close> and \<open>globlist\<close> of swap entries, \<open>slinks\<close> for the swap
  slots.  A node is the address of its link field, so \<open>list_entry\<close> is the identity;
  \<open>node_page\<close> is the \<open>usmPage\<close> of a node, as an index into \<open>pagesList\<close>.  Mutexes
  protect the sequences the definitions execute in one step.  The requests sent by
  \<open>ioctl\<close> are recorded in \<open>pa_log\<close>; what the kernel answers is a parameter.
\<close>

section \<open>State\<close>

record page =
  pg_data :: u64
  pg_virtualAddress :: u64
  pg_physicalAddress :: u64
  pg_process :: u32
  pg_node :: addr \<comment> \<open>\<open>usedListPositionPointer\<close>, 0 for NULL\<close>

record processDesc =
  pd_alloc_policy :: u64
  pd_swap_policy :: u64
  pd_allocated :: u64
  pd_swapped :: u64
  pd_swapList :: addr \<comment> \<open>the addresses of the embedded list heads\<close>
  pd_usedList :: addr
  pd_swapCache :: addr
  pd_prio :: int

record uffdio_palloc =
  pa_fd :: u32
  pa_addr :: u64
  pa_uaddr :: u64
  pa_opt :: nat

record usm_state =
  pagesList :: "u64 \<Rightarrow> page"
  globalPagesNumber :: u32
  basePFN :: u64
  globalPageSize :: u32
  poolSize :: u64
  usedMemory :: u64
  swappedMemory :: u64
  procDescList :: "u32 \<Rightarrow> processDesc"
  tables :: usm_tables
  links :: lheap
  tlinks :: lheap
  glinks :: lheap
  slinks :: lheap
  node_page :: "addr \<Rightarrow> u64"
  frames :: "u64 \<Rightarrow> bytes" \<comment> \<open>the contents of a page frame, by its \<open>data\<close> pointer\<close>
  umem :: mem \<comment> \<open>the shared pages of the memory channels\<close>
  pa_log :: "uffdio_palloc list"

definition MAX_PROC :: u32 where "MAX_PROC = 1000"

text \<open>The addresses of the default operations, which descriptors point to.\<close>

definition DEFAULT_ALLOC_POLICY :: u64 where "DEFAULT_ALLOC_POLICY = 0x1000"
definition DEFAULT_SWAP_POLICY :: u64 where "DEFAULT_SWAP_POLICY = 0x2000"

abbreviation upd_page :: "u64 \<Rightarrow> (page \<Rightarrow> page) \<Rightarrow> usm_state \<Rightarrow> usm_state" where
  "upd_page i f s \<equiv> s\<lparr>pagesList := (pagesList s)(i := f (pagesList s i))\<rparr>"

abbreviation upd_proc :: "u32 \<Rightarrow> (processDesc \<Rightarrow> processDesc) \<Rightarrow> usm_state \<Rightarrow> usm_state" where
  "upd_proc p f s \<equiv> s\<lparr>procDescList := (procDescList s)(p := f (procDescList s p))\<rparr>"

section \<open>Processes\<close>

definition increaseProcessAllocatedMemory :: "u32 \<Rightarrow> u32 \<Rightarrow> usm_state \<Rightarrow> usm_state" where
  "increaseProcessAllocatedMemory process sz s =
     upd_proc process (\<lambda>d. d\<lparr>pd_allocated := pd_allocated d + ucast sz\<rparr>) s"

definition decreaseProcessAllocatedMemory :: "u32 \<Rightarrow> u32 \<Rightarrow> usm_state \<Rightarrow> usm_state" where
  "decreaseProcessAllocatedMemory process sz s =
     upd_proc process (\<lambda>d. d\<lparr>pd_allocated := pd_allocated d - ucast sz\<rparr>) s"

definition resetUsmProcess :: "u32 \<Rightarrow> usm_state \<Rightarrow> usm_state" where
  "resetUsmProcess process s =
    (let s = upd_proc process (\<lambda>d. d\<lparr>pd_alloc_policy := DEFAULT_ALLOC_POLICY, pd_swap_policy := DEFAULT_SWAP_POLICY,
               pd_allocated := 0, pd_swapped := 0\<rparr>) s;
         d = procDescList s process;
         s = s\<lparr>tlinks := INIT_LIST_HEAD (pd_swapCache d) (INIT_LIST_HEAD (pd_swapList d) (tlinks s))\<rparr>
     in upd_proc process (\<lambda>d. d\<lparr>pd_prio := 0\<rparr>) s)"

definition usmSetAllocPolicy :: "u32 \<Rightarrow> u64 \<Rightarrow> usm_state \<Rightarrow> usm_state" where
  "usmSetAllocPolicy process policy s = upd_proc process (\<lambda>d. d\<lparr>pd_alloc_policy := policy\<rparr>) s"

definition usmSetSwapPolicy :: "u32 \<Rightarrow> u64 \<Rightarrow> usm_state \<Rightarrow> usm_state" where
  "usmSetSwapPolicy process policy s = upd_proc process (\<lambda>d. d\<lparr>pd_swap_policy := policy\<rparr>) s"

definition usmGetEventPriority :: "usm_event \<Rightarrow> usm_state \<Rightarrow> int" where
  "usmGetEventPriority ev s =
     (if ev_origin ev < MAX_PROC then pd_prio (procDescList s (ev_origin ev)) else 0)"

text \<open>\<open>None\<close>: the assertion fails.\<close>

definition usmSetProcessPriority :: "usm_event \<Rightarrow> int \<Rightarrow> usm_state \<Rightarrow> usm_state option" where
  "usmSetProcessPriority ev priority s =
     (if ev_origin ev < MAX_PROC then Some (upd_proc (ev_origin ev) (\<lambda>d. d\<lparr>pd_prio := priority\<rparr>) s) else None)"

definition usmSetupProcess :: "usm_event \<Rightarrow> usm_state \<Rightarrow> usm_state option" where
  "usmSetupProcess ev s = do {
     let s = upd_proc (ev_origin ev) (\<lambda>d. d\<lparr>pd_prio := 0\<rparr>) s;
     plink \<leftarrow> (case ev_procName ev of
                 None \<Rightarrow> Some None
               | Some n \<Rightarrow> hashmap_get (process_linking (tables s)) (zero_plink\<lparr>pl_procName := n\<rparr>));
     (case plink of
        None \<Rightarrow> Some s
      | Some pl \<Rightarrow> do {
          let s = (if pl_alloc_pol pl \<noteq> 0 then usmSetAllocPolicy (ev_origin ev) (pl_alloc_pol pl) s else s);
          let s = (if pl_swp_pol pl \<noteq> 0 then usmSetSwapPolicy (ev_origin ev) (pl_swp_pol pl) s else s);
          usmSetProcessPriority ev (pl_prio pl) s
        })
   }"

text \<open>One turn of the initialisation loop of \<open>usm_init\<close>, and the loop.\<close>

definition init_proc :: "u32 \<Rightarrow> usm_state \<Rightarrow> usm_state" where
  "init_proc i s =
    (let s = upd_proc i (\<lambda>d. d\<lparr>pd_alloc_policy := DEFAULT_ALLOC_POLICY, pd_swap_policy := DEFAULT_SWAP_POLICY,
               pd_allocated := 0, pd_swapped := 0\<rparr>) s;
         d = procDescList s i;
         s = s\<lparr>tlinks := INIT_LIST_HEAD (pd_swapList d) (tlinks s)\<rparr>;
         s = s\<lparr>links := INIT_LIST_HEAD (pd_usedList d) (links s)\<rparr>;
         s = s\<lparr>tlinks := INIT_LIST_HEAD (pd_swapCache d) (tlinks s)\<rparr>
     in upd_proc i (\<lambda>d. d\<lparr>pd_prio := 0\<rparr>) s)"

fun init_procs :: "nat \<Rightarrow> usm_state \<Rightarrow> usm_state" where
  "init_procs 0 s = s"
| "init_procs (Suc n) s = init_proc (of_nat n) (init_procs n s)"

section \<open>Pages\<close>

definition usmPfnToUsedListNode :: "u64 \<Rightarrow> usm_state \<Rightarrow> addr" where
  "usmPfnToUsedListNode pfn s = pg_node (pagesList s pfn)"

definition usmSetUsedListNode :: "u64 \<Rightarrow> addr \<Rightarrow> usm_state \<Rightarrow> usm_state" where
  "usmSetUsedListNode pg node s = upd_page pg (\<lambda>p. p\<lparr>pg_node := node\<rparr>) s"

definition usmResetUsedListNode :: "u64 \<Rightarrow> usm_state \<Rightarrow> usm_state" where
  "usmResetUsedListNode pg s = upd_page pg (\<lambda>p. p\<lparr>pg_node := 0\<rparr>) s"

definition usmPfnToPageIndex :: "u64 \<Rightarrow> usm_state \<Rightarrow> u32" where
  "usmPfnToPageIndex pfn s = ucast (pfn - basePFN s)"

text \<open>The page of an event, as an index; \<open>None\<close> for NULL.\<close>

definition usmEventToPage :: "usm_event \<Rightarrow> usm_state \<Rightarrow> u64 option" where
  "usmEventToPage ev s =
    (if usmPfnToPageIndex (ev_paddr ev) s \<ge> globalPagesNumber s \<or> ev_paddr ev < basePFN s then None
     else Some (ev_paddr ev - basePFN s))"

definition usmPageToUsedListNode :: "u64 \<Rightarrow> usm_state \<Rightarrow> addr option" where
  "usmPageToUsedListNode pg s =
     (if pg_node (pagesList s pg) = 0 then None else Some (pg_node (pagesList s pg)))"

definition usmLinkPage :: "u64 \<Rightarrow> usm_event \<Rightarrow> usm_state \<Rightarrow> usm_state" where
  "usmLinkPage pg ev s =
     upd_page pg (\<lambda>p. p\<lparr>pg_virtualAddress := ev_vaddr ev, pg_process := ev_origin ev\<rparr>) s"

definition usmCheckPageAlive :: "u64 \<Rightarrow> usm_state \<Rightarrow> bool" where
  "usmCheckPageAlive pg s \<longleftrightarrow> pd_prio (procDescList s (pg_process (pagesList s pg))) = - 1"

definition insertPage :: "u64 \<Rightarrow> u64 \<Rightarrow> u64 \<Rightarrow> usm_state \<Rightarrow> usm_state" where
  "insertPage physicalAddress dat pos s =
     upd_page pos (\<lambda>p. p\<lparr>pg_data := dat, pg_physicalAddress := physicalAddress, pg_virtualAddress := 0, pg_process := 0\<rparr>) s"

text \<open>The loop over \<open>insertPage\<close> in \<open>usm_init\<close>.\<close>

fun insert_pages :: "u64 \<Rightarrow> nat \<Rightarrow> usm_state \<Rightarrow> usm_state" where
  "insert_pages usmZone 0 s = s"
| "insert_pages usmZone (Suc n) s =
     insertPage (basePFN s + of_nat n) (usmZone + of_nat n * SYS_PAGE_SIZE) (of_nat n) (insert_pages usmZone n s)"

section \<open>Requests to the kernel\<close>

text \<open>The result of an \<open>ioctl\<close>, its error number and the value it leaves in \<open>uaddr\<close>.\<close>

record ioctl_result =
  io_ret :: int
  io_errno :: nat
  io_uaddr :: u64

definition ESRCH :: nat where "ESRCH = 3"
definition EINVAL :: nat where "EINVAL = 22"

definition set_pfn_result :: "ioctl_result \<Rightarrow> nat" where
  "set_pfn_result r = (if io_ret r \<noteq> 1 then if io_errno r = ESRCH \<or> io_errno r = EINVAL then 2 else 1 else 0)"

definition usm_set_pfn :: "(uffdio_palloc \<Rightarrow> ioctl_result) \<Rightarrow> u32 \<Rightarrow> u64 \<Rightarrow> u64 \<Rightarrow> usm_state \<Rightarrow> nat \<times> usm_state" where
  "usm_set_pfn io process addr pfn s =
    (let req = \<lparr>pa_fd = process, pa_addr = addr, pa_uaddr = pfn, pa_opt = 4\<rparr>
     in (set_pfn_result (io req), s\<lparr>pa_log := pa_log s @ [req]\<rparr>))"

definition usm_set_pfn_emul :: "(uffdio_palloc \<Rightarrow> ioctl_result) \<Rightarrow> u32 \<Rightarrow> u64 \<Rightarrow> u64 \<Rightarrow> usm_state \<Rightarrow> nat \<times> usm_state" where
  "usm_set_pfn_emul io process addr pfn s =
    (let req = \<lparr>pa_fd = process, pa_addr = addr, pa_uaddr = 0, pa_opt = 9\<rparr>
     in (set_pfn_result (io req), s\<lparr>pa_log := pa_log s @ [req]\<rparr>))"

definition usm_set_pfn_iuthread :: "(uffdio_palloc \<Rightarrow> ioctl_result) \<Rightarrow> u32 \<Rightarrow> u64 \<Rightarrow> u64 \<Rightarrow> usm_state \<Rightarrow> nat \<times> usm_state" where
  "usm_set_pfn_iuthread io process addr pfn s =
    (let req = \<lparr>pa_fd = process, pa_addr = addr, pa_uaddr = pfn, pa_opt = 4\<rparr>
     in (set_pfn_result (io req), s\<lparr>pa_log := pa_log s @ [req]\<rparr>))"

definition usm_get_pfn :: "(uffdio_palloc \<Rightarrow> ioctl_result) \<Rightarrow> u32 \<Rightarrow> u64 \<Rightarrow> u64 \<Rightarrow> usm_state \<Rightarrow> u64 \<times> usm_state" where
  "usm_get_pfn io process addr nr s =
    (let req = \<lparr>pa_fd = process, pa_addr = addr, pa_uaddr = nr, pa_opt = 3\<rparr>
     in (if io_ret (io req) < 0 then 1 else io_uaddr (io req), s\<lparr>pa_log := pa_log s @ [req]\<rparr>))"

definition usm_clear_pfn :: "(uffdio_palloc \<Rightarrow> ioctl_result) \<Rightarrow> u32 \<Rightarrow> u64 \<Rightarrow> usm_state \<Rightarrow> nat \<times> usm_state" where
  "usm_clear_pfn io process addr s =
    (let req = \<lparr>pa_fd = process, pa_addr = addr, pa_uaddr = 0, pa_opt = 2\<rparr>
     in (if io_ret (io req) \<noteq> 1 then 1 else 0, s\<lparr>pa_log := pa_log s @ [req]\<rparr>))"

definition usm_clear_and_set :: "(uffdio_palloc \<Rightarrow> ioctl_result) \<Rightarrow> u32 \<Rightarrow> u64 \<Rightarrow> u64 \<Rightarrow> usm_state \<Rightarrow> nat \<times> usm_state" where
  "usm_clear_and_set io process addr offst s =
    (let req = \<lparr>pa_fd = process, pa_addr = addr, pa_uaddr = offst, pa_opt = 5\<rparr>
     in (if io_ret (io req) \<noteq> 1 then 1 else 0, s\<lparr>pa_log := pa_log s @ [req]\<rparr>))"

section \<open>Workers\<close>

text \<open>\<open>workersIterator\<close> is the list of workers from it on; \<open>id--\<close> in the loop condition is
  evaluated only when the iterator is not NULL.\<close>

fun choose_loop :: "'w list \<Rightarrow> int \<Rightarrow> 'w list \<times> int" where
  "choose_loop [] n = ([], n)"
| "choose_loop (w # ws) n = (if n = 0 then (w # ws, n - 1) else choose_loop ws (n - 1))"

datatype 'w worker_choice = Worker 'w | NullWorker | Abort

definition usmChooseWorker :: "'w list \<Rightarrow> int \<Rightarrow> 'w worker_choice" where
  "usmChooseWorker workers wid =
    (let (it, wid) = (if wid \<noteq> 0 then choose_loop workers wid else (workers, wid))
     in if wid \<noteq> 0 then Abort else case it of [] \<Rightarrow> NullWorker | w # _ \<Rightarrow> Worker w)"

section \<open>Properties\<close>

lemma choose_loop_short:
  "0 \<le> n \<Longrightarrow> nat n < length ws \<Longrightarrow> choose_loop ws n = (drop (nat n) ws, - 1)"
  by (induction ws n rule: choose_loop.induct) (auto simp: nat_diff_distrib' Suc_diff_Suc drop_Cons' not_less)

lemma choose_loop_long:
  "n < 0 \<or> int (length ws) \<le> n \<Longrightarrow> choose_loop ws n = ([], n - int (length ws))"
  by (induction ws n rule: choose_loop.induct) auto

text \<open>\<open>usmChooseWorker\<close> finds a worker only for the identifier 0, the first one.  For
  every other identifier of an existing worker it aborts, for the number of
  workers it returns NULL, and for any other number it aborts.\<close>

theorem usmChooseWorker_only_first:
  "usmChooseWorker (w # ws) n =
    (if n = 0 then Worker w else if n = 1 + int (length ws) then NullWorker else Abort)"
proof (cases "0 < n \<and> nat n < length (w # ws)")
  case True
  then show ?thesis
    using choose_loop_short [of n "w # ws"] by (auto simp: usmChooseWorker_def)
next
  case False
  then have "n = 0 \<or> n < 0 \<or> int (length (w # ws)) \<le> n" by auto
  then show ?thesis
    using choose_loop_long [of n "w # ws"] by (auto simp: usmChooseWorker_def)
qed

lemma unat_ucast_u32: "unat (ucast (x :: u64) :: u32) = unat x mod 2 ^ 32"
  by (simp add: unsigned_ucast_eq take_bit_eq_mod)

text \<open>The page an event resolves to.  The range check uses the difference of the page
  frames cut to 32 bits, the result the whole difference: the pages of the pool
  are resolved, frames below the base are refused, and a frame \<open>2 ^ 32\<close> or more
  above it is accepted with an index outside of the pool whenever its low 32 bits
  fall into it.\<close>

theorem usmEventToPage_range:
  "usmEventToPage ev s = Some i \<longleftrightarrow>
    i = ev_paddr ev - basePFN s \<and> basePFN s \<le> ev_paddr ev \<and> unat i mod 2 ^ 32 < unat (globalPagesNumber s)"
  by (auto simp: usmEventToPage_def usmPfnToPageIndex_def word_le_nat_alt word_less_nat_alt unat_ucast_u32 not_le)

lemma insert_pages_keeps [simp]:
  "basePFN (insert_pages z n s) = basePFN s" "globalPagesNumber (insert_pages z n s) = globalPagesNumber s"
  "links (insert_pages z n s) = links s" "usedMemory (insert_pages z n s) = usedMemory s"
  "tables (insert_pages z n s) = tables s" "globalPageSize (insert_pages z n s) = globalPageSize s"
  "umem (insert_pages z n s) = umem s" "node_page (insert_pages z n s) = node_page s"
  "tlinks (insert_pages z n s) = tlinks s" "glinks (insert_pages z n s) = glinks s"
  "procDescList (insert_pages z n s) = procDescList s"
  by (induction n) (simp_all add: insertPage_def)

lemma of_nat_u64_eq: "i < 2 ^ 64 \<Longrightarrow> j < 2 ^ 64 \<Longrightarrow> (of_nat i :: u64) = of_nat j \<longleftrightarrow> i = j"
  by (simp add: word_of_nat_eq_iff take_bit_nat_eq_self)

lemma unat_of_nat_u64: "n < 2 ^ 64 \<Longrightarrow> unat (of_nat n :: u64) = n"
  by (simp add: unsigned_of_nat take_bit_nat_eq_self)

lemma insert_pages_nth:
  assumes "i < n" "n \<le> 2 ^ 64"
  shows "pg_physicalAddress (pagesList (insert_pages z n s) (of_nat i)) = basePFN s + of_nat i \<and>
    pg_data (pagesList (insert_pages z n s) (of_nat i)) = z + of_nat i * SYS_PAGE_SIZE \<and>
    pg_virtualAddress (pagesList (insert_pages z n s) (of_nat i)) = 0 \<and> pg_process (pagesList (insert_pages z n s) (of_nat i)) = 0"
  using assms
proof (induction n)
  case (Suc n)
  have "(of_nat i :: u64) \<noteq> of_nat n" if "i \<noteq> n"
    using of_nat_u64_eq Suc.prems that by simp
  then show ?case using Suc by (cases "i = n") (auto simp: insertPage_def)
qed simp

text \<open>The page table that \<open>usm_init\<close> builds and the resolution of events are inverse
  to each other: an event that names the page frame of the i-th page resolves to
  page i.\<close>

theorem usmEventToPage_inverse:
  assumes "i < unat (globalPagesNumber s)" "unat (basePFN s) + unat (globalPagesNumber s) < 2 ^ 64"
    "s' = insert_pages usmZone (unat (globalPagesNumber s)) s"
    "ev_paddr ev = pg_physicalAddress (pagesList s' (of_nat i))"
  shows "usmEventToPage ev s' = Some (of_nat i)"
proof -
  have n: "unat (globalPagesNumber s) < 2 ^ 32" using unsigned_less [of "globalPagesNumber s"] by simp
  have i: "i < 2 ^ 32" using assms(1) n by simp
  have p: "ev_paddr ev = basePFN s + of_nat i"
    using insert_pages_nth [OF assms(1)] n assms(3,4) by simp
  have ui: "unat (of_nat i :: u64) = i" using i by (simp add: unsigned_of_nat take_bit_nat_eq_self)
  have "unat (basePFN s + of_nat i) = unat (basePFN s) + i"
    using assms(1,2) ui by (subst unat_word_ariths) simp
  then have "basePFN s \<le> basePFN s + of_nat i" by (simp add: word_le_nat_alt)
  then show ?thesis
    using p ui i assms(1,3) by (simp add: usmEventToPage_range)
qed

definition state0 :: usm_state where
  "state0 = \<lparr>pagesList = (\<lambda>_. \<lparr>pg_data = 0, pg_virtualAddress = 0, pg_physicalAddress = 0, pg_process = 0, pg_node = 0\<rparr>),
     globalPagesNumber = 4, basePFN = 100, globalPageSize = 4096, poolSize = 16384, usedMemory = 0, swappedMemory = 0,
     procDescList = (\<lambda>_. \<lparr>pd_alloc_policy = DEFAULT_ALLOC_POLICY, pd_swap_policy = DEFAULT_SWAP_POLICY, pd_allocated = 0,
       pd_swapped = 0, pd_swapList = 3, pd_usedList = 4, pd_swapCache = 5, pd_prio = 0\<rparr>),
     tables = tables0, links = links0, tlinks = links0, glinks = links0, slinks = links0, node_page = (\<lambda>_. 0),
     frames = (\<lambda>_. []), umem = (\<lambda>_. 0), pa_log = []\<rparr>"

theorem usmEventToPage_inverse_witness:
  "usmEventToPage (ev0\<lparr>ev_paddr := pg_physicalAddress (pagesList (insert_pages 65536 4 state0) 2)\<rparr>)
     (insert_pages 65536 4 state0) = Some 2"
  using usmEventToPage_inverse [of 2 state0 "insert_pages 65536 4 state0" 65536
      "ev0\<lparr>ev_paddr := pg_physicalAddress (pagesList (insert_pages 65536 4 state0) 2)\<rparr>"]
  by (simp add: state0_def)

lemma usmSetupProcess_ok:
  assumes "tables_ok (tables s)" "ev_origin ev < MAX_PROC"
  shows "\<exists>s'. usmSetupProcess ev s = Some s' \<and> (\<forall>p. p \<noteq> ev_origin ev \<longrightarrow> procDescList s' p = procDescList s p) \<and>
    procDescList s' (ev_origin ev) =
      (case Option.bind (ev_procName ev) (\<lambda>n. hm_lookup (process_linking (tables s)) (zero_plink\<lparr>pl_procName := n\<rparr>)) of
         None \<Rightarrow> (procDescList s (ev_origin ev))\<lparr>pd_prio := 0\<rparr>
       | Some pl \<Rightarrow> (procDescList s (ev_origin ev))\<lparr>
           pd_alloc_policy := (if pl_alloc_pol pl = 0 then pd_alloc_policy (procDescList s (ev_origin ev)) else pl_alloc_pol pl),
           pd_swap_policy := (if pl_swp_pol pl = 0 then pd_swap_policy (procDescList s (ev_origin ev)) else pl_swp_pol pl),
           pd_prio := pl_prio pl\<rparr>)"
proof (cases "ev_procName ev")
  case None
  then show ?thesis by (simp add: usmSetupProcess_def Let_def)
next
  case (Some n)
  have g: "hashmap_get (process_linking (tables s)) k = Some (hm_lookup (process_linking (tables s)) k)" for k
    using plink_table.get_returns [of "process_linking (tables s)"] assms(1) by (simp add: tables_ok_def)
  show ?thesis
  proof (cases "hm_lookup (process_linking (tables s)) (zero_plink\<lparr>pl_procName := n\<rparr>)")
    case None
    then show ?thesis using Some g by (simp add: usmSetupProcess_def Let_def)
  next
    case (Some pl)
    then show ?thesis
      using \<open>ev_procName ev = Some n\<close> g assms(2)
      by (simp add: usmSetupProcess_def Let_def usmSetProcessPriority_def usmSetAllocPolicy_def usmSetSwapPolicy_def)
  qed
qed

text \<open>Setting up a process returns, touches no other descriptor and gives the process
  the policies and the priority its name is linked to; a policy that is not linked
  stays the one the descriptor already had, which for a recycled descriptor is the
  policy of its previous process.\<close>

theorem usmSetupProcess_correct:
  assumes "tables_ok (tables s)" "ev_origin ev < MAX_PROC"
  shows "\<exists>s'. usmSetupProcess ev s = Some s' \<and> (\<forall>p. p \<noteq> ev_origin ev \<longrightarrow> procDescList s' p = procDescList s p) \<and>
    procDescList s' (ev_origin ev) =
      (case Option.bind (ev_procName ev) (\<lambda>n. hm_lookup (process_linking (tables s)) (zero_plink\<lparr>pl_procName := n\<rparr>)) of
         None \<Rightarrow> (procDescList s (ev_origin ev))\<lparr>pd_prio := 0\<rparr>
       | Some pl \<Rightarrow> (procDescList s (ev_origin ev))\<lparr>
           pd_alloc_policy := (if pl_alloc_pol pl = 0 then pd_alloc_policy (procDescList s (ev_origin ev)) else pl_alloc_pol pl),
           pd_swap_policy := (if pl_swp_pol pl = 0 then pd_swap_policy (procDescList s (ev_origin ev)) else pl_swp_pol pl),
           pd_prio := pl_prio pl\<rparr>)"
  by (rule usmSetupProcess_ok [OF assms])

theorem usmSetupProcess_correct_witness:
  "\<exists>s'. usmSetupProcess (ev0\<lparr>ev_type := NEW_PROC\<rparr>) state0 = Some s' \<and> pd_prio (procDescList s' 5) = 0"
proof -
  have "tables_ok (tables state0)" using tables0_ok by (simp add: state0_def)
  moreover have "ev_origin (ev0\<lparr>ev_type := NEW_PROC\<rparr>) < MAX_PROC" by (simp add: ev0_def MAX_PROC_def)
  ultimately show ?thesis
    using usmSetupProcess_correct [of state0 "ev0\<lparr>ev_type := NEW_PROC\<rparr>"] by (auto simp: ev0_def)
qed

end
