(* ===== verification/List_Family.thy ===== *)
theory List_Family
  imports Linked_List
begin

text \<open>
  Several linked lists in one heap of links.  The policies move nodes between lists
  (free pages, used pages, pages taken for a request, swap nodes), so what an
  operation does to one list matters as much as that it leaves the others alone:
  \<open>heap_lists h L\<close> gives the contents of a family of disjoint lists, and every list
  operation is an update of the family.  The second part is \<open>list_for_each_safe\<close> over a state that
  contains the heap, with the rule for bodies that consume the list they traverse.
\<close>

named_theorems family \<open>operations as updates of a family of lists\<close>

definition heap_lists :: "lheap \<Rightarrow> (addr \<rightharpoonup> addr list) \<Rightarrow> bool" where
  "heap_lists h L \<longleftrightarrow> (\<forall>p xs. L p = Some xs \<longrightarrow> is_list h p xs) \<and>
     (\<forall>p q xs ys. L p = Some xs \<longrightarrow> L q = Some ys \<longrightarrow> p \<noteq> q \<longrightarrow> set (p # xs) \<inter> set (q # ys) = {})"

definition unlisted :: "addr \<Rightarrow> (addr \<rightharpoonup> addr list) \<Rightarrow> bool" where
  "unlisted x L \<longleftrightarrow> (\<forall>p xs. L p = Some xs \<longrightarrow> x \<notin> set (p # xs))"

lemma listsD: "heap_lists h L \<Longrightarrow> L p = Some xs \<Longrightarrow> is_list h p xs"
  by (simp add: heap_lists_def)

lemma lists_disjoint:
  "heap_lists h L \<Longrightarrow> L p = Some xs \<Longrightarrow> L q = Some ys \<Longrightarrow> p \<noteq> q \<Longrightarrow> set (p # xs) \<inter> set (q # ys) = {}"
  by (simp add: heap_lists_def)

lemma lists_eq: "heap_lists h L \<Longrightarrow> (\<And>p. L' p = L p) \<Longrightarrow> heap_lists h L'"
  by (simp add: heap_lists_def)

lemma lists_distinct: "heap_lists h L \<Longrightarrow> L p = Some xs \<Longrightarrow> distinct (p # xs)"
  using listsD is_list_def by blast

lemma lists_empty_iff: "heap_lists h L \<Longrightarrow> L p = Some xs \<Longrightarrow> list_empty p h \<longleftrightarrow> xs = []"
  by (rule is_list_empty_iff [OF listsD])

lemma lists_first: "heap_lists h L \<Longrightarrow> L p = Some (x # xs) \<Longrightarrow> list_first_entry p h = x"
  by (rule list_h.holds_first [OF listsD])

lemma lists_last:
  assumes "heap_lists h L" "L p = Some (xs @ [x])"
  shows "lh_prev h p = x"
  using is_list_ends(2) [OF listsD [OF assms]] by simp

text \<open>What it takes to update a family: the changed list, and the nodes whose links the
  operation leaves alone.\<close>

lemma lists_update:
  assumes L: "heap_lists h L" and p: "is_list h' p xs'"
    and d: "\<And>q ys. L q = Some ys \<Longrightarrow> q \<noteq> p \<Longrightarrow> set (p # xs') \<inter> set (q # ys) = {}"
    and same: "\<And>q ys a. L q = Some ys \<Longrightarrow> q \<noteq> p \<Longrightarrow> a \<in> set (q # ys) \<Longrightarrow> same_links a h h'"
  shows "heap_lists h' (L(p \<mapsto> xs'))"
  unfolding heap_lists_def
proof (intro conjI allI impI)
  fix q ys assume q: "(L(p \<mapsto> xs')) q = Some ys"
  show "is_list h' q ys"
  proof (cases "q = p")
    case True
    then show ?thesis using p q by simp
  next
    case False
    then have "L q = Some ys" using q by simp
    then show ?thesis using is_list_same [OF listsD [OF L]] same False by blast
  qed
next
  fix q r ys zs
  assume q: "(L(p \<mapsto> xs')) q = Some ys" and r: "(L(p \<mapsto> xs')) r = Some zs" and "q \<noteq> r"
  then show "set (q # ys) \<inter> set (r # zs) = {}"
    using d [of r zs] d [of q ys] lists_disjoint [OF L, of q ys r zs]
    by (auto split: if_splits)
qed

lemma lists_add [family]:
  assumes L: "heap_lists h L" "L p = Some xs" and x: "unlisted x L"
  shows "heap_lists (list_add x p h) (L(p \<mapsto> x # xs))" "heap_lists (list_add_tail x p h) (L(p \<mapsto> xs @ [x]))"
proof -
  have l: "is_list h p xs" and nx: "x \<notin> set (p # xs)" using L x by (auto simp: listsD unlisted_def)
  have d: "set (p # xs) \<inter> set (q # ys) = {}" "x \<notin> set (q # ys)" if "L q = Some ys" "q \<noteq> p" for q ys
    using lists_disjoint [OF L(1,2) that(1)] x that by (auto simp: unlisted_def)
  show "heap_lists (list_add x p h) (L(p \<mapsto> x # xs))"
  proof (rule lists_update [OF L(1) list_add_is_list [OF l nx]])
    show "same_links a h (list_add x p h)" if "L q = Some ys" "q \<noteq> p" "a \<in> set (q # ys)" for q ys a
      using d [OF that(1,2)] that(3) by (intro list_add_same [OF l]) auto
    show "set (p # x # xs) \<inter> set (q # ys) = {}" if "L q = Some ys" "q \<noteq> p" for q ys
      using d [OF that] by auto
  qed
  show "heap_lists (list_add_tail x p h) (L(p \<mapsto> xs @ [x]))"
  proof (rule lists_update [OF L(1) list_add_tail_is_list [OF l nx]])
    show "same_links a h (list_add_tail x p h)" if "L q = Some ys" "q \<noteq> p" "a \<in> set (q # ys)" for q ys a
      using d [OF that(1,2)] that(3) by (intro list_add_tail_same [OF l]) auto
    show "set (p # xs @ [x]) \<inter> set (q # ys) = {}" if "L q = Some ys" "q \<noteq> p" for q ys
      using d [OF that] by auto
  qed
qed

lemma unlisted_del:
  assumes "heap_lists h L" "L p = Some (ys @ x # zs)"
  shows "unlisted x (L(p \<mapsto> ys @ zs))"
  unfolding unlisted_def
proof (intro allI impI)
  fix q us assume q: "(L(p \<mapsto> ys @ zs)) q = Some us"
  show "x \<notin> set (q # us)"
    using q lists_distinct [OF assms] lists_disjoint [OF assms, of q us] by (cases "q = p") auto
qed

lemma lists_unlink:
  assumes L: "heap_lists h L" "L p = Some (ys @ x # zs)" and l: "is_list h' p (ys @ zs)"
    and same: "\<And>a. a \<notin> set (p # ys @ x # zs) \<Longrightarrow> same_links a h h'"
  shows "heap_lists h' (L(p \<mapsto> ys @ zs))"
proof (rule lists_update [OF L(1) l])
  fix q us assume q: "L q = Some us" "q \<noteq> p"
  then have d: "set (p # ys @ x # zs) \<inter> set (q # us) = {}" using lists_disjoint [OF L q(1)] by auto
  then show "set (p # ys @ zs) \<inter> set (q # us) = {}" by auto
  show "same_links a h h'" if "a \<in> set (q # us)" for a using d that by (intro same) auto
qed

lemma lists_del [family]:
  assumes L: "heap_lists h L" "L p = Some (ys @ x # zs)"
  shows "heap_lists (list_del x h) (L(p \<mapsto> ys @ zs))" "heap_lists (list_del_init x h) (L(p \<mapsto> ys @ zs))"
    "heap_lists (list_del_between (lh_prev h x) (lh_next h x) h) (L(p \<mapsto> ys @ zs))"
proof -
  note l = listsD [OF L]
  show "heap_lists (list_del x h) (L(p \<mapsto> ys @ zs))"
    by (rule lists_unlink [OF L list_del_is_list(1) [OF l] list_del_same(1) [OF l]])
  show "heap_lists (list_del_init x h) (L(p \<mapsto> ys @ zs))"
    by (rule lists_unlink [OF L list_del_init_is_list(1) [OF l] list_del_same(2) [OF l]])
  show "heap_lists (list_del_between (lh_prev h x) (lh_next h x) h) (L(p \<mapsto> ys @ zs))"
    by (rule lists_unlink [OF L _ list_del_same(3) [OF l]]) (rule list_unlink [OF l], simp_all)
qed

text \<open>Moving a node, also within its own list.\<close>

lemma lists_move [family]:
  assumes L: "heap_lists h L" "L p = Some (ys @ x # zs)" and q: "(L(p \<mapsto> ys @ zs)) q = Some ws"
  shows "heap_lists (list_move x q h) (L(p \<mapsto> ys @ zs, q \<mapsto> x # ws))"
    "heap_lists (list_move_tail x q h) (L(p \<mapsto> ys @ zs, q \<mapsto> ws @ [x]))"
  unfolding list_move_def list_move_tail_def
  using lists_add [OF lists_del(3) [OF L] q unlisted_del [OF L]] by simp_all

lemma lists_init [family]:
  assumes "heap_lists h L" "unlisted p L"
  shows "heap_lists (INIT_LIST_HEAD p h) (L(p \<mapsto> []))"
proof (rule lists_update [OF assms(1) INIT_LIST_HEAD_is_list])
  show "set [p] \<inter> set (q # ys) = {}" if "L q = Some ys" for q ys
    using assms(2) that by (auto simp: unlisted_def)
  show "same_links a h (INIT_LIST_HEAD p h)" if "L q = Some ys" "a \<in> set (q # ys)" for q ys a
    using assms(2) that by (auto simp: unlisted_def same_links_def INIT_LIST_HEAD_def)
qed

lemma lists_sub: "heap_lists h L \<Longrightarrow> L' \<subseteq>\<^sub>m L \<Longrightarrow> heap_lists h L'"
  unfolding heap_lists_def map_le_def dom_def by (metis (mono_tags, lifting) mem_Collect_eq option.distinct(1))

text \<open>Initialising a node that is in no list.\<close>

lemma lists_init_node [family]: "heap_lists h L \<Longrightarrow> unlisted x L \<Longrightarrow> heap_lists (INIT_LIST_HEAD x h) L"
  by (rule lists_sub [OF lists_init]) (auto simp: map_le_def unlisted_def)

section \<open>Traversal\<close>

partial_function (option) each_safe ::
  "('s \<Rightarrow> lheap) \<Rightarrow> (addr \<Rightarrow> 's \<Rightarrow> 's) \<Rightarrow> addr \<Rightarrow> addr \<Rightarrow> addr \<Rightarrow> 's \<Rightarrow> 's option" where
  "each_safe L body pos n head s =
    (if pos = head then Some s
     else let s = body pos s in each_safe L body n (lh_next (L s) n) head s)"

definition for_each_safe :: "('s \<Rightarrow> lheap) \<Rightarrow> (addr \<Rightarrow> 's \<Rightarrow> 's) \<Rightarrow> addr \<Rightarrow> 's \<Rightarrow> 's option" where
  "for_each_safe L body head s =
    (let pos = lh_next (L s) head in each_safe L body pos (lh_next (L s) pos) head s)"

text \<open>A body that consumes the node it is given: \<open>P s xs\<close> is what holds with \<open>xs\<close> left.\<close>

lemma for_each_safe_consume:
  assumes step: "\<And>s x xs. P s (x # xs) \<Longrightarrow> P (body x s) xs"
    and l: "\<And>s xs. P s xs \<Longrightarrow> is_list (L s) head xs" and s: "P s xs"
  shows "for_each_safe L body head s = Some (fold body xs s) \<and> P (fold body xs s) []"
  using s
proof (induction xs arbitrary: s)
  case Nil
  then show ?case
    using is_list_ends(1) [OF l [OF Nil]] by (simp add: for_each_safe_def Let_def each_safe.simps [of _ _ head])
next
  case (Cons x xs)
  have c: "chain (L s) head (x # xs) head" "distinct (head # x # xs)"
    using l [OF Cons.prems] by (auto simp: is_list_def)
  have x: "lh_next (L s) head = x" "x \<noteq> head" "lh_next (L s) x = hd (xs @ [head])"
    using c chain_ends(2) by (auto simp: linked_def)
  note b = step [OF Cons.prems]
  have n: "lh_next (L (body x s)) head = hd (xs @ [head])" by (rule is_list_ends(1) [OF l [OF b]])
  have "for_each_safe L body head s = for_each_safe L body head (body x s)"
    using x n by (simp add: for_each_safe_def Let_def each_safe.simps [of _ _ x])
  then show ?case using Cons.IH [OF b] by simp
qed

end
