(* ===== verification/Alloc_Policy.thy ===== *)
theory Alloc_Policy
  imports Usm_State List_Family
begin

text \<open>
  The allocation policies of \<open>examples/project-2/alloc/src/policiesSet1.c\<close>: the lists
  of free and used pages, the policies that serve a fault with one page or with a
  run of pages announced on the memory channel, the frees, the page services the
  swap module uses, and their setup.  The list operations are those of
  \<open>Linked_List\<close> on the heap of links; \<open>pool\<close> relates that heap to two HOL lists.  A
  head that the code allocates or keeps on its stack is a parameter.  Where a loop
  or the kernel may never answer, the result is an option.
\<close>

section \<open>Lists of pages\<close>

text \<open>The addresses of the global heads.\<close>

definition freeList :: addr where "freeList = 1"
definition usedList :: addr where "usedList = 2"

abbreviation upd_links :: "(lheap \<Rightarrow> lheap) \<Rightarrow> usm_state \<Rightarrow> usm_state" where
  "upd_links f s \<equiv> s\<lparr>links := f (links s)\<rparr>"

definition page_of :: "addr \<Rightarrow> usm_state \<Rightarrow> page" where
  "page_of node s = pagesList s (node_page s node)"

definition put_page :: "addr \<Rightarrow> usm_state \<Rightarrow> usm_state" where
  "put_page pageNode s = upd_links (list_move_tail pageNode freeList) s"

definition consume_pages :: "addr \<Rightarrow> usm_state \<Rightarrow> usm_state option" where
  "consume_pages pages s =
    for_each_safe links (\<lambda>it s. (upd_links (list_move_tail it usedList) s)\<lparr>usedMemory := usedMemory s + SYS_PAGE_SIZE\<rparr>) pages s"

definition consume_one :: "u32 \<Rightarrow> addr \<Rightarrow> usm_state \<times> u64 \<Rightarrow> usm_state \<times> u64" where
  "consume_one origin node = (\<lambda>(s, addr).
    let s = upd_page (node_page s node) (\<lambda>p. p\<lparr>pg_virtualAddress := addr, pg_process := origin\<rparr>) s;
        s = upd_links (list_move_tail node usedList) s;
        s = s\<lparr>usedMemory := usedMemory s + SYS_PAGE_SIZE\<rparr>
    in (s, addr + SYS_PAGE_SIZE))"

definition consume_pages_acct :: "addr \<Rightarrow> u64 \<Rightarrow> u32 \<Rightarrow> usm_state \<Rightarrow> usm_state option" where
  "consume_pages_acct pages addr origin s =
     Option.bind (for_each_safe (\<lambda>(s, _). links s) (consume_one origin) pages (s, addr)) (\<lambda>(s, _). Some s)"

definition give_back_pages :: "addr \<Rightarrow> usm_state \<Rightarrow> usm_state option" where
  "give_back_pages pages s =
    for_each_safe links (\<lambda>it s. (upd_links (list_move_tail it freeList) s)\<lparr>usedMemory := usedMemory s - SYS_PAGE_SIZE\<rparr>) pages s"

fun pick_loop :: "addr \<Rightarrow> nat \<Rightarrow> usm_state \<Rightarrow> nat \<times> usm_state" where
  "pick_loop placeholder 0 s = (0, s)"
| "pick_loop placeholder (Suc n) s =
    (if list_empty freeList (links s) then (Suc n, s)
     else let chosenPage = list_first_entry freeList (links s);
              s = upd_links (list_move chosenPage placeholder) s
          in pick_loop placeholder n (s\<lparr>usedMemory := usedMemory s + SYS_PAGE_SIZE\<rparr>))"

definition pick_pages :: "addr \<Rightarrow> nat \<Rightarrow> usm_state \<Rightarrow> nat \<times> usm_state" where
  "pick_pages placeholder nr s = (let (rest, s) = pick_loop placeholder nr s in (nr - rest, s))"

definition give_back_page_used :: "addr \<Rightarrow> usm_state \<Rightarrow> usm_state" where
  "give_back_page_used pg s = upd_links (list_add pg usedList) s"

definition hold_used_page_commit :: "addr \<Rightarrow> usm_state \<Rightarrow> usm_state" where
  "hold_used_page_commit pg s = upd_links (list_del_init pg) s"

definition pages_acct :: "u32 \<Rightarrow> u32 \<Rightarrow> u64 \<Rightarrow> addr \<Rightarrow> usm_state \<Rightarrow> usm_state option" where
  "pages_acct origin ret addr l_ps s =
    (if ret \<noteq> 0 then give_back_pages l_ps s else consume_pages_acct l_ps addr origin s)"

section \<open>Allocation\<close>

text \<open>Every node of the lists has a page, which the setup gives it: the branch of
  \<open>basic_alloc_uniq\<close> for a node without one has no counterpart.\<close>

text \<open>The loop of \<open>get_pages_prep\<close>: the pages left to take, the position of the current
  entry, its count and the state.\<close>

fun prep_loop :: "usm_event \<Rightarrow> addr \<Rightarrow> nat \<Rightarrow> nat \<Rightarrow> u32 \<Rightarrow> u64 \<Rightarrow> usm_state \<Rightarrow> nat \<times> nat \<times> u32 \<times> usm_state" where
  "prep_loop ev placeholder 0 pos cnt vpfn s = (0, pos, cnt, s)"
| "prep_loop ev placeholder (Suc nr) pos cnt vpfn s =
    (if list_empty freeList (links s) then (Suc nr, pos, cnt, s)
     else
       let chosenPage = list_first_entry freeList (links s);
           s = upd_links (list_move_tail chosenPage placeholder) s;
           pfn = pg_physicalAddress (page_of chosenPage s)
       in if vpfn = pfn then prep_loop ev placeholder nr pos (cnt + 1) (pfn + 1) s
          else prep_loop ev placeholder nr (pos + 1) 0 (pfn + 1)
                 (s\<lparr>umem := usmPrepPreAlloc ev pfn (pos + 1) (usmPrepPreAllocFastCounted ev pos cnt (umem s))\<rparr>))"

definition get_pages_prep :: "addr \<Rightarrow> int \<Rightarrow> usm_event \<Rightarrow> usm_state \<Rightarrow> int \<times> usm_event \<times> usm_state" where
  "get_pages_prep placeholder nr ev s =
    (if list_empty freeList (links s) then (0, ev, s)
     else
       let chosenPage = list_first_entry freeList (links s);
           s = upd_links (list_move_tail chosenPage placeholder) s;
           ev = ev\<lparr>ev_paddr := pg_physicalAddress (page_of chosenPage s)\<rparr>;
           nbr = nr;
           nr = nr - 1
       in if list_empty freeList (links s) then (nbr - nr, ev, s)
          else
            let chosenPage = list_first_entry freeList (links s);
                s = upd_links (list_move_tail chosenPage placeholder) s;
                vpfn = pg_physicalAddress (page_of chosenPage s);
                s = s\<lparr>umem := usmPrepPreAlloc ev vpfn 0 (umem s)\<rparr>;
                (left, pos, cnt, s) = prep_loop ev placeholder (nat nr) 0 0 (vpfn + 1) s;
                s = (if cnt \<noteq> 0 then s\<lparr>umem := usmPrepPreAllocFastCounted ev pos cnt (umem s)\<rparr> else s)
            in (nbr - (if nr > 0 then int left else nr), ev, s))"

definition basic_alloc_uniq :: "(nat \<Rightarrow> mem \<Rightarrow> mem) \<Rightarrow> usm_event \<Rightarrow> usm_state \<Rightarrow> (u32 \<times> usm_event \<times> usm_state) option" where
  "basic_alloc_uniq env ev s =
    (if list_empty freeList (links s) then Some (1, ev, s)
     else
       let freeListNode = list_first_entry freeList (links s);
           s = s\<lparr>usedMemory := usedMemory s + ucast (globalPageSize s)\<rparr>;
           s = upd_links (list_del freeListNode) s;
           ev = ev\<lparr>ev_paddr := pg_physicalAddress (page_of freeListNode s)\<rparr>;
           ev = ev\<lparr>ev_length := 0\<rparr>
       in Option.bind (usmSubmitAllocEvent env (umem s) ev) (\<lambda>(res, m, ev).
            let s = s\<lparr>umem := m\<rparr>
            in if res \<noteq> 0
               then (let s = upd_links (list_add freeListNode freeList) s
                     in Some (res, ev, s\<lparr>usedMemory := usedMemory s - ucast (globalPageSize s)\<rparr>))
               else (let s = usmLinkPage (node_page s freeListNode) ev s
                     in Some (0, ev, upd_links (list_add_tail freeListNode usedList) s))))"

text \<open>\<open>wantedNumber\<close> is an \<open>int\<close>; \<open>pages_list\<close> is the head the function allocates.  The
  loop over unconsumed pages does not advance its position.\<close>

definition wanted_number :: "usm_event \<Rightarrow> int" where
  "wanted_number ev = (let w = sint (ucast (ev_length ev + 1) :: u32) in if w > 512 then 512 else w)"

definition unacct_node :: "usm_event \<Rightarrow> usm_state \<Rightarrow> addr" where
  "unacct_node ev s = pg_node (pagesList s (scast (usmGetUnacctPage ev 0 (umem s)) - basePFN s))"

definition basic_alloc ::
  "(nat \<Rightarrow> mem \<Rightarrow> mem) \<Rightarrow> addr \<Rightarrow> usm_event \<Rightarrow> usm_state \<Rightarrow> (u32 \<times> usm_event \<times> usm_state) option" where
  "basic_alloc env pages_list ev s = do {
     let s = upd_links (INIT_LIST_HEAD pages_list) s;
     let (avPages, ev, s) = get_pages_prep pages_list (wanted_number ev) ev s;
     (if avPages = 0 then Some (1, ev, s)
      else do {
        let ev = ev\<lparr>ev_length := of_int (avPages - 1)\<rparr>;
        (ret, m, ev) \<leftarrow> usmSubmitAllocEvent env (umem s) ev;
        let s = s\<lparr>umem := m\<rparr>;
        let (ev, s) = (if ret = 0 \<and> ev_flags ev \<noteq> 0
                       then (ev\<lparr>ev_flags := - 1\<rparr>, (put_page (unacct_node ev s) ^^ unat (ev_flags ev)) s)
                       else (ev, s));
        (if ret \<noteq> 0 then do { s \<leftarrow> give_back_pages pages_list s; Some (1, ev, s) }
         else do { s \<leftarrow> consume_pages_acct pages_list (ev_vaddr ev) (ev_origin ev) s; Some (0, ev, s) })
      })
   }"

text \<open>\<open>basic_c_alloc\<close> and the loop in its body (\<open>looping\<close>): both start by calling it.\<close>

partial_function (option) basic_c_alloc :: "bool \<Rightarrow> usm_event \<Rightarrow> (nat \<times> usm_event) option" where
  "basic_c_alloc looping ev =
    (if looping
     then Option.bind (basic_c_alloc False (ev\<lparr>ev_vaddr := ev_vaddr ev + SYS_PAGE_SIZE\<rparr>)) (\<lambda>(r, ev).
            if r \<noteq> 0 then Some (0, ev) else basic_c_alloc True ev)
     else Option.bind (basic_c_alloc False ev) (\<lambda>(r, ev).
            if r \<noteq> 0 then Some (1, ev) else basic_c_alloc True ev))"

definition double_alloc ::
  "(nat \<Rightarrow> mem \<Rightarrow> mem) \<Rightarrow> (nat \<Rightarrow> mem \<Rightarrow> mem) \<Rightarrow> addr \<Rightarrow> addr \<Rightarrow> usm_event \<Rightarrow> usm_state \<Rightarrow> (u32 \<times> usm_event \<times> usm_state) option" where
  "double_alloc env env' head head' ev s = do {
     (r, ev, s) \<leftarrow> basic_alloc env head ev s;
     (if r \<noteq> 0 then Some (1, ev, s)
      else do {
        let ev = ev\<lparr>ev_vaddr := ev_vaddr ev + SYS_PAGE_SIZE\<rparr>;
        (r, ev, s) \<leftarrow> basic_alloc env' head' ev s;
        Some (0, ev, s)
      })
   }"

definition reverse_alloc :: "(nat \<Rightarrow> mem \<Rightarrow> mem) \<Rightarrow> usm_event \<Rightarrow> usm_state \<Rightarrow> (u32 \<times> usm_event \<times> usm_state) option" where
  "reverse_alloc env ev s =
    (if list_empty freeList (links s) then Some (1, ev, s)
     else
       let freeListNode = lh_prev (links s) freeList;
           s = s\<lparr>usedMemory := usedMemory s + ucast (globalPageSize s)\<rparr>;
           s = usmSetUsedListNode (node_page s freeListNode) freeListNode s;
           s = upd_links (list_move_tail freeListNode usedList) s;
           ev = ev\<lparr>ev_paddr := pg_physicalAddress (page_of freeListNode s)\<rparr>;
           ev = ev\<lparr>ev_length := 0\<rparr>
       in Option.bind (usmSubmitAllocEvent env (umem s) ev) (\<lambda>(ret, m, ev).
            let s = s\<lparr>umem := m\<rparr>
            in if ret \<noteq> 0
               then (let s = upd_links (list_move freeListNode freeList) s
                     in Some (ret, ev, s\<lparr>usedMemory := usedMemory s - ucast (globalPageSize s)\<rparr>))
               else (let s = increaseProcessAllocatedMemory (ev_origin ev) (globalPageSize s) s;
                         s = upd_page (node_page s freeListNode)
                               (\<lambda>p. p\<lparr>pg_virtualAddress := ev_vaddr ev, pg_process := ev_origin ev\<rparr>) s
                     in Some (ret, ev, s))))"

section \<open>Frees\<close>

text \<open>\<open>list_for_each_entry\<close> with the \<open>break\<close>: the entry it stops at, the head when there
  is none.\<close>

partial_function (option) find_vaddr :: "usm_state \<Rightarrow> u64 \<Rightarrow> addr \<Rightarrow> addr option" where
  "find_vaddr s vaddr pos =
    (if pos = usedList then Some pos
     else if pg_virtualAddress (page_of pos s) = vaddr then Some pos
     else find_vaddr s vaddr (lh_next (links s) pos))"

definition zero_page :: bytes where "zero_page = replicate 4096 0"

definition basic_free :: "usm_event \<Rightarrow> usm_state \<Rightarrow> (nat \<times> usm_state) option" where
  "basic_free ev s = do {
     tempEntry \<leftarrow> find_vaddr s (ev_vaddr ev) (lh_next (links s) usedList);
     (if tempEntry = usedList then Some (1, s)
      else do {
        let pg = node_page s tempEntry;
        let s = upd_links (list_move tempEntry freeList) s;
        let s = s\<lparr>usedMemory := usedMemory s - SYS_PAGE_SIZE\<rparr>;
        let s = s\<lparr>frames := (frames s)(pg_data (pagesList s pg) := zero_page)\<rparr>;
        let s = upd_page pg (\<lambda>p. p\<lparr>pg_virtualAddress := 0\<rparr>) s;
        let s = decreaseProcessAllocatedMemory (pg_process (pagesList s pg)) (ucast SYS_PAGE_SIZE) s;
        let s = upd_page pg (\<lambda>p. p\<lparr>pg_process := 0\<rparr>) s;
        Some (0, usmResetUsedListNode pg s)
      })
   }"

definition pindex_free :: "usm_event \<Rightarrow> usm_state \<Rightarrow> (nat \<times> usm_event \<times> usm_state) option" where
  "pindex_free ev s =
    (case usmEventToPage ev s of
       None \<Rightarrow> Some (1, ev, s)
     | Some pg \<Rightarrow>
        (case usmPageToUsedListNode pg s of
           None \<Rightarrow>
             let ev = ev\<lparr>ev_vaddr := pg_virtualAddress (pagesList s pg)\<rparr>
             in Option.bind (basic_free ev s) (\<lambda>(r, s). Some (r, ev, s))
         | Some node \<Rightarrow>
             let s = s\<lparr>frames := (frames s)(pg_data (pagesList s pg) := zero_page)\<rparr>;
                 s = upd_links (list_move_tail node freeList) s;
                 s = upd_page pg (\<lambda>p. p\<lparr>pg_virtualAddress := 0\<rparr>) s;
                 s = upd_page pg (\<lambda>p. p\<lparr>pg_process := 0\<rparr>) s
             in Some (0, ev, s\<lparr>usedMemory := usedMemory s - SYS_PAGE_SIZE\<rparr>)))"

text \<open>\<open>usmPolicyDefinedFree\<close> with the policies' \<open>usm_free\<close>: one page of the range after
  the other; a length that is no multiple of the page size wraps around.\<close>

partial_function (option) usmPolicyDefinedFree :: "usm_event \<Rightarrow> usm_state \<Rightarrow> (nat \<times> usm_event \<times> usm_state) option" where
  "usmPolicyDefinedFree ev s =
    (if ev_length ev > 0
     then Option.bind (basic_free ev s) (\<lambda>(r, s).
            if r \<noteq> 0 then Some (1, ev, s)
            else usmPolicyDefinedFree (ev\<lparr>ev_vaddr := ev_vaddr ev + SYS_PAGE_SIZE, ev_length := ev_length ev - SYS_PAGE_SIZE\<rparr>) s)
     else Some (0, ev, s))"

section \<open>Setup\<close>

text \<open>The addresses of the policies' operations.\<close>

definition usm_basic_alloc_policy :: u64 where "usm_basic_alloc_policy = 0x3000"
definition alloc_policy_one :: u64 where "alloc_policy_one = 0x4000"
definition alloc_policy_double :: u64 where "alloc_policy_double = 0x5000"

text \<open>\<open>nodes i\<close> is the node allocated for the i-th page; \<open>mok k\<close> tells which allocations
  of the k-th registration succeed.\<close>

fun setup_nodes :: "(nat \<Rightarrow> addr) \<Rightarrow> nat \<Rightarrow> usm_state \<Rightarrow> usm_state" where
  "setup_nodes nodes 0 s = s"
| "setup_nodes nodes (Suc i) s =
    (let s = setup_nodes nodes i s;
         s = s\<lparr>node_page := (node_page s)(nodes i := of_nat i)\<rparr>;
         s = upd_page (of_nat i) (\<lambda>p. p\<lparr>pg_node := nodes i\<rparr>) s;
         s = upd_links (INIT_LIST_HEAD (nodes i)) s
     in upd_links (list_add_tail (nodes i) freeList) s)"

definition register_alloc :: "(nat \<Rightarrow> bool) \<Rightarrow> u64 \<Rightarrow> string \<Rightarrow> bool \<Rightarrow> usm_state \<Rightarrow> (int \<times> usm_state) option" where
  "register_alloc mok ops name dflt s =
     Option.bind (usm_register_alloc_policy mok (tables s) ops name dflt) (\<lambda>(r, t). Some (r, s\<lparr>tables := t\<rparr>))"

definition policiesSet1_setup :: "(nat \<Rightarrow> nat \<Rightarrow> bool) \<Rightarrow> (nat \<Rightarrow> addr) \<Rightarrow> nat \<Rightarrow> usm_state \<Rightarrow> (int \<times> usm_state) option" where
  "policiesSet1_setup mok nodes pagesNumber s = do {
     let s = setup_nodes nodes pagesNumber s;
     (r, s) \<leftarrow> register_alloc (mok 0) alloc_policy_one ''policyOne'' True s;
     (if r \<noteq> 0 then Some (1, s)
      else do {
        (r, s) \<leftarrow> register_alloc (mok 1) usm_basic_alloc_policy ''basicPolicy'' False s;
        (if r \<noteq> 0 then Some (1, s)
         else do {
           (r, s) \<leftarrow> register_alloc (mok 2) alloc_policy_double ''doublePolicy'' False s;
           (if r \<noteq> 0 then Some (1, s) else Some (0, s))
         })
      })
   }"

text \<open>The unlinking loops of \<open>pol_structs_free\<close>; the memory they free is not modelled.\<close>

definition pol_structs_free :: "usm_state \<Rightarrow> usm_state option" where
  "pol_structs_free s = do {
     s \<leftarrow> for_each_safe links (\<lambda>it. upd_links (list_del it)) freeList s;
     for_each_safe links (\<lambda>it. upd_links (list_del it)) usedList s
   }"


section \<open>The pool of pages\<close>

text \<open>Every node has a page of its own, within the region the daemon manages.\<close>

definition nodes_ok :: "addr set \<Rightarrow> usm_state \<Rightarrow> bool" where
  "nodes_ok X s \<longleftrightarrow> (\<forall>x \<in> X. x \<noteq> 0 \<and> pg_node (page_of x s) = x \<and>
     unat (node_page s x) < unat (globalPagesNumber s) \<and> pg_physicalAddress (page_of x s) = basePFN s + node_page s x)"

definition pool :: "usm_state \<Rightarrow> addr list \<Rightarrow> addr list \<Rightarrow> bool" where
  "pool s fs us \<longleftrightarrow> heap_lists (links s) [freeList \<mapsto> fs, usedList \<mapsto> us] \<and> nodes_ok (set fs \<union> set us) s"

lemma heads_distinct [simp]: "freeList \<noteq> usedList" "usedList \<noteq> freeList"
  by (simp_all add: freeList_def usedList_def)

lemma pool_cong:
  assumes "heap_lists (links s') [freeList \<mapsto> fs', usedList \<mapsto> us']" "nodes_ok X s" "set fs' \<union> set us' \<subseteq> X"
    "node_page s' = node_page s" "basePFN s' = basePFN s" "globalPagesNumber s' = globalPagesNumber s"
    "\<And>i. pg_node (pagesList s' i) = pg_node (pagesList s i)"
    "\<And>i. pg_physicalAddress (pagesList s' i) = pg_physicalAddress (pagesList s i)"
  shows "pool s' fs' us'"
  using assms by (auto simp: pool_def nodes_ok_def page_of_def)

lemma poolD:
  assumes "pool s fs us"
  shows "heap_lists (links s) [freeList \<mapsto> fs, usedList \<mapsto> us]" "nodes_ok (set fs \<union> set us) s"
    "list_empty freeList (links s) \<longleftrightarrow> fs = []" "distinct (fs @ us)"
proof -
  show l: "heap_lists (links s) [freeList \<mapsto> fs, usedList \<mapsto> us]" and "nodes_ok (set fs \<union> set us) s"
    using assms by (auto simp: pool_def)
  show "list_empty freeList (links s) \<longleftrightarrow> fs = []" by (rule lists_empty_iff [OF l]) simp
  show "distinct (fs @ us)"
    using lists_distinct [OF l, of freeList fs] lists_distinct [OF l, of usedList us]
      lists_disjoint [OF l, of freeList fs usedList us] by auto
qed

lemma pool_node:
  assumes "pool s fs us" "x \<in> set fs \<union> set us"
  shows "x \<noteq> 0" "pg_node (page_of x s) = x" "unat (node_page s x) < unat (globalPagesNumber s)"
    "pg_physicalAddress (page_of x s) = basePFN s + node_page s x"
  using assms by (auto simp: pool_def nodes_ok_def)

lemma subm_keeps:
  assumes "usmSubmitAllocEvent env m ev = Some (r, m', ev')"
  shows "ev_vaddr ev' = ev_vaddr ev" "ev_origin ev' = ev_origin ev" "ev_paddr ev' = ev_paddr ev"
    "ev_length ev' = ev_length ev" "ev_usmmem ev' = ev_usmmem ev"
  using assms by (auto simp: usmSubmitAllocEvent_def usm_mem_subm_ev_def Let_def split: bind_splits)

text \<open>The allocation with one page, unfolded over a pool with a free page.\<close>

lemma basic_alloc_uniq_unfold:
  assumes p: "pool s (x # fs) us"
  defines "h \<equiv> list_del x (links s)" and "pa \<equiv> basePFN s + node_page s x"
  shows "basic_alloc_uniq env ev s =
     Option.bind (usmSubmitAllocEvent env (umem s) (ev\<lparr>ev_paddr := pa, ev_length := 0\<rparr>)) (\<lambda>(res, m, ev').
     let s1 = s\<lparr>usedMemory := usedMemory s + ucast (globalPageSize s), links := h, umem := m\<rparr>
     in if res \<noteq> 0
        then Some (res, ev', s1\<lparr>links := list_add x freeList h, usedMemory := usedMemory s\<rparr>)
        else Some (0, ev', (usmLinkPage (node_page s x) ev' s1)\<lparr>links := list_add_tail x usedList h\<rparr>))"
    and "heap_lists (list_add x freeList h) [freeList \<mapsto> x # fs, usedList \<mapsto> us]"
    and "heap_lists (list_add_tail x usedList h) [freeList \<mapsto> fs, usedList \<mapsto> us @ [x]]"
proof -
  let ?L = "[freeList \<mapsto> x # fs, usedList \<mapsto> us]"
  note L = poolD(1) [OF p]
  have fL: "?L freeList = Some ([] @ x # fs)" by simp
  note d = lists_del(1) [OF L fL] and u = unlisted_del [OF L fL]
  show "heap_lists (list_add x freeList h) ?L" unfolding h_def
    by (rule lists_eq [OF lists_add(1) [OF d _ u, of freeList fs]]) simp_all
  show "heap_lists (list_add_tail x usedList h) [freeList \<mapsto> fs, usedList \<mapsto> us @ [x]]" unfolding h_def
    by (rule lists_eq [OF lists_add(2) [OF d _ u, of usedList us]]) simp_all
  have "list_first_entry freeList (links s) = x" by (rule lists_first [OF L]) simp
  moreover have "pg_physicalAddress (page_of x s) = pa" using pool_node(4) [OF p, of x] by (simp add: pa_def)
  ultimately show "basic_alloc_uniq env ev s =
     Option.bind (usmSubmitAllocEvent env (umem s) (ev\<lparr>ev_paddr := pa, ev_length := 0\<rparr>)) (\<lambda>(res, m, ev').
     let s1 = s\<lparr>usedMemory := usedMemory s + ucast (globalPageSize s), links := h, umem := m\<rparr>
     in if res \<noteq> 0
        then Some (res, ev', s1\<lparr>links := list_add x freeList h, usedMemory := usedMemory s\<rparr>)
        else Some (0, ev', (usmLinkPage (node_page s x) ev' s1)\<lparr>links := list_add_tail x usedList h\<rparr>))"
    using poolD(3) [OF p] unfolding h_def
    by (simp add: basic_alloc_uniq_def Let_def page_of_def usmLinkPage_def cong: if_cong)
qed

text \<open>C12: the allocation with one page, on every branch.  Without a free page it returns 1
  and changes nothing.  Otherwise it submits the frame of the first free page and
  returns what the submission returns: on success the page is linked to the address
  and process of the event, moved to the end of the used list and counted, and no
  other page changes; on an error the page is the first free page again and nothing
  is counted.  It does not return if the task never answers.\<close>

theorem basic_alloc_uniq_correct:
  assumes p: "pool s fs us"
  shows "case fs of [] \<Rightarrow> basic_alloc_uniq env ev s = Some (1, ev, s)
    | x # fs' \<Rightarrow>
       (case usmSubmitAllocEvent env (umem s) (ev\<lparr>ev_paddr := basePFN s + node_page s x, ev_length := 0\<rparr>) of
          None \<Rightarrow> basic_alloc_uniq env ev s = None
        | Some (r, m, ev') \<Rightarrow> \<exists>s'. basic_alloc_uniq env ev s = Some (r, ev', s') \<and> umem s' = m \<and>
            (if r = 0
             then pool s' fs' (us @ [x]) \<and> usedMemory s' = usedMemory s + ucast (globalPageSize s) \<and>
               pagesList s' = (pagesList s)(node_page s x :=
                 (page_of x s)\<lparr>pg_virtualAddress := ev_vaddr ev, pg_process := ev_origin ev\<rparr>)
             else pool s' fs us \<and> usedMemory s' = usedMemory s \<and> pagesList s' = pagesList s))"
proof (cases fs)
  case Nil
  then show ?thesis using poolD(3) [OF p] by (simp add: basic_alloc_uniq_def)
next
  case (Cons x fs')
  let ?ev = "ev\<lparr>ev_paddr := basePFN s + node_page s x, ev_length := 0\<rparr>"
  note U = basic_alloc_uniq_unfold [OF p [unfolded Cons]]
  show ?thesis
  proof (cases "usmSubmitAllocEvent env (umem s) ?ev")
    case None
    then show ?thesis using U(1) Cons by simp
  next
    case (Some a)
    obtain r m ev' where a: "a = (r, m, ev')" by (cases a)
    have ev': "ev_vaddr ev' = ev_vaddr ev" "ev_origin ev' = ev_origin ev"
      using subm_keeps(1,2) [of env "umem s" ?ev r m ev'] Some a by simp_all
    show ?thesis
      using Some a U Cons ev' poolD(2) [OF p]
      by (auto simp: Let_def usmLinkPage_def page_of_def intro!: pool_cong [where s = s and X = "set fs \<union> set us"])
  qed
qed


text \<open>Two pages and their nodes, for the witnesses.\<close>

definition nodes0 :: "nat \<Rightarrow> addr" where "nodes0 i = 64 + 64 * of_nat i"

definition pool0 :: usm_state where
  "pool0 = setup_nodes nodes0 2 (insert_pages 65536 2 (state0\<lparr>globalPagesNumber := 2\<rparr>))"

section \<open>Setting up the pool\<close>

lemma setup_nodes_keeps [simp]:
  "globalPagesNumber (setup_nodes nodes n s) = globalPagesNumber s" "basePFN (setup_nodes nodes n s) = basePFN s"
  "usedMemory (setup_nodes nodes n s) = usedMemory s" "tables (setup_nodes nodes n s) = tables s"
  "globalPageSize (setup_nodes nodes n s) = globalPageSize s" "umem (setup_nodes nodes n s) = umem s"
  "tlinks (setup_nodes nodes n s) = tlinks s" "glinks (setup_nodes nodes n s) = glinks s"
  "procDescList (setup_nodes nodes n s) = procDescList s"
  "pg_physicalAddress (pagesList (setup_nodes nodes n s) i) = pg_physicalAddress (pagesList s i)"
  by (induction n) (auto simp: Let_def)

definition fresh_nodes :: "(nat \<Rightarrow> addr) \<Rightarrow> nat \<Rightarrow> bool" where
  "fresh_nodes nodes n \<longleftrightarrow> distinct (map nodes [0..<n]) \<and> set (map nodes [0..<n]) \<inter> {0, freeList, usedList} = {}"

lemma setup_nodes_lists:
  assumes "heap_lists (links s) [freeList \<mapsto> [], usedList \<mapsto> []]" "fresh_nodes nodes n"
  shows "heap_lists (links (setup_nodes nodes n s)) [freeList \<mapsto> map nodes [0..<n], usedList \<mapsto> []]"
  using assms(2)
proof (induction n)
  case 0
  show ?case using assms(1) by (simp only: setup_nodes.simps upt_0 list.map)
next
  case (Suc n)
  let ?L = "[freeList \<mapsto> map nodes [0..<n], usedList \<mapsto> []]"
  have L: "heap_lists (links (setup_nodes nodes n s)) ?L" by (rule Suc.IH) (use Suc.prems in \<open>simp add: fresh_nodes_def\<close>)
  have u: "unlisted (nodes n) ?L" using Suc.prems by (auto simp: unlisted_def fresh_nodes_def split: if_splits)
  have "heap_lists (list_add_tail (nodes n) freeList (INIT_LIST_HEAD (nodes n) (links (setup_nodes nodes n s))))
      (?L(freeList \<mapsto> map nodes [0..<n] @ [nodes n]))"
    by (rule lists_add(2) [OF lists_init_node [OF L u] _ u]) simp
  then have "heap_lists (list_add_tail (nodes n) freeList (INIT_LIST_HEAD (nodes n) (links (setup_nodes nodes n s))))
      [freeList \<mapsto> map nodes [0..<Suc n], usedList \<mapsto> []]"
    by (rule lists_eq) simp
  moreover have "links (setup_nodes nodes (Suc n) s) =
      list_add_tail (nodes n) freeList (INIT_LIST_HEAD (nodes n) (links (setup_nodes nodes n s)))" by (simp add: Let_def)
  ultimately show ?case by (simp only:)
qed

lemma setup_nodes_pages:
  assumes "distinct (map nodes [0..<n])" "n < 2 ^ 64" "i < n"
  shows "node_page (setup_nodes nodes n s) (nodes i) = of_nat i \<and>
    pg_node (pagesList (setup_nodes nodes n s) (of_nat i)) = nodes i"
  using assms
proof (induction n)
  case (Suc n)
  show ?case
  proof (cases "i = n")
    case True
    then show ?thesis by (simp add: Let_def)
  next
    case False
    then have i: "i < n" using Suc.prems by simp
    have "nodes i \<noteq> nodes n" 
    proof -
      have "nodes n \<notin> set (map nodes [0..<n])" using Suc.prems(1) by simp
      moreover have "nodes i \<in> set (map nodes [0..<n])" using i by simp
      ultimately show ?thesis by metis
    qed
    moreover have "(of_nat i :: u64) \<noteq> of_nat n" using of_nat_u64_eq i Suc.prems(2) by simp
    ultimately show ?thesis using Suc i by (simp add: Let_def)
  qed
qed simp

lemma setup_nodes_pool:
  assumes h: "heap_lists (links s) [freeList \<mapsto> [], usedList \<mapsto> []]" and n: "n = unat (globalPagesNumber s)"
    and f: "fresh_nodes nodes n"
    and p: "\<And>i. i < n \<Longrightarrow> pg_physicalAddress (pagesList s (of_nat i)) = basePFN s + of_nat i"
  shows "pool (setup_nodes nodes n s) (map nodes [0..<n]) []"
proof -
  have n32: "n < 2 ^ 32" using n unsigned_less [of "globalPagesNumber s"] by simp
  have "nodes i \<noteq> 0 \<and> pg_node (page_of (nodes i) (setup_nodes nodes n s)) = nodes i \<and>
      unat (node_page (setup_nodes nodes n s) (nodes i)) < n \<and>
      pg_physicalAddress (page_of (nodes i) (setup_nodes nodes n s)) = basePFN s + node_page (setup_nodes nodes n s) (nodes i)"
    if i: "i < n" for i
  proof -
    have "nodes i \<noteq> 0" using f i by (auto simp: fresh_nodes_def)
    moreover have "unat (of_nat i :: u64) = i" using i n32 by (simp add: unsigned_of_nat take_bit_nat_eq_self)
    ultimately show ?thesis
      using setup_nodes_pages [of nodes n i s] f i n32 p [OF i] by (simp add: fresh_nodes_def page_of_def)
  qed
  then show ?thesis
    using setup_nodes_lists [OF h f] n by (auto simp: pool_def nodes_ok_def)
qed

lemma policiesSet1_setup_ok:
  assumes h: "heap_lists (links s) [freeList \<mapsto> [], usedList \<mapsto> []]" and n: "n = unat (globalPagesNumber s)"
    and f: "fresh_nodes nodes n" and p: "\<And>i. i < n \<Longrightarrow> pg_physicalAddress (pagesList s (of_nat i)) = basePFN s + of_nat i"
    and t: "tables_ok (tables s)" "hm_count (alloc_policies (tables s)) < 65000" and mok: "\<forall>k i. mok k i"
  obtains t' where "policiesSet1_setup mok nodes n s = Some (0, (setup_nodes nodes n s)\<lparr>tables := t'\<rparr>)"
    "pool ((setup_nodes nodes n s)\<lparr>tables := t'\<rparr>) (map nodes [0..<n]) []" "tables_ok t'"
    "default_alloc_policy t' = alloc_policy_one" "default_swap_policy t' = default_swap_policy (tables s)"
    "swap_policies t' = swap_policies (tables s)" "process_linking t' = process_linking (tables s)"
    "policy_named (alloc_policies t') = (policy_named (alloc_policies (tables s)))
      (''policyOne'' \<mapsto> alloc_policy_one, ''basicPolicy'' \<mapsto> usm_basic_alloc_policy, ''doublePolicy'' \<mapsto> alloc_policy_double)"
    "hm_count (alloc_policies t') \<le> hm_count (alloc_policies (tables s)) + 3"
proof -
  let ?s1 = "setup_nodes nodes n s"
  have n32: "n < 2 ^ 32" using n unsigned_less [of "globalPagesNumber s"] by simp
  have pl: "pool ?s1 (map nodes [0..<n]) []"
    by (rule setup_nodes_pool) (use h n f n32 p in auto)
  obtain t1 where t1: "usm_register_alloc_policy (mok 0) (tables s) alloc_policy_one ''policyOne'' True = Some (0, t1)"
    "tables_ok t1" "default_alloc_policy t1 = alloc_policy_one" "default_swap_policy t1 = default_swap_policy (tables s)"
    "swap_policies t1 = swap_policies (tables s)" "process_linking t1 = process_linking (tables s)"
    "policy_named (alloc_policies t1) = (policy_named (alloc_policies (tables s)))(''policyOne'' \<mapsto> alloc_policy_one)"
    "hm_count (alloc_policies t1) \<le> Suc (hm_count (alloc_policies (tables s)))"
    using register_ok(1) [OF t(1), of "mok 0" alloc_policy_one "''policyOne''" True] t(2) mok by auto
  obtain t2 where t2: "usm_register_alloc_policy (mok 1) t1 usm_basic_alloc_policy ''basicPolicy'' False = Some (0, t2)"
    "tables_ok t2" "default_alloc_policy t2 = alloc_policy_one" "default_swap_policy t2 = default_swap_policy (tables s)"
    "swap_policies t2 = swap_policies (tables s)" "process_linking t2 = process_linking (tables s)"
    "policy_named (alloc_policies t2) = (policy_named (alloc_policies t1))(''basicPolicy'' \<mapsto> usm_basic_alloc_policy)"
    "hm_count (alloc_policies t2) \<le> Suc (hm_count (alloc_policies t1))"
    using register_ok(1) [OF t1(2), of "mok 1" usm_basic_alloc_policy "''basicPolicy''" False] t(2) t1 mok by auto
  obtain t3 where t3: "usm_register_alloc_policy (mok 2) t2 alloc_policy_double ''doublePolicy'' False = Some (0, t3)"
    "tables_ok t3" "default_alloc_policy t3 = alloc_policy_one" "default_swap_policy t3 = default_swap_policy (tables s)"
    "swap_policies t3 = swap_policies (tables s)" "process_linking t3 = process_linking (tables s)"
    "policy_named (alloc_policies t3) = (policy_named (alloc_policies t2))(''doublePolicy'' \<mapsto> alloc_policy_double)"
    "hm_count (alloc_policies t3) \<le> Suc (hm_count (alloc_policies t2))"
    using register_ok(1) [OF t2(2), of "mok 2" alloc_policy_double "''doublePolicy''" False] t(2) t1 t2 mok by auto
  have "policiesSet1_setup mok nodes n s = Some (0, ?s1\<lparr>tables := t3\<rparr>)"
    using t1(1) t2(1) t3(1) by (simp add: policiesSet1_setup_def register_alloc_def Let_def)
  moreover have "pool (?s1\<lparr>tables := t3\<rparr>) (map nodes [0..<n]) []"
    using pl by (simp add: pool_def nodes_ok_def page_of_def)
  ultimately show ?thesis using that t1 t2 t3 by simp
qed

text \<open>C13: with the managed region entered into \<open>pagesList\<close>, both lists empty and an allocator
  that does not fail, the setup of the allocation policies succeeds: every page of
  the region gets its own node, all of them are free in the order of their frames,
  none is used, and the three policies are registered with \<open>policyOne\<close> as the
  default.\<close>

theorem policiesSet1_setup_correct:
  assumes h: "heap_lists (links s) [freeList \<mapsto> [], usedList \<mapsto> []]" and n: "n = unat (globalPagesNumber s)"
    and f: "fresh_nodes nodes n"
    and t: "tables_ok (tables s)" "hm_count (alloc_policies (tables s)) < 65000" and mok: "\<forall>k i. mok k i"
  shows "\<exists>s'. policiesSet1_setup mok nodes n (insert_pages zone n s) = Some (0, s') \<and>
    pool s' (map nodes [0..<n]) [] \<and> usedMemory s' = usedMemory s \<and>
    default_alloc_policy (tables s') = alloc_policy_one \<and>
    policy_named (alloc_policies (tables s')) = (policy_named (alloc_policies (tables s)))
      (''policyOne'' \<mapsto> alloc_policy_one, ''basicPolicy'' \<mapsto> usm_basic_alloc_policy, ''doublePolicy'' \<mapsto> alloc_policy_double)"
proof (rule policiesSet1_setup_ok [of "insert_pages zone n s" n nodes mok])
  show "pg_physicalAddress (pagesList (insert_pages zone n s) (of_nat i)) = basePFN (insert_pages zone n s) + of_nat i" if "i < n" for i
  proof -
    have "unat (globalPagesNumber s) < 2 ^ 32" using unsigned_less [of "globalPagesNumber s"] by simp
    then have "n \<le> 2 ^ 64" using n by simp
    from insert_pages_nth [OF that this] show ?thesis by simp
  qed
qed (use assms in auto)

section \<open>Freeing\<close>

lemma pool_move:
  assumes p: "pool s fs us" and us: "us = a @ x # b"
  shows "heap_lists (list_move_tail x freeList (links s)) [freeList \<mapsto> fs @ [x], usedList \<mapsto> a @ b]"
  by (rule lists_eq [OF lists_move(2) [OF poolD(1) [OF p], of usedList a x b freeList fs]]) (simp_all add: us)

text \<open>The index of an event for the frame of a node is the node's page.\<close>

lemma pool_event:
  assumes p: "pool s fs us" and x: "x \<in> set fs \<union> set us" and e: "ev_paddr ev = basePFN s + node_page s x"
    and b: "unat (basePFN s) + unat (globalPagesNumber s) < 2 ^ 64"
  shows "usmEventToPage ev s = Some (node_page s x)" "usmPageToUsedListNode (node_page s x) s = Some x"
proof -
  have n: "unat (node_page s x) < unat (globalPagesNumber s)" by (rule pool_node(3) [OF p x])
  have "unat (basePFN s + node_page s x) = unat (basePFN s) + unat (node_page s x)"
    using b n by (subst unat_word_ariths) simp
  then have "basePFN s \<le> basePFN s + node_page s x" by (simp add: word_le_nat_alt)
  moreover have "unat (globalPagesNumber s) < 2 ^ 32" using unsigned_less [of "globalPagesNumber s"] by simp
  then have "unat (ucast (node_page s x) :: u32) = unat (node_page s x)"
    using n by (simp add: unat_ucast_u32)
  ultimately show "usmEventToPage ev s = Some (node_page s x)"
    using n e by (simp add: usmEventToPage_def usmPfnToPageIndex_def word_le_nat_alt not_less word_less_nat_alt)
  show "usmPageToUsedListNode (node_page s x) s = Some x"
    using pool_node(1,2) [OF p x] by (simp add: usmPageToUsedListNode_def page_of_def)
qed

text \<open>Freeing the page of a node of the pool, by the frame the kernel reports.\<close>

definition freed :: "addr \<Rightarrow> usm_state \<Rightarrow> usm_state" where
  "freed x s = s\<lparr>frames := (frames s)(pg_data (page_of x s) := zero_page), links := list_move_tail x freeList (links s),
     pagesList := (pagesList s)(node_page s x := (page_of x s)\<lparr>pg_virtualAddress := 0, pg_process := 0\<rparr>),
     usedMemory := usedMemory s - SYS_PAGE_SIZE\<rparr>"

lemma pindex_free_node:
  assumes p: "pool s fs us" and x: "x \<in> set fs \<union> set us" and e: "ev_paddr ev = basePFN s + node_page s x"
    and b: "unat (basePFN s) + unat (globalPagesNumber s) < 2 ^ 64"
  shows "pindex_free ev s = Some (0, ev, freed x s)"
  using pool_event [OF p x e b] by (simp add: pindex_free_def freed_def Let_def page_of_def)

lemma freed_pool: "pool s fs (a @ x # c) \<Longrightarrow> pool (freed x s) (fs @ [x]) (a @ c)"
  unfolding freed_def
  by (rule pool_cong [OF _ poolD(2)], use pool_move in simp) (auto simp: page_of_def)

text \<open>When the kernel reports the frame of a used page, freeing it succeeds: the page is
  zeroed, detached from its address and process and put at the end of the free list,
  the other used pages keep their order, and one page less is counted.  A frame
  outside the region is refused and changes nothing.\<close>

theorem pindex_free_correct:
  assumes p: "pool s fs us" and b: "unat (basePFN s) + unat (globalPagesNumber s) < 2 ^ 64"
  shows "(\<forall>a x c. us = a @ x # c \<longrightarrow> ev_paddr ev = basePFN s + node_page s x \<longrightarrow>
      (\<exists>s'. pindex_free ev s = Some (0, ev, s') \<and> pool s' (fs @ [x]) (a @ c) \<and>
        usedMemory s' = usedMemory s - SYS_PAGE_SIZE \<and> frames s' = (frames s)(pg_data (page_of x s) := zero_page) \<and>
        pagesList s' = (pagesList s)(node_page s x := (page_of x s)\<lparr>pg_virtualAddress := 0, pg_process := 0\<rparr>))) \<and>
    (usmEventToPage ev s = None \<longrightarrow> pindex_free ev s = Some (1, ev, s))"
proof (intro conjI allI impI)
  assume "usmEventToPage ev s = None"
  then show "pindex_free ev s = Some (1, ev, s)" by (simp add: pindex_free_def)
next
  fix a x c assume us: "us = a @ x # c" and e: "ev_paddr ev = basePFN s + node_page s x"
  have "pindex_free ev s = Some (0, ev, freed x s)" by (rule pindex_free_node [OF p _ e b]) (simp add: us)
  moreover have "pool (freed x s) (fs @ [x]) (a @ c)" by (rule freed_pool) (use p us in simp)
  ultimately show "\<exists>s'. pindex_free ev s = Some (0, ev, s') \<and> pool s' (fs @ [x]) (a @ c) \<and>
        usedMemory s' = usedMemory s - SYS_PAGE_SIZE \<and> frames s' = (frames s)(pg_data (page_of x s) := zero_page) \<and>
        pagesList s' = (pagesList s)(node_page s x := (page_of x s)\<lparr>pg_virtualAddress := 0, pg_process := 0\<rparr>)"
    by (intro exI [of _ "freed x s"]) (simp add: freed_def)
qed

lemma pool0_pool: "pool pool0 [64, 128] []"
proof -
  have two: "[0..<2] = [0, 1]" by (simp add: upt_rec)
  have "pool pool0 (map nodes0 [0..<2]) []" unfolding pool0_def
  proof (rule setup_nodes_pool)
    show "heap_lists (links (insert_pages 65536 2 (state0\<lparr>globalPagesNumber := 2\<rparr>))) [freeList \<mapsto> [], usedList \<mapsto> []]"
      using links0_empty by (auto simp: heap_lists_def state0_def freeList_def usedList_def)
    show "fresh_nodes nodes0 2"
      by (simp add: fresh_nodes_def nodes0_def freeList_def usedList_def two)
  qed (simp_all add: insert_pages_nth)
  then show ?thesis by (simp add: nodes0_def two)
qed

lemma pool0_sel [simp]:
  "basePFN pool0 = 100" "globalPagesNumber pool0 = 2" "usedMemory pool0 = 0" "globalPageSize pool0 = 4096"
  "umem pool0 = (\<lambda>_. 0)" "tlinks pool0 = links0" "glinks pool0 = links0" "procDescList pool0 = procDescList state0"
  by (simp_all add: pool0_def state0_def)

section \<open>Runs of the pool\<close>

text \<open>The pool serves one allocation after the other, and frees the used pages the kernel
  reports, in any order and with any answers to the submissions.\<close>

inductive pool_step :: "usm_state \<Rightarrow> usm_state \<Rightarrow> bool" where
  alloc: "basic_alloc_uniq env ev s = Some (r, ev', s') \<Longrightarrow> pool_step s s'"
| free: "is_list (links s) usedList us \<Longrightarrow> x \<in> set us \<Longrightarrow> ev_paddr ev = basePFN s + node_page s x \<Longrightarrow>
    pindex_free ev s = Some (r, ev', s') \<Longrightarrow> pool_step s s'"
| refused: "usmEventToPage ev s = None \<Longrightarrow> pindex_free ev s = Some (r, ev', s') \<Longrightarrow> pool_step s s'"

inductive_cases pool_stepE: "pool_step s s'"

text \<open>What stays true: no page is lost or doubled, and the memory counted is that of the
  used pages.\<close>

definition pool_inv :: "addr multiset \<Rightarrow> u64 \<Rightarrow> u32 \<Rightarrow> usm_state \<Rightarrow> bool" where
  "pool_inv M base n s \<longleftrightarrow> globalPageSize s = 4096 \<and> basePFN s = base \<and> globalPagesNumber s = n \<and>
     (\<exists>fs us. pool s fs us \<and> mset fs + mset us = M \<and> usedMemory s = SYS_PAGE_SIZE * of_nat (length us))"

lemma pool_invI:
  "pool s fs us \<Longrightarrow> mset fs + mset us = M \<Longrightarrow> usedMemory s = SYS_PAGE_SIZE * of_nat (length us) \<Longrightarrow>
    globalPageSize s = 4096 \<Longrightarrow> basePFN s = base \<Longrightarrow> globalPagesNumber s = n \<Longrightarrow> pool_inv M base n s"
  by (auto simp: pool_inv_def)

lemma pool_inv_alloc:
  assumes "pool_inv M base n s" "basic_alloc_uniq env ev s = Some (r, ev', s')"
  shows "pool_inv M base n s'"
proof -
  obtain fs us where I: "globalPageSize s = 4096" "basePFN s = base" "globalPagesNumber s = n" and p: "pool s fs us"
    and m: "mset fs + mset us = M" "usedMemory s = SYS_PAGE_SIZE * of_nat (length us)"
    using assms(1) by (auto simp: pool_inv_def)
  show ?thesis
  proof (cases fs)
    case Nil
    then have "s' = s" using assms(2) poolD(3) [OF p] by (simp add: basic_alloc_uniq_def)
    then show ?thesis using assms(1) by simp
  next
    case (Cons x fs')
    let ?h = "list_del x (links s)"
    note U = basic_alloc_uniq_unfold [OF p [unfolded Cons]]
    obtain res mm e where
      q: "usmSubmitAllocEvent env (umem s) (ev\<lparr>ev_paddr := basePFN s + node_page s x, ev_length := 0\<rparr>) = Some (res, mm, e)"
      using assms(2) U(1) [of env ev] by (auto simp: bind_eq_Some_conv)
    have s': "s' = (if res \<noteq> 0
       then s\<lparr>usedMemory := usedMemory s + ucast (globalPageSize s), links := ?h, umem := mm,
         links := list_add x freeList ?h, usedMemory := usedMemory s\<rparr>
       else (usmLinkPage (node_page s x) e (s\<lparr>usedMemory := usedMemory s + ucast (globalPageSize s), links := ?h, umem := mm\<rparr>))
         \<lparr>links := list_add_tail x usedList ?h\<rparr>)"
      using assms(2) U(1) [of env ev] q by (auto simp: Let_def split: if_splits)
    then have "pool s' fs us \<and> usedMemory s' = usedMemory s \<or> pool s' fs' (us @ [x]) \<and> usedMemory s' = usedMemory s + 4096"
      using U(2,3) poolD(2) [OF p] Cons I(1)
      by (auto simp: usmLinkPage_def intro!: pool_cong [where s = s and X = "set fs \<union> set us"])
    moreover have "globalPageSize s' = 4096" "basePFN s' = base" "globalPagesNumber s' = n"
      using s' I by (auto simp: usmLinkPage_def)
    ultimately show ?thesis
      using m Cons unfolding pool_inv_def by (fastforce simp: SYS_PAGE_SIZE_def algebra_simps)
  qed
qed


lemma pool_inv_free:
  assumes I: "pool_inv M base n s" and b: "unat base + unat n < 2 ^ 64"
    and f: "is_list (links s) usedList us" "x \<in> set us" "ev_paddr ev = basePFN s + node_page s x"
    and r: "pindex_free ev s = Some (r, ev', s')"
  shows "pool_inv M base n s'"
proof -
  obtain fs us' where s: "globalPageSize s = 4096" "basePFN s = base" "globalPagesNumber s = n" and p: "pool s fs us'"
    and m: "mset fs + mset us' = M" "usedMemory s = SYS_PAGE_SIZE * of_nat (length us')"
    using I by (auto simp: pool_inv_def)
  have "is_list (links s) usedList us'" using listsD [OF poolD(1) [OF p], of usedList] by simp
  then have "us' = us" using f(1) list_for_each_is_list by (metis option.inject)
  then obtain a c where us: "us' = a @ x # c" using f(2) split_list by metis
  have s': "s' = freed x s" using pindex_free_node [OF p _ f(3)] r s b us by simp
  have p': "pool s' (fs @ [x]) (a @ c)" using freed_pool p us s' by blast
  have u': "usedMemory s' = SYS_PAGE_SIZE * of_nat (length (a @ c))"
    using m(2) us s' by (simp add: freed_def algebra_simps)
  have m': "mset (fs @ [x]) + mset (a @ c) = M" using m(1) us by simp
  show ?thesis by (rule pool_invI [OF p' m' u']) (use s s' in \<open>simp_all add: freed_def\<close>)
qed

lemma pool_inv_step:
  assumes "pool_inv M base n s" "unat base + unat n < 2 ^ 64" "pool_step s s'"
  shows "pool_inv M base n s'"
  using assms(3)
proof (rule pool_stepE)
  fix env ev r ev' assume "basic_alloc_uniq env ev s = Some (r, ev', s')"
  then show ?thesis by (rule pool_inv_alloc [OF assms(1)])
next
  fix us x ev r ev'
  assume "is_list (links s) usedList us" "x \<in> set us" "ev_paddr ev = basePFN s + node_page s x"
    "pindex_free ev s = Some (r, ev', s')"
  then show ?thesis by (rule pool_inv_free [OF assms(1,2)])
next
  fix ev r ev' assume "usmEventToPage ev s = None" "pindex_free ev s = Some (r, ev', s')"
  then show ?thesis using assms(1) by (simp add: pindex_free_def)
qed

text \<open>C11: whatever sequence of one-page allocations and frees of used pages the pool serves,
  and whatever the tasks answer, every page stays in exactly one of the two lists,
  none is lost, and the memory counted as used is 4096 bytes for each used page,
  without wrap-around.\<close>

theorem pool_runs_conserve:
  assumes p: "pool s fs []" "usedMemory s = 0" "globalPageSize s = 4096" "length fs \<le> unat (globalPagesNumber s)"
    and b: "unat (basePFN s) + unat (globalPagesNumber s) < 2 ^ 64" and r: "pool_step\<^sup>*\<^sup>* s s'"
  shows "\<exists>fs' us'. pool s' fs' us' \<and> mset fs' + mset us' = mset fs \<and> unat (usedMemory s') = 4096 * length us'"
proof -
  have "pool_inv (mset fs) (basePFN s) (globalPagesNumber s) s"
    by (rule pool_invI [OF p(1)]) (use p in simp_all)
  with r have "pool_inv (mset fs) (basePFN s) (globalPagesNumber s) s'"
    by (induction rule: rtranclp_induct) (auto intro: pool_inv_step [OF _ b])
  then obtain fs' us' where q: "pool s' fs' us'" "mset fs' + mset us' = mset fs"
    "usedMemory s' = SYS_PAGE_SIZE * of_nat (length us')" by (auto simp: pool_inv_def)
  have "size (mset fs' + mset us') = length fs" by (simp only: q(2) size_mset)
  then have "length us' \<le> unat (globalPagesNumber s)" using p(4) by simp
  moreover have "unat (globalPagesNumber s) < 2 ^ 32" using unsigned_less [of "globalPagesNumber s"] by simp
  ultimately have l: "4096 * length us' < 2 ^ 64" by simp
  have "usedMemory s' = of_nat (4096 * length us')" using q(3) by (simp add: SYS_PAGE_SIZE_def)
  then have "unat (usedMemory s') = 4096 * length us'" by (simp only: unat_of_nat_u64 [OF l])
  then show ?thesis using q by blast
qed


lemma answer3_returns: "\<exists>m e. usmSubmitAllocEvent answer3 m' (ev\<lparr>ev_usmmem := 4096\<rparr>) = Some (0, m, e)"
proof -
  have "subm_wait answer3 4096 0 m1 = Some (answer3 0 m1)" for m1
    by (subst subm_wait.simps) (simp add: answer3_def mem_simps Let_def)
  then show ?thesis by (simp add: usmSubmitAllocEvent_def usm_mem_subm_ev_def Let_def answer3_def mem_simps)
qed

lemma ev0_mem [simp]: "ev0\<lparr>ev_usmmem := 4096\<rparr> = ev0" by (simp add: ev0_def)

theorem basic_alloc_uniq_correct_witness:
  "\<exists>s' e. basic_alloc_uniq answer3 ev0 pool0 = Some (0, e, s') \<and> pool s' [128] [64] \<and> usedMemory s' = 4096"
proof -
  obtain m e where "usmSubmitAllocEvent answer3 (umem pool0) (ev0\<lparr>ev_paddr := basePFN pool0 + node_page pool0 64, ev_length := 0\<rparr>) = Some (0, m, e)"
    using answer3_returns [of "umem pool0" "ev0\<lparr>ev_paddr := basePFN pool0 + node_page pool0 64, ev_length := 0\<rparr>"]
    by (auto simp: ev0_def)
  then show ?thesis using basic_alloc_uniq_correct [OF pool0_pool, of answer3 ev0] by auto
qed

theorem policiesSet1_setup_correct_witness:
  "\<exists>s'. policiesSet1_setup (\<lambda>_ _. True) nodes0 2 (insert_pages 65536 2 (state0\<lparr>globalPagesNumber := 2\<rparr>)) = Some (0, s') \<and>
     pool s' (map nodes0 [0..<2]) []"
proof -
  have two: "[0..<2] = [0, 1]" by (simp add: upt_rec)
  have "heap_lists (links (state0\<lparr>globalPagesNumber := 2\<rparr>)) [freeList \<mapsto> [], usedList \<mapsto> []]"
    using links0_empty by (auto simp: heap_lists_def state0_def freeList_def usedList_def)
  moreover have "fresh_nodes nodes0 2" by (simp add: fresh_nodes_def nodes0_def freeList_def usedList_def two)
  moreover have "tables_ok (tables (state0\<lparr>globalPagesNumber := 2\<rparr>))" using tables0_ok by (simp add: state0_def)
  ultimately show ?thesis
    using policiesSet1_setup_correct [of "state0\<lparr>globalPagesNumber := 2\<rparr>" 2 nodes0 "\<lambda>_ _. True" 65536]
    by (auto simp: state0_def tables0_def)
qed

lemma pool0_alloc:
  obtains e s1 where "basic_alloc_uniq answer3 ev0 pool0 = Some (0, e, s1)" "pool s1 [128] [64]"
    "basePFN s1 = 100" "globalPagesNumber s1 = 2" "tlinks s1 = links0" "glinks s1 = links0" "procDescList s1 = procDescList state0"
proof -
  obtain m e where q: "usmSubmitAllocEvent answer3 (umem pool0) (ev0\<lparr>ev_paddr := basePFN pool0 + node_page pool0 64, ev_length := 0\<rparr>) = Some (0, m, e)"
    using answer3_returns [of "umem pool0" "ev0\<lparr>ev_paddr := basePFN pool0 + node_page pool0 64, ev_length := 0\<rparr>"]
    by (auto simp: ev0_def)
  let ?h = "list_del 64 (links pool0)"
  let ?s = "(usmLinkPage (node_page pool0 64) e (pool0\<lparr>usedMemory := 4096, links := ?h, umem := m\<rparr>))\<lparr>links := list_add_tail 64 usedList ?h\<rparr>"
  note U = basic_alloc_uniq_unfold [OF pool0_pool]
  show ?thesis
  proof (rule that)
    show "basic_alloc_uniq answer3 ev0 pool0 = Some (0, e, ?s)" using U(1) [of answer3 ev0] q by (simp add: Let_def)
    show "pool ?s [128] [64]"
      by (rule pool_cong [OF _ poolD(2) [OF pool0_pool]]) (use U(3) in \<open>auto simp: usmLinkPage_def\<close>)
  qed (simp_all add: usmLinkPage_def)
qed

theorem pindex_free_correct_witness:
  "\<exists>s1 e s2 ev. basic_alloc_uniq answer3 ev0 pool0 = Some (0, e, s1) \<and> pindex_free ev s1 = Some (0, ev, s2) \<and>
     pool s2 [128, 64] []"
proof -
  obtain e s1 where s1: "basic_alloc_uniq answer3 ev0 pool0 = Some (0, e, s1)" "pool s1 [128] [64]"
    "basePFN s1 = 100" "globalPagesNumber s1 = 2" by (rule pool0_alloc)
  show ?thesis
    using pindex_free_correct [OF s1(2), of "ev0\<lparr>ev_paddr := basePFN s1 + node_page s1 64\<rparr>"] s1(1,3,4)
    by (force dest!: spec [of _ "[]"] spec [of _ 64])
qed

theorem pool_runs_conserve_witness:
  "\<exists>e s' fs us. basic_alloc_uniq answer3 ev0 pool0 = Some (0, e, s') \<and> pool s' fs us \<and>
     mset fs + mset us = {#64, 128#} \<and> unat (usedMemory s') = 4096 * length us"
proof -
  obtain e s1 where s1: "basic_alloc_uniq answer3 ev0 pool0 = Some (0, e, s1)" by (rule pool0_alloc)
  then have "pool_step\<^sup>*\<^sup>* pool0 s1" by (blast intro: pool_step.alloc)
  from pool_runs_conserve [OF pool0_pool _ _ _ _ this] show ?thesis using s1 by fastforce
qed

end
