(* ===== verification/Batch_Alloc.thy ===== *)
theory Batch_Alloc
  imports Alloc_Policy
begin

text \<open>
  The allocation of runs of pages (\<open>get_pages_prep\<close>, \<open>basic_alloc\<close>) and the page services
  of the swap module (\<open>pick_pages\<close>, \<open>give_back_pages\<close>).  The daemon writes the frames of a
  run to the shared page as entries of a frame and a count; \<open>enc_pfns\<close> is that encoder as a
  function of the frames, the loop of \<open>get_pages_prep\<close> refines it, and the kernel's walk
  over the entries decodes it.
\<close>

section \<open>Encoding runs of frames\<close>

fun enc_pfns :: "usm_event \<Rightarrow> u64 list \<Rightarrow> nat \<Rightarrow> u32 \<Rightarrow> u64 \<Rightarrow> mem \<Rightarrow> mem" where
  "enc_pfns ev [] pos cnt vpfn m = (if cnt \<noteq> 0 then usmPrepPreAllocFastCounted ev pos cnt m else m)"
| "enc_pfns ev (pfn # pfns) pos cnt vpfn m =
    (if vpfn = pfn then enc_pfns ev pfns pos (cnt + 1) (pfn + 1) m
     else enc_pfns ev pfns (pos + 1) 0 (pfn + 1)
            (usmPrepPreAlloc ev pfn (pos + 1) (usmPrepPreAllocFastCounted ev pos cnt m)))"

lemma kernel_extents_split:
  "kernel_extents m b pos p c (c + 1 + k) = map (\<lambda>i. p + of_nat i) [0..<c + 1] @
     kernel_extents m b (Suc pos) (rd64 m b (48 + 12 * Suc pos)) (unat (rd32 m b (48 + 12 * Suc pos + 8))) k"
proof (induction c arbitrary: p)
  case (Suc c)
  have "[0..<Suc c + 1] = 0 # map Suc [0..<c + 1]" by (simp add: map_Suc_upt upt_conv_Cons del: upt_Suc)
  then show ?case using Suc.IH [of "p + 1"] by (simp add: algebra_simps comp_def del: upt_Suc)
qed simp

lemma kernel_extents_take: "n \<le> n' \<Longrightarrow> kernel_extents m b pos p c n = take n (kernel_extents m b pos p c n')"
proof (induction n arbitrary: n' pos p c)
  case (Suc n)
  then obtain k where "n' = Suc k" "n \<le> k" by (cases n') auto
  then show ?case using Suc.IH by (simp split: nat.split)
qed simp

lemma kernel_extents_run:
  "n \<le> c + 1 \<Longrightarrow> kernel_extents m b pos p c n = map (\<lambda>i. p + of_nat i) [0..<n]"
  using kernel_extents_take [of n "c + 1 + 0" m b pos p c] kernel_extents_split [of m b pos p c 0]
  by (simp add: take_map del: upt_Suc)

text \<open>The encoder leaves what lies before the count of its current entry.\<close>

lemma enc_below:
  assumes "pos + length pfns < 2 ^ 32"
  shows "off \<le> 48 + 12 * pos \<Longrightarrow> rd64 (enc_pfns ev pfns pos cnt v m) (ev_usmmem ev) off = rd64 m (ev_usmmem ev) off"
    and "off + 4 \<le> 48 + 12 * pos + 8 \<Longrightarrow> rd32 (enc_pfns ev pfns pos cnt v m) (ev_usmmem ev) off = rd32 m (ev_usmmem ev) off"
  using assms
proof (induction pfns arbitrary: pos cnt v m)
  case Nil
  case 1 then show ?case using Nil by (simp add: usmPrepPreAllocFastCounted_def mem_simps)
next
  case Nil
  case 2 then show ?case using Nil by (simp add: usmPrepPreAllocFastCounted_def mem_simps)
next
  case (Cons p pfns)
  case 1
  then show ?case using Cons.IH(1) 
    by (simp add: usmPrepPreAllocFastCounted_def usmPrepPreAlloc_def mem_simps)
next
  case (Cons p pfns)
  case 2
  then show ?case using Cons.IH(2) 
    by (simp add: usmPrepPreAllocFastCounted_def usmPrepPreAlloc_def mem_simps)
qed


lemma enc_decode:
  assumes "rd64 m (ev_usmmem ev) (48 + 12 * pos) = p" "vpfn = p + ucast cnt + 1"
    "unat cnt + length pfns < 2 ^ 31" "pos + length pfns < 2 ^ 31"
  defines "m' \<equiv> enc_pfns ev pfns pos cnt vpfn m" and "b \<equiv> ev_usmmem ev"
  shows "kernel_extents m' b pos p (unat (rd32 m' b (48 + 12 * pos + 8))) (unat cnt + 1 + length pfns) =
    map (\<lambda>i. p + of_nat i) [0..<unat cnt + 1] @ pfns"
  using assms(1-4) unfolding m'_def b_def
proof (induction pfns arbitrary: pos cnt vpfn m p)
  case Nil
  show ?case
  proof (cases "cnt = 0")
    case True
    then show ?thesis by (simp split: nat.split)
  next
    case False
    have "rd32 (usmPrepPreAllocFastCounted ev pos cnt m) (ev_usmmem ev) (48 + 12 * pos + 8) = cnt"
      using Nil(4) by (simp add: usmPrepPreAllocFastCounted_def mem_simps algebra_simps)
    then show ?thesis
      using False kernel_extents_run [of "unat cnt + 1" "unat cnt"] by (simp del: upt_Suc kernel_extents.simps)
  qed
next
  case (Cons q pfns)
  show ?case
  proof (cases "vpfn = q")
    case True
    have c: "unat (cnt + 1) = unat cnt + 1" using Cons.prems(3) by (subst unat_word_ariths) simp
    have u: "(ucast (cnt + 1) :: u64) = ucast cnt + 1"
    proof -
      have "(ucast (cnt + 1) :: u64) = of_nat (unat (cnt + 1))" by simp
      also have "\<dots> = ucast cnt + 1" by (simp only: c of_nat_add) simp
      finally show ?thesis .
    qed
    have "kernel_extents (enc_pfns ev pfns pos (cnt + 1) (q + 1) m) (ev_usmmem ev) pos p
        (unat (rd32 (enc_pfns ev pfns pos (cnt + 1) (q + 1) m) (ev_usmmem ev) (48 + 12 * pos + 8))) (unat (cnt + 1) + 1 + length pfns) =
      map (\<lambda>i. p + of_nat i) [0..<unat (cnt + 1) + 1] @ pfns"
      by (rule Cons.IH) (use Cons.prems True u c in \<open>auto simp: algebra_simps\<close>)
    moreover have "p + of_nat (unat cnt + 1) = q" using Cons.prems(2) True by (simp add: algebra_simps)
    ultimately show ?thesis using True by (simp add: c)
  next
    case False
    let ?m1 = "usmPrepPreAlloc ev q (pos + 1) (usmPrepPreAllocFastCounted ev pos cnt m)"
    let ?m' = "enc_pfns ev pfns (pos + 1) 0 (q + 1) ?m1" and ?b = "ev_usmmem ev"
    have q: "rd64 ?m1 ?b (48 + 12 * (pos + 1)) = q"
      using Cons.prems(4) by (simp add: usmPrepPreAlloc_def mem_simps algebra_simps)
    have q': "rd64 ?m' ?b (48 + 12 * Suc pos) = q"
      using enc_below(1) [of "pos + 1" pfns "48 + 12 * (pos + 1)" ev 0 "q + 1" ?m1] q Cons.prems(4) by simp
    have "rd32 ?m' ?b (48 + 12 * pos + 8) = rd32 ?m1 ?b (48 + 12 * pos + 8)"
      using enc_below(2) [of "pos + 1" pfns "48 + 12 * pos + 8" ev 0 "q + 1" ?m1] Cons.prems(4) by simp
    then have c: "rd32 ?m' ?b (48 + 12 * pos + 8) = cnt"
      using Cons.prems(4) by (simp add: usmPrepPreAlloc_def usmPrepPreAllocFastCounted_def mem_simps algebra_simps)
    have "kernel_extents ?m' ?b (pos + 1) q (unat (rd32 ?m' ?b (48 + 12 * (pos + 1) + 8))) (unat (0 :: u32) + 1 + length pfns) =
      map (\<lambda>i. q + of_nat i) [0..<unat (0 :: u32) + 1] @ pfns"
      by (rule Cons.IH [OF q]) (use Cons.prems in simp_all)
    then have r: "kernel_extents ?m' ?b (Suc pos) (rd64 ?m' ?b (48 + 12 * Suc pos))
        (unat (rd32 ?m' ?b (48 + 12 * Suc pos + 8))) (Suc (length pfns)) = q # pfns"
      using q' by (simp del: kernel_extents.simps)
    have e: "enc_pfns ev (q # pfns) pos cnt vpfn m = ?m'" using False by simp
    show ?thesis unfolding e c kernel_extents_split length_Cons r ..
  qed
qed

section \<open>Taking a run of pages\<close>

definition pfn_of :: "usm_state \<Rightarrow> addr \<Rightarrow> u64" where
  "pfn_of s x = pg_physicalAddress (page_of x s)"

lemma links_umem: "links (s\<lparr>umem := m\<rparr>) = links s" by simp

lemma prep_loop_refines:
  assumes "heap_lists (links s) L" "L freeList = Some fs" "L ph = Some ps" "ph \<noteq> freeList"
    "prep_loop ev ph nr pos cnt vpfn s = (left, pos', cnt', s')"
  shows "left = nr - length fs \<and> heap_lists (links s') (L(freeList \<mapsto> drop nr fs, ph \<mapsto> ps @ take nr fs)) \<and>
    s' = s\<lparr>links := links s', umem := umem s'\<rparr> \<and>
    (if cnt' \<noteq> 0 then usmPrepPreAllocFastCounted ev pos' cnt' (umem s') else umem s') =
      enc_pfns ev (map (pfn_of s) (take nr fs)) pos cnt vpfn (umem s)"
  using assms
proof (induction nr arbitrary: pos cnt vpfn s fs ps L)
  case 0
  have "L(freeList \<mapsto> drop 0 fs, ph \<mapsto> ps @ take 0 fs) = L" using 0(2,3) by (auto simp: fun_eq_iff)
  moreover have "left = 0" "s' = s" "pos' = pos" "cnt' = cnt" using 0(5) by simp_all
  ultimately show ?case using 0(1) by (simp only:) simp
next
  case (Suc nr)
  show ?case
  proof (cases fs)
    case Nil
    have "L(freeList \<mapsto> drop (Suc nr) fs, ph \<mapsto> ps @ take (Suc nr) fs) = L"
      using Suc.prems(2,3) Nil by (auto simp: fun_eq_iff)
    moreover have "left = Suc nr" "s' = s" "pos' = pos" "cnt' = cnt"
      using Suc.prems(5) lists_empty_iff [OF Suc.prems(1,2)] Nil by simp_all
    ultimately show ?thesis using Suc.prems(1) by (simp only:) (simp add: Nil)
  next
    case (Cons x fs')
    let ?s = "upd_links (list_move_tail x ph) s" and ?L = "L(freeList \<mapsto> fs', ph \<mapsto> ps @ [x])"
    have x: "list_first_entry freeList (links s) = x" "\<not> list_empty freeList (links s)"
      using lists_first [OF Suc.prems(1)] lists_empty_iff [OF Suc.prems(1)] Suc.prems(2) Cons by auto
    have L: "heap_lists (links ?s) ?L"
      using lists_move(2) [OF Suc.prems(1), of freeList "[]" x fs' ph ps] Suc.prems Cons by simp
    have Lf: "?L freeList = Some fs'" and Lp: "?L ph = Some (ps @ [x])" using Suc.prems(4) by simp_all
    have pf: "pfn_of (s\<lparr>links := h, umem := m\<rparr>) = pfn_of s" "pfn_of (s\<lparr>links := h\<rparr>) = pfn_of s" for h m
      by (simp_all add: pfn_of_def page_of_def fun_eq_iff)
    have LL: "heap_lists h (?L(freeList \<mapsto> drop nr fs', ph \<mapsto> (ps @ [x]) @ take nr fs')) \<Longrightarrow>
        heap_lists h (L(freeList \<mapsto> drop (Suc nr) fs, ph \<mapsto> ps @ take (Suc nr) fs))" for h
      by (erule lists_eq) (simp add: Cons)
    show ?thesis
    proof (cases "vpfn = pfn_of s x")
      case True
      have "prep_loop ev ph nr pos (cnt + 1) (pfn_of s x + 1) ?s = (left, pos', cnt', s')"
        using Suc.prems(5) x True by (simp add: Let_def page_of_def pfn_of_def)
      note H = Suc.IH [OF L Lf Lp Suc.prems(4) this]
      show ?thesis by (intro conjI, use H in \<open>simp add: Cons\<close>, use H in \<open>blast intro: LL\<close>)
        (use H True in \<open>auto simp: Cons pf\<close>)
    next
      case False
      let ?m = "usmPrepPreAlloc ev (pfn_of s x) (pos + 1) (usmPrepPreAllocFastCounted ev pos cnt (umem s))"
      have "prep_loop ev ph nr (pos + 1) 0 (pfn_of s x + 1) (?s\<lparr>umem := ?m\<rparr>) = (left, pos', cnt', s')"
        using Suc.prems(5) x False by (simp add: Let_def page_of_def pfn_of_def)
      note H = Suc.IH [OF _ Lf Lp Suc.prems(4) this]
      have L': "heap_lists (links (?s\<lparr>umem := ?m\<rparr>)) ?L" using L by (subst links_umem)
      show ?thesis by (intro conjI, use H [OF L'] in \<open>simp add: Cons\<close>, use H [OF L'] in \<open>blast intro: LL\<close>)
        (use H [OF L'] False in \<open>auto simp: Cons pf\<close>)
    qed
  qed
qed


text \<open>The first page: the list it is taken from and the one it is added to.\<close>

lemma take_page:
  assumes L: "heap_lists h L" "L freeList = Some (x # fs)" "L ph = Some ps" "ph \<noteq> freeList"
  shows "list_first_entry freeList h = x" "\<not> list_empty freeList h"
    "heap_lists (list_move_tail x ph h) (L(freeList \<mapsto> fs, ph \<mapsto> ps @ [x]))"
    "list_empty freeList (list_move_tail x ph h) \<longleftrightarrow> fs = []"
proof -
  show "list_first_entry freeList h = x" by (rule lists_first [OF L(1,2)])
  show "\<not> list_empty freeList h" using lists_empty_iff [OF L(1,2)] by simp
  show l: "heap_lists (list_move_tail x ph h) (L(freeList \<mapsto> fs, ph \<mapsto> ps @ [x]))"
    using lists_move(2) [OF L(1), of freeList "[]" x fs ph ps] L by simp
  show "list_empty freeList (list_move_tail x ph h) \<longleftrightarrow> fs = []"
    by (rule lists_empty_iff [OF l]) (use L(4) in simp)
qed

lemma get_pages_prep_many:
  assumes L: "heap_lists (links s) L" "L freeList = Some (x # y # zs)" "L ph = Some []" "ph \<noteq> freeList" and w: "1 \<le> w"
    and g: "get_pages_prep ph (int w) ev s = (av, ev', s')"
  shows "av = int (min w (Suc (length zs)))"
    "heap_lists (links s') (L(freeList \<mapsto> drop (w - 1) zs, ph \<mapsto> x # y # take (w - 1) zs))"
    "s' = s\<lparr>links := links s', umem := umem s'\<rparr>" "ev' = ev\<lparr>ev_paddr := pfn_of s x\<rparr>"
    "umem s' = enc_pfns ev' (map (pfn_of s) (take (w - 1) zs)) 0 0 (pfn_of s y + 1) (usmPrepPreAlloc ev' (pfn_of s y) 0 (umem s))"
proof -
  let ?h = "list_move_tail x ph (links s)" and ?L = "L(freeList \<mapsto> y # zs, ph \<mapsto> [] @ [x])" and ?ev = "ev\<lparr>ev_paddr := pfn_of s x\<rparr>"
  let ?h2 = "list_move_tail y ph ?h" and ?L2 = "?L(freeList \<mapsto> zs, ph \<mapsto> ([] @ [x]) @ [y])"
  let ?s = "s\<lparr>links := ?h2, umem := usmPrepPreAlloc ?ev (pfn_of s y) 0 (umem s)\<rparr>"
  note X = take_page [OF L]
  have "?L freeList = Some (y # zs)" "?L ph = Some ([] @ [x])" using L(4) by simp_all
  note Y = take_page [OF X(3) this L(4)]
  have "links ?s = ?h2" by simp
  then have L2: "heap_lists (links ?s) ?L2" using Y(3) by (simp only:)
  obtain left pos cnt s2 where pl: "prep_loop ?ev ph (w - 1) 0 0 (pfn_of s y + 1) ?s = (left, pos, cnt, s2)"
    by (cases "prep_loop ?ev ph (w - 1) 0 0 (pfn_of s y + 1) ?s")
  have "?L2 freeList = Some zs" "?L2 ph = Some (([] @ [x]) @ [y])" using L(4) by simp_all
  note R = prep_loop_refines [OF L2 this L(4) pl]
  have "s' = (if cnt \<noteq> 0 then s2\<lparr>umem := usmPrepPreAllocFastCounted ?ev pos cnt (umem s2)\<rparr> else s2) \<and>
      ev' = ?ev \<and> av = int w - (if int w - 1 > 0 then int left else int w - 1)"
    using g X(1,2) Y(1,2) pl w
    by (auto simp: get_pages_prep_def Let_def page_of_def pfn_of_def nat_diff_distrib split: if_splits)
  then have s': "s' = (if cnt \<noteq> 0 then s2\<lparr>umem := usmPrepPreAllocFastCounted ?ev pos cnt (umem s2)\<rparr> else s2)"
    and e: "ev' = ?ev" and av: "av = int w - (if int w - 1 > 0 then int left else int w - 1)" by blast+
  show "av = int (min w (Suc (length zs)))" using R w av by auto
  have "?L2(freeList \<mapsto> drop (w - 1) zs, ph \<mapsto> (([] @ [x]) @ [y]) @ take (w - 1) zs) =
      L(freeList \<mapsto> drop (w - 1) zs, ph \<mapsto> x # y # take (w - 1) zs)" by (auto simp: fun_eq_iff)
  moreover have "links s' = links s2" using s' by simp
  ultimately show "heap_lists (links s') (L(freeList \<mapsto> drop (w - 1) zs, ph \<mapsto> x # y # take (w - 1) zs))"
    using R by (simp only:)
  have p: "pfn_of ?s = pfn_of s" by (simp add: pfn_of_def page_of_def fun_eq_iff)
  show "umem s' = enc_pfns ev' (map (pfn_of s) (take (w - 1) zs)) 0 0 (pfn_of s y + 1) (usmPrepPreAlloc ev' (pfn_of s y) 0 (umem s))"
    using R s' e p by (cases "cnt = 0") auto
  show "s' = s\<lparr>links := links s', umem := umem s'\<rparr>" using R s' by (cases s; cases s2; cases "cnt = 0") auto
  show "ev' = ?ev" by (rule e)
qed

text \<open>How many pages a request for \<open>w\<close> pages announces, out of the \<open>min (w + 1) n\<close> it takes.\<close>

definition announced :: "nat \<Rightarrow> nat \<Rightarrow> nat" where
  "announced w n = (if n \<le> 1 then n else min w (n - 1))"

lemma get_pages_prep_spec:
  assumes L: "heap_lists (links s) L" "L freeList = Some fs" "L ph = Some []" "ph \<noteq> freeList" and w: "1 \<le> w"
    and g: "get_pages_prep ph (int w) ev s = (av, ev', s')"
  shows "av = int (announced w (length fs)) \<and>
    heap_lists (links s') (L(freeList \<mapsto> drop (w + 1) fs, ph \<mapsto> take (w + 1) fs)) \<and>
    s' = s\<lparr>links := links s', umem := umem s'\<rparr> \<and>
    ev' = (case fs of [] \<Rightarrow> ev | x # _ \<Rightarrow> ev\<lparr>ev_paddr := pfn_of s x\<rparr>)"
proof (cases fs)
  case Nil
  have "L(freeList \<mapsto> drop (w + 1) fs, ph \<mapsto> take (w + 1) fs) = L" using L(2,3) Nil by (auto simp: fun_eq_iff)
  moreover have "s' = s" "av = 0" "ev' = ev"
    using g lists_empty_iff [OF L(1,2)] Nil by (simp_all add: get_pages_prep_def)
  ultimately show ?thesis using L(1) by (simp only:) (simp add: Nil announced_def)
next
  case (Cons x fs1)
  note X = take_page [OF L(1) L(2) [unfolded Cons] L(3,4)]
  show ?thesis
  proof (cases fs1)
    case Nil
    let ?h = "list_move_tail x ph (links s)"
    have "s' = s\<lparr>links := ?h\<rparr>" "av = 1" "ev' = ev\<lparr>ev_paddr := pfn_of s x\<rparr>"
      using g X(1,2,4) Nil by (simp_all add: get_pages_prep_def Let_def page_of_def pfn_of_def)
    moreover have "L(freeList \<mapsto> fs1, ph \<mapsto> [] @ [x]) = L(freeList \<mapsto> drop (w + 1) fs, ph \<mapsto> take (w + 1) fs)" using Cons Nil w by simp
    moreover have "links (s\<lparr>links := ?h\<rparr>) = ?h" by simp
    ultimately show ?thesis using X(3) by (simp only:) (simp add: Nil Cons announced_def)
  next
    fix y zs assume ys: "fs1 = y # zs"
    note M = get_pages_prep_many [OF L(1) L(2) [unfolded Cons ys] L(3,4) w g]
    have "L(freeList \<mapsto> drop (w - 1) zs, ph \<mapsto> x # y # take (w - 1) zs) = L(freeList \<mapsto> drop (w + 1) fs, ph \<mapsto> take (w + 1) fs)"
      using w by (cases w) (auto simp: Cons ys fun_eq_iff)
    then have "heap_lists (links s') (L(freeList \<mapsto> drop (w + 1) fs, ph \<mapsto> take (w + 1) fs))" using M(2) by (simp only:)
    then show ?thesis using M(1,3,4) by (simp add: Cons ys announced_def)
  qed
qed


lemma kernel_extents_cong:
  assumes "\<And>off. 48 \<le> off \<Longrightarrow> off < 2 ^ 40 \<Longrightarrow> rd64 m b off = rd64 m' b off \<and> rd32 m b off = rd32 m' b off"
    "pos + n < 2 ^ 32"
  shows "kernel_extents m b pos p c n = kernel_extents m' b pos p c n"
  using assms(2)
proof (induction n arbitrary: pos p c)
  case (Suc n)
  have "rd64 m b (48 + 12 * Suc pos) = rd64 m' b (48 + 12 * Suc pos)" "rd32 m b (48 + 12 * Suc pos + 8) = rd32 m' b (48 + 12 * Suc pos + 8)"
    using assms(1) [of "48 + 12 * Suc pos"] assms(1) [of "48 + 12 * Suc pos + 8"] Suc.prems by simp_all
  then show ?case using Suc by (simp split: nat.split)
qed simp

lemma subm_start_entries:
  "48 \<le> off \<Longrightarrow> off < 2 ^ 40 \<Longrightarrow> rd64 (subm_start m ev) (ev_usmmem ev) off = rd64 m (ev_usmmem ev) off \<and>
    rd32 (subm_start m ev) (ev_usmmem ev) off = rd32 m (ev_usmmem ev) off"
  by (simp add: subm_start_def mem_simps)

lemma handed_over:
  assumes n: "n \<le> length pfns" "length pfns < 2 ^ 31" and b: "ev_usmmem ev = b" "ev_usmmem ev' = b" and l: "ev_length ev' = of_nat n"
    and m: "m = subm_start (enc_pfns ev pfns 0 0 (p + 1) (usmPrepPreAlloc ev p 0 m0)) ev'"
  shows "kernel_further m b = take n (p # pfns)"
proof -
  let ?e = "enc_pfns ev pfns 0 0 (p + 1) (usmPrepPreAlloc ev p 0 m0)"
  have p0: "rd64 (usmPrepPreAlloc ev p 0 m0) (ev_usmmem ev) (48 + 12 * 0) = p"
    by (simp add: usmPrepPreAlloc_def mem_simps)
  then have p: "rd64 ?e b 48 = p"
    using enc_below(1) [of 0 pfns 48 ev 0 "p + 1" "usmPrepPreAlloc ev p 0 m0"] n b by simp
  have same: "48 \<le> off \<Longrightarrow> off < 2 ^ 40 \<Longrightarrow> rd64 m b off = rd64 ?e b off \<and> rd32 m b off = rd32 ?e b off" for off
    unfolding m using subm_start_entries [of off ?e ev'] b by simp
  have "rd32 m b 44 = of_nat n"
    unfolding m using l b n by (simp add: subm_start_def mem_simps unsigned_of_nat take_bit_nat_eq_self)
  then have "unat (rd32 m b 44) = n" using n by (simp add: unsigned_of_nat take_bit_nat_eq_self)
  then have "kernel_further m b = kernel_extents ?e b 0 p (unat (rd32 ?e b 56)) n"
    using same [of 48] same [of 56] p n kernel_extents_cong [OF same, of 0 n] by (simp add: kernel_further_def)
  also have "\<dots> = take n (kernel_extents ?e b 0 p (unat (rd32 ?e b 56)) (1 + length pfns))"
    using n by (intro kernel_extents_take) simp
  also have "kernel_extents ?e b 0 p (unat (rd32 ?e b 56)) (1 + length pfns) = p # pfns"
    using enc_decode [OF p0, of "p + 1" 0 pfns] n b by (simp del: kernel_extents.simps)
  finally show ?thesis .
qed

lemma lists_two_init:
  assumes "pool s fs us" "unlisted ph [freeList \<mapsto> fs, usedList \<mapsto> us]"
  shows "heap_lists (links (upd_links (INIT_LIST_HEAD ph) s)) [freeList \<mapsto> fs, usedList \<mapsto> us, ph \<mapsto> []]"
    "ph \<noteq> freeList" "ph \<noteq> usedList"
proof -
  have "links (upd_links (INIT_LIST_HEAD ph) s) = INIT_LIST_HEAD ph (links s)" by simp
  then show "heap_lists (links (upd_links (INIT_LIST_HEAD ph) s)) [freeList \<mapsto> fs, usedList \<mapsto> us, ph \<mapsto> []]"
    using lists_init [OF poolD(1) [OF assms(1)] assms(2)] by (simp only:)
  show "ph \<noteq> freeList" "ph \<noteq> usedList" using assms(2) by (auto simp: unlisted_def split: if_splits)
qed



lemma pool0_unlisted: "unlisted 256 [freeList \<mapsto> [64, 128], usedList \<mapsto> []]"
  by (auto simp: unlisted_def freeList_def usedList_def split: if_splits)


section \<open>Giving pages back and accounting for them\<close>

text \<open>Moving all nodes of a list to the end of another one.\<close>

lemma move_all:
  fixes lk :: "'s \<Rightarrow> lheap"
  assumes L: "heap_lists (lk s) L" "L ph = Some xs" "L q = Some ws" "ph \<noteq> q"
    and b: "\<And>x s. lk (body x s) = list_move_tail x q (lk s)"
  shows "for_each_safe lk body ph s = Some (fold body xs s) \<and>
    heap_lists (lk (fold body xs s)) (L(ph \<mapsto> [], q \<mapsto> ws @ xs))"
proof -
  define P where "P s ys \<longleftrightarrow> (\<exists>zs. xs = zs @ ys \<and> heap_lists (lk s) (L(ph \<mapsto> ys, q \<mapsto> ws @ zs)))" for s ys
  have "for_each_safe lk body ph s = Some (fold body xs s) \<and> P (fold body xs s) []"
  proof (rule for_each_safe_consume)
    fix s x ys assume "P s (x # ys)"
    then obtain zs where zs: "xs = zs @ x # ys" "heap_lists (lk s) (L(ph \<mapsto> x # ys, q \<mapsto> ws @ zs))" by (auto simp: P_def)
    have "heap_lists (list_move_tail x q (lk s)) ((L(ph \<mapsto> x # ys, q \<mapsto> ws @ zs))(ph \<mapsto> [] @ ys, q \<mapsto> (ws @ zs) @ [x]))"
      by (rule lists_move(2) [OF zs(2)]) (use L(4) in auto)
    then have "heap_lists (lk (body x s)) (L(ph \<mapsto> ys, q \<mapsto> ws @ zs @ [x]))"
      unfolding b by (rule lists_eq) simp
    then show "P (body x s) ys" unfolding P_def using zs(1) by (intro exI [of _ "zs @ [x]"]) simp
  next
    fix s ys assume "P s ys"
    then show "is_list (lk s) ph ys" unfolding P_def using L(4) by (auto intro: listsD)
  next
    have "L = L(ph \<mapsto> xs, q \<mapsto> ws @ [])" using L(2,3) by (auto simp: fun_eq_iff)
    then show "P s xs" unfolding P_def using L(1) by (intro exI [of _ "[]"]) simp
  qed
  then show ?thesis by (auto simp: P_def)
qed

lemma give_back_fold:
  "\<exists>h. fold (\<lambda>it s. (upd_links (list_move_tail it freeList) s)\<lparr>usedMemory := usedMemory s - SYS_PAGE_SIZE\<rparr>) xs s =
    s\<lparr>links := h, usedMemory := usedMemory s - SYS_PAGE_SIZE * of_nat (length xs)\<rparr>"
proof (induction xs arbitrary: s)
  case Nil
  show ?case by (rule exI [of _ "links s"]) simp
next
  case (Cons x xs)
  from Cons.IH [of "(upd_links (list_move_tail x freeList) s)\<lparr>usedMemory := usedMemory s - SYS_PAGE_SIZE\<rparr>"]
  show ?case by (auto simp: algebra_simps)
qed

lemma give_back_pages_spec:
  assumes L: "heap_lists (links s) L" "L ph = Some xs" "L freeList = Some fs" "ph \<noteq> freeList"
  obtains h where "give_back_pages ph s = Some (s\<lparr>links := h, usedMemory := usedMemory s - SYS_PAGE_SIZE * of_nat (length xs)\<rparr>)"
    "heap_lists h (L(ph \<mapsto> [], freeList \<mapsto> fs @ xs))"
proof -
  let ?b = "\<lambda>it s. (upd_links (list_move_tail it freeList) s)\<lparr>usedMemory := usedMemory s - SYS_PAGE_SIZE\<rparr>"
  have b: "\<And>x s. links (?b x s) = list_move_tail x freeList (links s)" by simp
  note M = move_all [where lk = links, OF L b]
  obtain h where h: "fold ?b xs s = s\<lparr>links := h, usedMemory := usedMemory s - SYS_PAGE_SIZE * of_nat (length xs)\<rparr>"
    using give_back_fold by blast
  have "links (s\<lparr>links := h, usedMemory := usedMemory s - SYS_PAGE_SIZE * of_nat (length xs)\<rparr>) = h" by simp
  then have "heap_lists h (L(ph \<mapsto> [], freeList \<mapsto> fs @ xs))" using M unfolding h by (simp only:)
  moreover have "give_back_pages ph s = Some (s\<lparr>links := h, usedMemory := usedMemory s - SYS_PAGE_SIZE * of_nat (length xs)\<rparr>)"
    unfolding give_back_pages_def using M h by simp
  ultimately show ?thesis using that by blast
qed

lemma pick_loop_spec:
  assumes "heap_lists (links s) L" "L freeList = Some fs" "L ph = Some ps" "ph \<noteq> freeList"
  shows "\<exists>h. pick_loop ph n s = (n - length fs, s\<lparr>links := h, usedMemory := usedMemory s + SYS_PAGE_SIZE * of_nat (min n (length fs))\<rparr>) \<and>
    heap_lists h (L(freeList \<mapsto> drop n fs, ph \<mapsto> rev (take n fs) @ ps))"
  using assms
proof (induction n arbitrary: s fs ps L)
  case 0
  have "L(freeList \<mapsto> drop 0 fs, ph \<mapsto> rev (take 0 fs) @ ps) = L" using 0(2,3) by (auto simp: fun_eq_iff)
  then have "heap_lists (links s) (L(freeList \<mapsto> drop 0 fs, ph \<mapsto> rev (take 0 fs) @ ps))" using 0(1) by (simp only:)
  moreover have "pick_loop ph 0 s = (0 - length fs, s\<lparr>links := links s, usedMemory := usedMemory s + SYS_PAGE_SIZE * of_nat (min 0 (length fs))\<rparr>)"
    by simp
  ultimately show ?case by blast
next
  case (Suc n)
  show ?case
  proof (cases fs)
    case Nil
    have "L(freeList \<mapsto> drop (Suc n) fs, ph \<mapsto> rev (take (Suc n) fs) @ ps) = L" using Suc.prems(2,3) Nil by (auto simp: fun_eq_iff)
    then have "heap_lists (links s) (L(freeList \<mapsto> drop (Suc n) fs, ph \<mapsto> rev (take (Suc n) fs) @ ps))" using Suc.prems(1) by (simp only:)
    moreover have "pick_loop ph (Suc n) s = (Suc n - length fs, s\<lparr>links := links s, usedMemory := usedMemory s + SYS_PAGE_SIZE * of_nat (min (Suc n) (length fs))\<rparr>)"
      using lists_empty_iff [OF Suc.prems(1,2)] Nil by simp
    ultimately show ?thesis by blast
  next
    case (Cons x fs')
    let ?h = "list_move x ph (links s)" and ?L = "L(freeList \<mapsto> fs', ph \<mapsto> x # ps)"
    have x: "list_first_entry freeList (links s) = x" "\<not> list_empty freeList (links s)"
      using lists_first [OF Suc.prems(1)] lists_empty_iff [OF Suc.prems(1,2)] Suc.prems(2) Cons by auto
    let ?s = "(upd_links (list_move x ph) s)\<lparr>usedMemory := usedMemory s + SYS_PAGE_SIZE\<rparr>"
    have "heap_lists ?h (L(freeList \<mapsto> [] @ fs', ph \<mapsto> x # ps))"
      by (rule lists_move(1) [OF Suc.prems(1)]) (use Suc.prems Cons in auto)
    moreover have "links ?s = ?h" by simp
    ultimately have L: "heap_lists (links ?s) ?L" by (simp only: append_Nil)
    have f: "?L freeList = Some fs'" "?L ph = Some (x # ps)" using Suc.prems(4) by simp_all
    from Suc.IH [OF L f Suc.prems(4)] obtain h where h:
      "pick_loop ph n ?s = (n - length fs', ?s\<lparr>links := h, usedMemory := usedMemory ?s + SYS_PAGE_SIZE * of_nat (min n (length fs'))\<rparr>)"
      "heap_lists h (?L(freeList \<mapsto> drop n fs', ph \<mapsto> rev (take n fs') @ x # ps))" by blast
    have "heap_lists h (L(freeList \<mapsto> drop (Suc n) fs, ph \<mapsto> rev (take (Suc n) fs) @ ps))"
      using h(2) by (rule lists_eq) (simp add: Cons)
    moreover have "pick_loop ph (Suc n) s = (Suc n - length fs, s\<lparr>links := h, usedMemory := usedMemory s + SYS_PAGE_SIZE * of_nat (min (Suc n) (length fs))\<rparr>)"
      using h(1) x by (simp add: Cons algebra_simps Let_def)
    ultimately show ?thesis by blast
  qed
qed


lemma consume_fold:
  assumes "distinct (map (node_page s) xs)"
  shows "\<exists>h P. fold (consume_one origin) xs (s, a) =
      (s\<lparr>pagesList := P, links := h, usedMemory := usedMemory s + SYS_PAGE_SIZE * of_nat (length xs)\<rparr>,
       a + SYS_PAGE_SIZE * of_nat (length xs)) \<and>
    (\<forall>k < length xs. P (node_page s (xs ! k)) = (pagesList s (node_page s (xs ! k)))
       \<lparr>pg_virtualAddress := a + SYS_PAGE_SIZE * of_nat k, pg_process := origin\<rparr>) \<and>
    (\<forall>i. i \<notin> node_page s ` set xs \<longrightarrow> P i = pagesList s i)"
  using assms
proof (induction xs arbitrary: s a)
  case Nil
  show ?case by (intro exI [of _ "links s"] exI [of _ "pagesList s"]) simp
next
  case (Cons x xs)
  let ?p = "(pagesList s (node_page s x))\<lparr>pg_virtualAddress := a, pg_process := origin\<rparr>"
  let ?s = "s\<lparr>pagesList := (pagesList s)(node_page s x := ?p), links := list_move_tail x usedList (links s),
     usedMemory := usedMemory s + SYS_PAGE_SIZE\<rparr>"
  have one: "consume_one origin x (s, a) = (?s, a + SYS_PAGE_SIZE)" by (simp add: consume_one_def Let_def)
  have "distinct (map (node_page ?s) xs)" using Cons.prems by simp
  from Cons.IH [OF this, of "a + SYS_PAGE_SIZE"] obtain h P where
    f: "fold (consume_one origin) xs (?s, a + SYS_PAGE_SIZE) =
      (?s\<lparr>pagesList := P, links := h, usedMemory := usedMemory ?s + SYS_PAGE_SIZE * of_nat (length xs)\<rparr>,
       a + SYS_PAGE_SIZE + SYS_PAGE_SIZE * of_nat (length xs))"
    and k: "\<And>k. k < length xs \<Longrightarrow> P (node_page s (xs ! k)) = (pagesList ?s (node_page s (xs ! k)))
       \<lparr>pg_virtualAddress := a + SYS_PAGE_SIZE + SYS_PAGE_SIZE * of_nat k, pg_process := origin\<rparr>"
    and o: "\<And>i. i \<notin> node_page s ` set xs \<Longrightarrow> P i = pagesList ?s i" by auto
  have x: "node_page s x \<notin> node_page s ` set xs" using Cons.prems by simp
  have "P (node_page s ((x # xs) ! k)) = (pagesList s (node_page s ((x # xs) ! k)))
       \<lparr>pg_virtualAddress := a + SYS_PAGE_SIZE * of_nat k, pg_process := origin\<rparr>" if "k < length (x # xs)" for k
  proof (cases k)
    case 0
    then show ?thesis using o [OF x] by simp
  next
    case (Suc j)
    then have "node_page s (xs ! j) \<noteq> node_page s x" using x that by (metis Suc_less_SucD image_eqI length_Cons nth_mem)
    then show ?thesis using k [of j] Suc that by (simp add: algebra_simps)
  qed
  moreover have "P i = pagesList s i" if "i \<notin> node_page s ` set (x # xs)" for i using o [of i] that by simp
  ultimately show ?case using f one by (intro exI [of _ h] exI [of _ P]) (simp add: algebra_simps)
qed

lemma consume_pages_acct_spec:
  assumes L: "heap_lists (links s) L" "L ph = Some xs" "L usedList = Some us" "ph \<noteq> usedList"
    and d: "distinct (map (node_page s) xs)"
  obtains h P where "consume_pages_acct ph a origin s =
      Some (s\<lparr>pagesList := P, links := h, usedMemory := usedMemory s + SYS_PAGE_SIZE * of_nat (length xs)\<rparr>)"
    "heap_lists h (L(ph \<mapsto> [], usedList \<mapsto> us @ xs))"
    "\<forall>k < length xs. P (node_page s (xs ! k)) = (pagesList s (node_page s (xs ! k)))
       \<lparr>pg_virtualAddress := a + SYS_PAGE_SIZE * of_nat k, pg_process := origin\<rparr>"
    "\<forall>i. i \<notin> node_page s ` set xs \<longrightarrow> P i = pagesList s i"
    "\<forall>i. pg_node (P i) = pg_node (pagesList s i) \<and> pg_physicalAddress (P i) = pg_physicalAddress (pagesList s i)"
proof -
  let ?lk = "\<lambda>(s :: usm_state, _ :: u64). links s"
  have b: "\<And>x sa. ?lk (consume_one origin x sa) = list_move_tail x usedList (?lk sa)"
    by (simp add: consume_one_def Let_def split: prod.split)
  have L0: "heap_lists (?lk (s, a)) L" using L(1) by simp
  note M = move_all [where lk = ?lk, OF L0 L(2-4) b]
  from consume_fold [OF d, of origin a] obtain h P where
    f: "fold (consume_one origin) xs (s, a) =
      (s\<lparr>pagesList := P, links := h, usedMemory := usedMemory s + SYS_PAGE_SIZE * of_nat (length xs)\<rparr>,
       a + SYS_PAGE_SIZE * of_nat (length xs))"
    and P: "\<forall>k < length xs. P (node_page s (xs ! k)) = (pagesList s (node_page s (xs ! k)))
       \<lparr>pg_virtualAddress := a + SYS_PAGE_SIZE * of_nat k, pg_process := origin\<rparr>"
      "\<forall>i. i \<notin> node_page s ` set xs \<longrightarrow> P i = pagesList s i" by blast
  have "?lk (fold (consume_one origin) xs (s, a)) = h" using f by simp
  then have h: "heap_lists h (L(ph \<mapsto> [], usedList \<mapsto> us @ xs))" using M by (simp only:)
  have "pg_node (P i) = pg_node (pagesList s i) \<and> pg_physicalAddress (P i) = pg_physicalAddress (pagesList s i)" for i
  proof (cases "i \<in> node_page s ` set xs")
    case True
    then obtain k where k: "k < length xs" "i = node_page s (xs ! k)" by (metis imageE in_set_conv_nth)
    then show ?thesis using P(1) by simp
  next
    case False
    then show ?thesis using P(2) by simp
  qed
  then show ?thesis by (intro that [OF _ h P]) (use M f in \<open>simp_all add: consume_pages_acct_def\<close>)
qed


section \<open>Allocating a run of pages\<close>

lemma pool_inj:
  assumes "pool s fs us"
  shows "inj_on (node_page s) (set fs \<union> set us)"
  using pool_node(2) [OF assms] by (intro inj_onI) (metis page_of_def)

lemma pool_distinct_pages:
  assumes "pool s fs us" "distinct xs" "set xs \<subseteq> set fs"
  shows "distinct (map (node_page s) xs)"
  using assms(2,3) pool_inj [OF assms(1)] by (auto simp: distinct_map intro: inj_on_subset)

text \<open>What the allocation does with the answer of the task.\<close>

definition after_answer :: "addr \<Rightarrow> u64 \<Rightarrow> u32 \<Rightarrow> usm_state \<Rightarrow> u32 \<times> mem \<times> usm_event \<Rightarrow> (u32 \<times> usm_event \<times> usm_state) option" where
  "after_answer ph vaddr origin s = (\<lambda>(ret, m, e).
     if ret \<noteq> 0 then Option.bind (give_back_pages ph (s\<lparr>umem := m\<rparr>)) (\<lambda>s'. Some (1, e, s'))
     else if ev_flags e = 0
     then Option.bind (consume_pages_acct ph vaddr origin (s\<lparr>umem := m\<rparr>)) (\<lambda>s'. Some (0, e, s'))
     else Option.bind (consume_pages_acct ph vaddr origin
       ((put_page (unacct_node e (s\<lparr>umem := m\<rparr>)) ^^ unat (ev_flags e)) (s\<lparr>umem := m\<rparr>)))
       (\<lambda>s'. Some (0, e\<lparr>ev_flags := - 1\<rparr>, s')))"

text \<open>The allocation up to the answer of the task: the state \<open>s1\<close> it submits from and the
  event \<open>ev1\<close> it submits.\<close>

lemma basic_alloc_unfold:
  assumes p: "pool s fs us" "unlisted ph [freeList \<mapsto> fs, usedList \<mapsto> us]" "fs \<noteq> []"
    and w: "wanted_number ev = int w" "1 \<le> w"
  obtains s1 ev1 where "basic_alloc env ph ev s =
      Option.bind (usmSubmitAllocEvent env (umem s1) ev1) (after_answer ph (ev_vaddr ev) (ev_origin ev) s1)"
    "s1 = s\<lparr>links := links s1, umem := umem s1\<rparr>"
    "heap_lists (links s1) [freeList \<mapsto> drop (w + 1) fs, usedList \<mapsto> us, ph \<mapsto> take (w + 1) fs]"
    "ev_vaddr ev1 = ev_vaddr ev" "ev_origin ev1 = ev_origin ev"
    "ev_paddr ev1 = pfn_of s (hd fs)" "ev_length ev1 = of_nat (announced w (length fs) - 1)" "ev_usmmem ev1 = ev_usmmem ev"
proof -
  let ?L = "[freeList \<mapsto> fs, usedList \<mapsto> us, ph \<mapsto> []]" and ?s = "upd_links (INIT_LIST_HEAD ph) s"
  note I = lists_two_init [OF p(1,2)]
  have L: "?L freeList = Some fs" "?L ph = Some []" using I(2,3) by simp_all
  obtain av ev' s1 where g: "get_pages_prep ph (int w) ev ?s = (av, ev', s1)" by (cases "get_pages_prep ph (int w) ev ?s")
  note S = get_pages_prep_spec [OF I(1) L I(2) w(2) g]
  let ?ev = "ev'\<lparr>ev_length := of_int (av - 1)\<rparr>"
  obtain x fs1 where fs: "fs = x # fs1" using p(3) by (cases fs) auto
  have ev': "ev' = ev\<lparr>ev_paddr := pfn_of s x\<rparr>" using S by (simp add: fs pfn_of_def page_of_def)
  have an: "1 \<le> announced w (length fs)" using w(2) by (cases fs1) (auto simp: announced_def fs)
  have av: "av = int (announced w (length fs))" using S by blast
  then have av0: "av \<noteq> 0" "of_int (av - 1) = (of_nat (announced w (length fs) - 1) :: u64)" using an by (simp_all add: of_nat_diff)
  have "?L(freeList \<mapsto> drop (w + 1) fs, ph \<mapsto> take (w + 1) fs) = [freeList \<mapsto> drop (w + 1) fs, usedList \<mapsto> us, ph \<mapsto> take (w + 1) fs]"
    using I(2,3) by (auto simp: fun_eq_iff)
  then have h: "heap_lists (links s1) [freeList \<mapsto> drop (w + 1) fs, usedList \<mapsto> us, ph \<mapsto> take (w + 1) fs]" using S by (simp only:)
  have s1: "s1 = s\<lparr>links := links s1, umem := umem s1\<rparr>" using S by (cases s; cases s1) auto
  have "basic_alloc env ph ev s = Option.bind (usmSubmitAllocEvent env (umem s1) ?ev) (\<lambda>a. after_answer ph (ev_vaddr (snd (snd a))) (ev_origin (snd (snd a))) s1 a)"
    unfolding basic_alloc_def using g w(1) av0(1) 
    by (cases "usmSubmitAllocEvent env (umem s1) ?ev") (auto simp: Let_def after_answer_def)
  also have "\<dots> = Option.bind (usmSubmitAllocEvent env (umem s1) ?ev) (after_answer ph (ev_vaddr ev) (ev_origin ev) s1)"
    using subm_keeps(1,2) [of env "umem s1" ?ev] by (cases "usmSubmitAllocEvent env (umem s1) ?ev") (auto simp: ev')
  finally show ?thesis by (rule that [OF _ s1 h]) (use av0 in \<open>simp_all add: ev' fs\<close>)
qed


lemma taken_nodes:
  assumes "pool s fs us"
  shows "set (drop n fs) \<union> set (take n fs) = set fs" "distinct (take n fs)"
  using poolD(4) [OF assms] set_append [of "take n fs" "drop n fs"] by (auto simp del: set_append)

text \<open>When the task refuses a run of pages, the allocation returns 1 and the pages taken
  are free again, at the end of the list; but the memory counted as used drops by the
  size of the pages taken, which were never counted: it wraps around when fewer
  pages were in use.\<close>

theorem basic_alloc_refused:
  assumes p: "pool s fs us" "unlisted ph [freeList \<mapsto> fs, usedList \<mapsto> us]" "fs \<noteq> []"
    and w: "wanted_number ev = int w" "1 \<le> w"
    and r: "\<And>m e. ev_usmmem e = ev_usmmem ev \<Longrightarrow> \<exists>ret m' e'. usmSubmitAllocEvent env m e = Some (ret, m', e') \<and> ret \<noteq> 0"
  shows "\<exists>e s'. basic_alloc env ph ev s = Some (1, e, s') \<and>
    pool s' (drop (w + 1) fs @ take (w + 1) fs) us \<and> pagesList s' = pagesList s \<and>
    usedMemory s' = usedMemory s - SYS_PAGE_SIZE * of_nat (min (w + 1) (length fs))"
proof -
  let ?L = "[freeList \<mapsto> drop (w + 1) fs, usedList \<mapsto> us, ph \<mapsto> take (w + 1) fs]"
  obtain s1 ev1 where B: "basic_alloc env ph ev s =
      Option.bind (usmSubmitAllocEvent env (umem s1) ev1) (after_answer ph (ev_vaddr ev) (ev_origin ev) s1)"
    and s1: "s1 = s\<lparr>links := links s1, umem := umem s1\<rparr>" and L: "heap_lists (links s1) ?L"
    and ev1: "ev_usmmem ev1 = ev_usmmem ev" by (rule basic_alloc_unfold [OF p w])
  obtain ret m e where a: "usmSubmitAllocEvent env (umem s1) ev1 = Some (ret, m, e)" "ret \<noteq> 0" using r [OF ev1] by blast
  note ph = lists_two_init(2,3) [OF p(1,2)]
  have L': "heap_lists (links (s1\<lparr>umem := m\<rparr>)) ?L" using L by (subst links_umem)
  have f: "?L ph = Some (take (w + 1) fs)" "?L freeList = Some (drop (w + 1) fs)" using ph by simp_all
  obtain h where g: "give_back_pages ph (s1\<lparr>umem := m\<rparr>) =
      Some ((s1\<lparr>umem := m\<rparr>)\<lparr>links := h, usedMemory := usedMemory (s1\<lparr>umem := m\<rparr>) - SYS_PAGE_SIZE * of_nat (length (take (w + 1) fs))\<rparr>)"
    and h: "heap_lists h (?L(ph \<mapsto> [], freeList \<mapsto> drop (w + 1) fs @ take (w + 1) fs))"
    by (rule give_back_pages_spec [OF L' f ph(1)])
  let ?s = "s\<lparr>umem := m, links := h, usedMemory := usedMemory s - SYS_PAGE_SIZE * of_nat (min (w + 1) (length fs))\<rparr>"
  have "(s1\<lparr>umem := m\<rparr>)\<lparr>links := h, usedMemory := usedMemory (s1\<lparr>umem := m\<rparr>) - SYS_PAGE_SIZE * of_nat (length (take (w + 1) fs))\<rparr> = ?s"
    by (subst (1 2) s1) (simp add: min.commute)
  then have R: "basic_alloc env ph ev s = Some (1, e, ?s)" using B a g by (simp add: after_answer_def)
  have "heap_lists h [freeList \<mapsto> drop (w + 1) fs @ take (w + 1) fs, usedList \<mapsto> us]"
    by (rule lists_sub [OF h]) (use ph in \<open>auto simp: map_le_def\<close>)
  moreover have "links ?s = h" by simp
  ultimately have h': "heap_lists (links ?s) [freeList \<mapsto> drop (w + 1) fs @ take (w + 1) fs, usedList \<mapsto> us]" by (simp only:)
  have "pool ?s (drop (w + 1) fs @ take (w + 1) fs) us"
    by (rule pool_cong [OF h' poolD(2) [OF p(1)]]) (use taken_nodes(1) [OF p(1), of "w + 1"] in auto)
  with R show ?thesis by auto
qed


text \<open>When the task accepts a run of pages, the allocation returns 0: all pages taken are
  used, in order, each linked to the next address of the run and to the process,
  and each is counted.  This includes the last page taken, which was not announced
  to the task: it is accounted to an address the task did not get it for.\<close>

theorem basic_alloc_served:
  assumes p: "pool s fs us" "unlisted ph [freeList \<mapsto> fs, usedList \<mapsto> us]" "fs \<noteq> []"
    and w: "wanted_number ev = int w" "1 \<le> w"
    and r: "\<And>m e. ev_usmmem e = ev_usmmem ev \<Longrightarrow> \<exists>m' e'. usmSubmitAllocEvent env m e = Some (0, m', e') \<and> ev_flags e' = 0"
  shows "\<exists>e s'. basic_alloc env ph ev s = Some (0, e, s') \<and> pool s' (drop (w + 1) fs) (us @ take (w + 1) fs) \<and>
    usedMemory s' = usedMemory s + SYS_PAGE_SIZE * of_nat (min (w + 1) (length fs)) \<and>
    (\<forall>k < min (w + 1) (length fs). page_of (fs ! k) s' = (page_of (fs ! k) s)
       \<lparr>pg_virtualAddress := ev_vaddr ev + SYS_PAGE_SIZE * of_nat k, pg_process := ev_origin ev\<rparr>)"
proof -
  let ?xs = "take (w + 1) fs"
  let ?L = "[freeList \<mapsto> drop (w + 1) fs, usedList \<mapsto> us, ph \<mapsto> ?xs]"
  obtain s1 ev1 where B: "basic_alloc env ph ev s =
      Option.bind (usmSubmitAllocEvent env (umem s1) ev1) (after_answer ph (ev_vaddr ev) (ev_origin ev) s1)"
    and s1: "s1 = s\<lparr>links := links s1, umem := umem s1\<rparr>" and L: "heap_lists (links s1) ?L"
    and ev1: "ev_usmmem ev1 = ev_usmmem ev" by (rule basic_alloc_unfold [OF p w])
  obtain m e where a: "usmSubmitAllocEvent env (umem s1) ev1 = Some (0, m, e)" "ev_flags e = 0" using r [OF ev1] by blast
  note ph = lists_two_init(2,3) [OF p(1,2)]
  let ?s1 = "s1\<lparr>umem := m\<rparr>"
  have n: "node_page ?s1 = node_page s" "pagesList ?s1 = pagesList s" "usedMemory ?s1 = usedMemory s" by (subst s1, simp)+
  have L': "heap_lists (links ?s1) ?L" using L by (subst links_umem)
  have f: "?L ph = Some ?xs" "?L usedList = Some us" using ph by simp_all
  have d: "distinct (map (node_page ?s1) ?xs)"
    unfolding n using taken_nodes [OF p(1)] by (intro pool_distinct_pages [OF p(1)]) (auto dest: in_set_takeD)
  obtain h P where c: "consume_pages_acct ph (ev_vaddr ev) (ev_origin ev) ?s1 =
      Some (?s1\<lparr>pagesList := P, links := h, usedMemory := usedMemory ?s1 + SYS_PAGE_SIZE * of_nat (length ?xs)\<rparr>)"
    and h: "heap_lists h (?L(ph \<mapsto> [], usedList \<mapsto> us @ ?xs))"
    and P: "\<forall>k < length ?xs. P (node_page ?s1 (?xs ! k)) = (pagesList ?s1 (node_page ?s1 (?xs ! k)))
       \<lparr>pg_virtualAddress := ev_vaddr ev + SYS_PAGE_SIZE * of_nat k, pg_process := ev_origin ev\<rparr>"
      "\<forall>i. i \<notin> node_page ?s1 ` set ?xs \<longrightarrow> P i = pagesList ?s1 i"
      "\<forall>i. pg_node (P i) = pg_node (pagesList ?s1 i) \<and> pg_physicalAddress (P i) = pg_physicalAddress (pagesList ?s1 i)"
    by (rule consume_pages_acct_spec [OF L' f ph(2) d])
  let ?s = "s\<lparr>umem := m, pagesList := P, links := h, usedMemory := usedMemory s + SYS_PAGE_SIZE * of_nat (min (w + 1) (length fs))\<rparr>"
  have "?s1\<lparr>pagesList := P, links := h, usedMemory := usedMemory ?s1 + SYS_PAGE_SIZE * of_nat (length ?xs)\<rparr> = ?s"
    by (subst (1 2) s1) (simp add: min.commute)
  then have R: "basic_alloc env ph ev s = Some (0, e, ?s)" using B a c by (simp add: after_answer_def)
  have "heap_lists h [freeList \<mapsto> drop (w + 1) fs, usedList \<mapsto> us @ ?xs]"
    by (rule lists_sub [OF h]) (use ph in \<open>auto simp: map_le_def\<close>)
  moreover have "links ?s = h" by simp
  ultimately have h': "heap_lists (links ?s) [freeList \<mapsto> drop (w + 1) fs, usedList \<mapsto> us @ ?xs]" by (simp only:)
  have "\<forall>i. pg_node (P i) = pg_node (pagesList s i) \<and> pg_physicalAddress (P i) = pg_physicalAddress (pagesList s i)"
    using P(3) unfolding n .
  then have "pool ?s (drop (w + 1) fs) (us @ ?xs)"
    by (intro pool_cong [OF h' poolD(2) [OF p(1)]]) (use taken_nodes(1) [OF p(1), of "w + 1"] in auto)
  then show ?thesis using R P(1) unfolding n by (intro exI [of _ e] exI [of _ ?s]) (auto simp: page_of_def)
qed


text \<open>Tasks that accept with no page left over, and that refuse.\<close>

definition accept :: "nat \<Rightarrow> mem \<Rightarrow> mem" where
  "accept n m = wr64 (wr32 m 4096 4 3) 4096 36 0"

definition refuse :: "nat \<Rightarrow> mem \<Rightarrow> mem" where
  "refuse n m = wr32 m 4096 4 5"

lemma accept_answers:
  assumes "ev_usmmem e = 4096"
  shows "\<exists>m' e'. usmSubmitAllocEvent accept m e = Some (0, m', e') \<and> ev_flags e' = 0"
proof -
  have "subm_wait accept 4096 0 m1 = Some (accept 0 m1)" for m1
    by (subst subm_wait.simps) (simp add: accept_def mem_simps Let_def)
  then show ?thesis
    using assms by (simp add: usmSubmitAllocEvent_def usm_mem_subm_ev_def Let_def accept_def mem_simps)
qed

lemma refuse_answers:
  assumes "ev_usmmem e = 4096"
  shows "\<exists>ret m' e'. usmSubmitAllocEvent refuse m e = Some (ret, m', e') \<and> ret \<noteq> 0"
proof -
  have "subm_wait refuse 4096 0 m1 = Some (refuse 0 m1)" for m1
    by (subst subm_wait.simps) (simp add: refuse_def mem_simps Let_def)
  then show ?thesis
    using assms by (simp add: usmSubmitAllocEvent_def usm_mem_subm_ev_def Let_def refuse_def mem_simps)
qed

lemma ev0_wanted: "wanted_number ev0 = int 1" by (simp add: wanted_number_def ev0_def Let_def)

theorem basic_alloc_refused_witness:
  "\<exists>e s'. basic_alloc refuse 256 ev0 pool0 = Some (1, e, s') \<and> pool s' [64, 128] [] \<and> usedMemory s' = - 8192"
  using basic_alloc_refused [OF pool0_pool pool0_unlisted _ ev0_wanted, of refuse] refuse_answers
  by (force simp: ev0_def SYS_PAGE_SIZE_def)

theorem basic_alloc_served_witness:
  "\<exists>e s'. basic_alloc accept 256 ev0 pool0 = Some (0, e, s') \<and> pool s' [] [64, 128] \<and> usedMemory s' = 8192"
  using basic_alloc_served [OF pool0_pool pool0_unlisted _ ev0_wanted, of accept] accept_answers
  by (force simp: ev0_def SYS_PAGE_SIZE_def)

lemma enc_fragmented:
  assumes "pfns \<noteq> [] \<longrightarrow> v \<noteq> pfns ! 0" "\<forall>k. Suc k < length pfns \<longrightarrow> pfns ! Suc k \<noteq> pfns ! k + 1"
    "pos + length pfns < 2 ^ 31" "k < length pfns"
  shows "rd64 (enc_pfns ev pfns pos cnt v m) (ev_usmmem ev) (48 + 12 * (pos + 1 + k)) = pfns ! k"
  using assms
proof (induction pfns arbitrary: pos cnt v m k)
  case (Cons p pfns)
  let ?m = "usmPrepPreAlloc ev p (pos + 1) (usmPrepPreAllocFastCounted ev pos cnt m)"
  have e: "enc_pfns ev (p # pfns) pos cnt v m = enc_pfns ev pfns (pos + 1) 0 (p + 1) ?m" using Cons.prems(1) by simp
  show ?case
  proof (cases k)
    case 0
    have "rd64 ?m (ev_usmmem ev) (48 + 12 * (pos + 1)) = p"
      using Cons.prems(3) by (simp add: usmPrepPreAlloc_def mem_simps algebra_simps)
    then show ?thesis
      unfolding e using 0 enc_below(1) [of "pos + 1" pfns "48 + 12 * (pos + 1)" ev 0 "p + 1" ?m] Cons.prems(3) by simp
  next
    case (Suc j)
    have "rd64 (enc_pfns ev pfns (pos + 1) 0 (p + 1) ?m) (ev_usmmem ev) (48 + 12 * (pos + 1 + 1 + j)) = pfns ! j"
    proof (rule Cons.IH)
      show "pfns \<noteq> [] \<longrightarrow> p + 1 \<noteq> pfns ! 0" using spec [OF Cons.prems(2), of 0] by (cases pfns) auto
      show "\<forall>k. Suc k < length pfns \<longrightarrow> pfns ! Suc k \<noteq> pfns ! k + 1"
        using Cons.prems(2) by (metis Suc_less_eq length_Cons nth_Cons_Suc)
    qed (use Cons.prems Suc in simp_all)
    then show ?thesis unfolding e using Suc by (simp add: algebra_simps)
  qed
qed simp



text \<open>The swap module's page services undo each other: \<open>pick_pages\<close> takes as many of the
  first free pages as there are, up to the number asked for, counts them and says how
  many it took; giving them back frees them again and restores the count, without a
  page being lost.\<close>

theorem pick_give_back:
  assumes p: "pool s fs us" "unlisted ph [freeList \<mapsto> fs, usedList \<mapsto> us]"
  shows "\<exists>s1 s2. pick_pages ph n (upd_links (INIT_LIST_HEAD ph) s) = (min n (length fs), s1) \<and>
    heap_lists (links s1) [freeList \<mapsto> drop n fs, usedList \<mapsto> us, ph \<mapsto> rev (take n fs)] \<and>
    usedMemory s1 = usedMemory s + SYS_PAGE_SIZE * of_nat (min n (length fs)) \<and>
    give_back_pages ph s1 = Some s2 \<and> pool s2 (drop n fs @ rev (take n fs)) us \<and> usedMemory s2 = usedMemory s"
proof -
  let ?L = "[freeList \<mapsto> fs, usedList \<mapsto> us, ph \<mapsto> []]" and ?s = "upd_links (INIT_LIST_HEAD ph) s"
  let ?M = "[freeList \<mapsto> drop n fs, usedList \<mapsto> us, ph \<mapsto> rev (take n fs)]"
  note I = lists_two_init [OF p]
  have L: "?L freeList = Some fs" "?L ph = Some []" using I(2,3) by simp_all
  obtain h where h: "pick_loop ph n ?s = (n - length fs, ?s\<lparr>links := h, usedMemory := usedMemory ?s + SYS_PAGE_SIZE * of_nat (min n (length fs))\<rparr>)"
    "heap_lists h (?L(freeList \<mapsto> drop n fs, ph \<mapsto> rev (take n fs) @ []))" using pick_loop_spec [OF I(1) L I(2), of n] by blast
  let ?s1 = "s\<lparr>links := h, usedMemory := usedMemory s + SYS_PAGE_SIZE * of_nat (min n (length fs))\<rparr>"
  have pk: "pick_pages ph n ?s = (min n (length fs), ?s1)" using h(1) by (simp add: pick_pages_def)
  have "?L(freeList \<mapsto> drop n fs, ph \<mapsto> rev (take n fs) @ []) = ?M" using I(2,3) by (auto simp: fun_eq_iff)
  moreover have "links ?s1 = h" by simp
  ultimately have h1: "heap_lists (links ?s1) ?M" using h(2) by (simp only:)
  have M: "?M ph = Some (rev (take n fs))" "?M freeList = Some (drop n fs)" using I(2,3) by simp_all
  obtain h2 where g: "give_back_pages ph ?s1 = Some (?s1\<lparr>links := h2, usedMemory := usedMemory ?s1 - SYS_PAGE_SIZE * of_nat (length (rev (take n fs)))\<rparr>)"
    and h2: "heap_lists h2 (?M(ph \<mapsto> [], freeList \<mapsto> drop n fs @ rev (take n fs)))" by (rule give_back_pages_spec [OF h1 M I(2)])
  let ?s2 = "s\<lparr>links := h2\<rparr>"
  have g': "give_back_pages ph ?s1 = Some ?s2" using g by (simp add: min.commute)
  have "heap_lists h2 [freeList \<mapsto> drop n fs @ rev (take n fs), usedList \<mapsto> us]"
    by (rule lists_sub [OF h2]) (use I(2,3) in \<open>auto simp: map_le_def\<close>)
  moreover have "links ?s2 = h2" by simp
  ultimately have h3: "heap_lists (links ?s2) [freeList \<mapsto> drop n fs @ rev (take n fs), usedList \<mapsto> us]" by (simp only:)
  have "pool ?s2 (drop n fs @ rev (take n fs)) us"
    by (rule pool_cong [OF h3 poolD(2) [OF p(1)]]) (use taken_nodes(1) [OF p(1), of n] in auto)
  then show ?thesis using pk h1 g' by (intro exI [of _ ?s1] exI [of _ ?s2] conjI) (assumption | simp)+
qed

theorem pick_give_back_witness:
  "\<exists>s1 s2. pick_pages 256 5 (upd_links (INIT_LIST_HEAD 256) pool0) = (2, s1) \<and> usedMemory s1 = 8192 \<and>
     give_back_pages 256 s1 = Some s2 \<and> pool s2 [128, 64] [] \<and> usedMemory s2 = 0"
proof -
  have "drop 5 [64, 128 :: addr] @ rev (take 5 [64, 128]) = [128, 64]" by simp
  then show ?thesis using pick_give_back [OF pool0_pool pool0_unlisted, of 5] by (auto simp: SYS_PAGE_SIZE_def)
qed

text \<open>\<open>basic_c_alloc\<close> calls itself before doing anything: it never returns.\<close>

lemma basic_c_alloc_diverges: "basic_c_alloc looping ev = None"
proof -
  have False if s: "basic_c_alloc l e = Some v" for l e v
  proof (rule basic_c_alloc.raw_induct [where P = "\<lambda>_ _ _. False", OF _ s])
    fix f :: "bool \<Rightarrow> usm_event \<Rightarrow> (nat \<times> usm_event) option" and l e v
    assume "\<And>l e v. f l e = Some v \<Longrightarrow> False"
    then have f: "f l e = None" for l e by (cases "f l e") auto
    assume "(if l then f False (e\<lparr>ev_vaddr := ev_vaddr e + SYS_PAGE_SIZE\<rparr>) \<bind> (\<lambda>(r, ev). if r \<noteq> 0 then Some (0, ev) else f True ev)
      else f False e \<bind> (\<lambda>(r, ev). if r \<noteq> 0 then Some (1, ev) else f True ev)) = Some v"
    then show False using f by (simp split: if_splits)
  qed
  then show ?thesis by (cases "basic_c_alloc looping ev") auto
qed

end
