(* ===== verification/Swap_Policy.thy ===== *)
theory Swap_Policy
  imports Batch_Alloc
begin

text \<open>
  The swap device (\<open>include/policies/evict/swap.h\<close>, \<open>swap_dev.h\<close>, \<open>impl/policies/evict/swap.c\<close>)
  and the swap policies (\<open>examples/project-2/evict/src/policiesSet1.c\<close>) of the build that
  swaps to a file.  The daemon has one device, \<open>swap_device_one\<close>; its file is a function
  from offsets to page contents.  Whether the file operations succeed and what the
  kernel answers to a request are parameters.  A \<open>to_swap\<close> is named by its address, which
  also names its two embedded list nodes (\<open>iulist\<close> in \<open>tlinks\<close>, \<open>globlist\<close> in \<open>glinks\<close>), and a
  swap node by its address, which also names its list node (in \<open>slinks\<close>).  Reading
  through a NULL pointer, and through a list head taken for a node, is \<open>None\<close>.
\<close>

unbundle bit_operations_syntax

section \<open>State\<close>

record to_swap =
  ts_page :: u64 \<comment> \<open>the index of the page\<close>
  ts_swapped_address :: u64
  ts_snode :: addr
  ts_proc :: u32
  ts_retaken :: bool

record swap_state =
  usm :: usm_state
  to_swaps :: "addr \<Rightarrow> to_swap"
  sn_offset :: "addr \<Rightarrow> u64"
  sn_holder :: "addr \<Rightarrow> addr" \<comment> \<open>\<open>toSwapHolder\<close>, 0 for NULL\<close>
  swap_nodes :: addr
  disk :: "u64 \<Rightarrow> bytes"

text \<open>The device's number and the addresses of its list heads and of the global list.\<close>

definition dev_number :: u64 where "dev_number = 1"
definition dev_swap_list :: addr where "dev_swap_list = 16"
definition dev_free_list :: addr where "dev_free_list = 17"
definition swapList :: addr where "swapList = 18"

abbreviation upd_usm :: "(usm_state \<Rightarrow> usm_state) \<Rightarrow> swap_state \<Rightarrow> swap_state" where
  "upd_usm f s \<equiv> s\<lparr>usm := f (usm s)\<rparr>"

abbreviation upd_slinks :: "(lheap \<Rightarrow> lheap) \<Rightarrow> swap_state \<Rightarrow> swap_state" where
  "upd_slinks f s \<equiv> upd_usm (\<lambda>u. u\<lparr>slinks := f (slinks u)\<rparr>) s"

abbreviation upd_tlinks :: "(lheap \<Rightarrow> lheap) \<Rightarrow> swap_state \<Rightarrow> swap_state" where
  "upd_tlinks f s \<equiv> upd_usm (\<lambda>u. u\<lparr>tlinks := f (tlinks u)\<rparr>) s"

abbreviation upd_glinks :: "(lheap \<Rightarrow> lheap) \<Rightarrow> swap_state \<Rightarrow> swap_state" where
  "upd_glinks f s \<equiv> upd_usm (\<lambda>u. u\<lparr>glinks := f (glinks u)\<rparr>) s"

text \<open>A \<open>struct swap_node\<close> has 32 bytes.\<close>

definition snode_at :: "addr \<Rightarrow> u64 \<Rightarrow> addr" where
  "snode_at base i = base + 32 * i"

section \<open>Swap entries\<close>

definition swap_value :: "to_swap \<Rightarrow> swap_state \<Rightarrow> u64" where
  "swap_value victimNode s =
    (signed_drop_bit 5 (push_bit (9 + 5) (sn_offset s (ts_snode victimNode) div 4096)) OR push_bit (64 - 5) dev_number)
      AND NOT (push_bit 0 1) AND NOT (push_bit 8 1)"

definition deviceNumber :: "usm_event \<Rightarrow> u64" where
  "deviceNumber ev = drop_bit (8 * 8 - 5) (ev_offst ev)"

definition event_to_swap_entry :: "usm_event \<Rightarrow> swap_state \<Rightarrow> addr" where
  "event_to_swap_entry ev s =
     sn_holder s (snode_at (swap_nodes s) (drop_bit (5 + 9) (push_bit 5 (ev_offst ev)) div 4096))"

section \<open>The device\<close>

fun init_nodes :: "nat \<Rightarrow> swap_state \<Rightarrow> swap_state" where
  "init_nodes 0 s = s"
| "init_nodes (Suc itr) s =
    (let s = init_nodes itr s;
         snode = snode_at (swap_nodes s) (of_nat itr);
         s = s\<lparr>sn_offset := (sn_offset s)(snode := of_nat itr * SYS_PAGE_SIZE)\<rparr>;
         s = upd_slinks (INIT_LIST_HEAD snode) s
     in upd_slinks (list_add snode dev_free_list) s)"

text \<open>\<open>nodes\<close> is what \<open>malloc\<close> returns, 0 when it fails.\<close>

definition init_swap_device_nodes :: "addr \<Rightarrow> u64 \<Rightarrow> swap_state \<Rightarrow> nat \<times> swap_state" where
  "init_swap_device_nodes nodes sz s =
    (let s = upd_slinks (INIT_LIST_HEAD dev_swap_list) s;
         s = upd_slinks (INIT_LIST_HEAD dev_free_list) s
     in if sz mod SYS_PAGE_SIZE \<noteq> 0 \<or> sz > push_bit (8 * 8 - 3) 1 then (1, s)
        else let s = s\<lparr>swap_nodes := nodes\<rparr>
             in if swap_nodes s = 0 then (1, s) else (0, init_nodes (unat (sz div SYS_PAGE_SIZE)) s))"

definition getSwapNode :: "swap_state \<Rightarrow> addr option \<times> swap_state" where
  "getSwapNode s =
    (if \<not> list_empty dev_free_list (slinks (usm s))
     then let swap_node = lh_next (slinks (usm s)) dev_free_list
          in (Some swap_node, upd_slinks (list_del swap_node) s)
     else (None, s))"

definition putSwapNode :: "addr \<Rightarrow> swap_state \<Rightarrow> swap_state" where
  "putSwapNode swapNode s = upd_slinks (list_add_tail swapNode dev_free_list) s"

definition usmAddProcSwapNode :: "addr \<Rightarrow> swap_state \<Rightarrow> swap_state" where
  "usmAddProcSwapNode toSwap s =
     upd_tlinks (list_add toSwap (pd_swapList (procDescList (usm s) (ts_proc (to_swaps s toSwap))))) s"

definition usmHoldProcSwapNode :: "addr \<Rightarrow> swap_state \<Rightarrow> swap_state" where
  "usmHoldProcSwapNode toSwap s = upd_tlinks (list_del toSwap) s"

text \<open>The loop of \<open>trySwapCache\<close>: the entry for the address, if any.\<close>

partial_function (option) cache_find :: "swap_state \<Rightarrow> addr \<Rightarrow> u64 \<Rightarrow> addr \<Rightarrow> addr option option" where
  "cache_find s head vaddr pos =
    (if pos = head then Some None
     else if ts_swapped_address (to_swaps s pos) = vaddr then Some (Some pos)
     else cache_find s head vaddr (lh_next (tlinks (usm s)) pos))"

definition trySwapCache :: "(nat \<Rightarrow> mem \<Rightarrow> mem) \<Rightarrow> usm_event \<Rightarrow> swap_state \<Rightarrow> (nat \<times> usm_event \<times> swap_state) option" where
  "trySwapCache env ev s =
    (let head = pd_swapCache (procDescList (usm s) (ev_origin ev))
     in if \<not> list_empty head (tlinks (usm s))
        then Option.bind (cache_find s head (ev_vaddr ev) (lh_next (tlinks (usm s)) head)) (\<lambda>found.
          case found of
            None \<Rightarrow> Some (0, ev, s)
          | Some it \<Rightarrow>
              let s = s\<lparr>to_swaps := (to_swaps s)(it := (to_swaps s it)\<lparr>ts_retaken := True\<rparr>)\<rparr>;
                  ev = ev\<lparr>ev_paddr := pg_physicalAddress (pagesList (usm s) (ts_page (to_swaps s it)))\<rparr>
              in Option.bind (usmSubmitAllocEvent env (umem (usm s)) ev) (\<lambda>(_, m, ev).
                   Some (1, ev, upd_usm (\<lambda>u. u\<lparr>umem := m\<rparr>) s)))
        else Some (0, ev, s))"

section \<open>Swapping out and in\<close>

text \<open>Whether the seek, the write and the read succeed.\<close>

record file_io =
  seek_ok :: bool
  write_ok :: bool
  read_ok :: bool

text \<open>The two error paths after the kernel has taken the page from the task.\<close>

definition drop_swap_out :: "(uffdio_palloc \<Rightarrow> ioctl_result) \<Rightarrow> to_swap \<Rightarrow> swap_state \<Rightarrow> swap_state" where
  "drop_swap_out io v s =
    (let s = s\<lparr>usm := snd (usm_set_pfn io (ts_proc v) (ts_swapped_address v) (pg_physicalAddress (pagesList (usm s) (ts_page v))) (usm s))\<rparr>;
         s = upd_usm (give_back_page_used (pg_node (pagesList (usm s) (ts_page v)))) s
     in putSwapNode (ts_snode v) s)"

definition swap_out :: "(uffdio_palloc \<Rightarrow> ioctl_result) \<Rightarrow> file_io \<Rightarrow> addr \<Rightarrow> swap_state \<Rightarrow> nat \<times> swap_state" where
  "swap_out io f victimNode s =
    (let v = to_swaps s victimNode;
         s = upd_tlinks (list_add victimNode (pd_swapCache (procDescList (usm s) (ts_proc v)))) s;
         (r, u) = usm_clear_and_set io (ts_proc v) (ts_swapped_address v) (swap_value v s) (usm s);
         s = s\<lparr>usm := u\<rparr>
     in if r \<noteq> 0 then (1, putSwapNode (ts_snode v) s)
        else if \<not> seek_ok f then (1, drop_swap_out io v s)
        else if \<not> write_ok f then (1, drop_swap_out io v s)
        else
          let s = s\<lparr>disk := (disk s)(sn_offset s (ts_snode v) := frames (usm s) (pg_data (pagesList (usm s) (ts_page v))))\<rparr>;
              s = upd_tlinks (\<lambda>h. list_del_between (lh_prev h victimNode) (lh_next h victimNode) h) s
          in if ts_retaken (to_swaps s victimNode) then (0, putSwapNode (ts_snode v) s)
             else
               let s = usmAddProcSwapNode victimNode s;
                   s = upd_glinks (list_add victimNode swapList) s;
                   s = upd_usm (\<lambda>u. u\<lparr>swappedMemory := swappedMemory u + SYS_PAGE_SIZE\<rparr>) s;
                   s = upd_usm (upd_links (list_add (pg_node (pagesList (usm s) (ts_page v))) freeList)) s
               in (0, upd_usm (\<lambda>u. u\<lparr>usedMemory := usedMemory u - SYS_PAGE_SIZE\<rparr>) s))"

text \<open>\<open>ph\<close> is the head on the stack of \<open>swap_in\<close>.\<close>

definition swap_in :: "file_io \<Rightarrow> addr \<Rightarrow> addr \<Rightarrow> swap_state \<Rightarrow> (nat \<times> swap_state) option" where
  "swap_in f ph luckyNode s =
    (if \<not> seek_ok f then Some (1, s)
     else
       let s = upd_usm (upd_links (INIT_LIST_HEAD ph)) s;
           (got, u) = pick_pages ph 1 (usm s);
           s = s\<lparr>usm := u\<rparr>
       in if got = 0 then Some (1, s)
          else
            let chosenPage = list_first_entry ph (links (usm s));
                pg = node_page (usm s) chosenPage
            in if \<not> read_ok f
               then Option.bind (give_back_pages ph (usm s)) (\<lambda>u.
                      Some (1, upd_glinks (list_add luckyNode swapList) (s\<lparr>usm := u\<rparr>)))
               else
                 let s = upd_usm (\<lambda>u. u\<lparr>frames := (frames u)(pg_data (pagesList u pg) :=
                            disk s (sn_offset s (ts_snode (to_swaps s luckyNode))))\<rparr>) s;
                     s = upd_usm (usmSetUsedListNode pg chosenPage) s
                 in Some (0, s\<lparr>to_swaps := (to_swaps s)(luckyNode := (to_swaps s luckyNode)\<lparr>ts_page := pg\<rparr>)\<rparr>))"

definition delete_swap_entry :: "addr \<Rightarrow> swap_state \<Rightarrow> swap_state" where
  "delete_swap_entry toDelete s = upd_glinks (list_del toDelete) (upd_tlinks (list_del toDelete) s)"

definition basic_swap ::
  "(nat \<Rightarrow> mem \<Rightarrow> mem) \<Rightarrow> file_io \<Rightarrow> addr \<Rightarrow> usm_event \<Rightarrow> swap_state \<Rightarrow> (nat \<times> usm_event \<times> swap_state) option" where
  "basic_swap env f ph ev s =
    (let neededNode = event_to_swap_entry ev s
     in if neededNode = 0 then None
        else do {
          (r, s) \<leftarrow> swap_in f ph neededNode s;
          (if r \<noteq> 0 then Some (1, ev, s)
           else do {
             let n = to_swaps s neededNode;
             let ev = ev\<lparr>ev_paddr := pg_physicalAddress (pagesList (usm s) (ts_page n))\<rparr>;
             (ret, m, ev) \<leftarrow> usmSubmitAllocEvent env (umem (usm s)) ev;
             let s = upd_usm (\<lambda>u. u\<lparr>umem := m\<rparr>) s;
             let node = pg_node (pagesList (usm s) (ts_page n));
             (if ret \<noteq> 0
              then do {
                u \<leftarrow> give_back_pages node (usm s);
                Some (1, ev, upd_glinks (list_add neededNode swapList) (s\<lparr>usm := u\<rparr>))
              }
              else do {
                let s = upd_usm (upd_page (ts_page n) (\<lambda>p. p\<lparr>pg_virtualAddress := ts_swapped_address n, pg_process := ts_proc n\<rparr>)) s;
                let s = upd_usm (give_back_page_used node) s;
                let s = upd_usm (upd_page (ts_page n) (\<lambda>p. p\<lparr>pg_process := ts_proc n\<rparr>)) s;
                let s = upd_usm (upd_page (ts_page n) (\<lambda>p. p\<lparr>pg_virtualAddress := ts_swapped_address n\<rparr>)) s;
                Some (0, ev, putSwapNode (ts_snode n) s)
              })
           })
        })"

definition double_swap ::
  "(nat \<Rightarrow> mem \<Rightarrow> mem) \<Rightarrow> file_io \<Rightarrow> addr \<Rightarrow> usm_event \<Rightarrow> swap_state \<Rightarrow> (nat \<times> usm_event \<times> swap_state) option" where
  "double_swap env f ph ev s = do {
     (r, ev, s) \<leftarrow> basic_swap env f ph ev s;
     (if r = 0 then Some (0, ev, s)
      else if list_empty (pd_swapList (procDescList (usm s) (ev_origin ev))) (tlinks (usm s)) then Some (1, ev, s)
      else None)
   }"

section \<open>Choosing pages to swap out\<close>

text \<open>\<open>toSwapNode\<close> is the address \<open>malloc\<close> returns; it leaves the field \<open>retaken\<close> as it finds it.\<close>

definition handle_evict_request ::
  "(uffdio_palloc \<Rightarrow> ioctl_result) \<Rightarrow> file_io \<Rightarrow> addr \<Rightarrow> usm_event \<Rightarrow> swap_state \<Rightarrow> swap_state option" where
  "handle_evict_request io f toSwapNode ev s =
    (if list_empty usedList (links (usm s)) then Some s
     else
       let victim = list_first_entry usedList (links (usm s));
           s = upd_usm (hold_used_page_commit victim) s;
           pg = node_page (usm s) victim
       in if usmCheckPageAlive pg (usm s)
          then (let s = upd_usm (upd_links (list_add victim freeList)) s
                in Some (upd_usm (\<lambda>u. u\<lparr>usedMemory := usedMemory u - SYS_PAGE_SIZE\<rparr>) s))
          else
            (case getSwapNode s of
               (None, s) \<Rightarrow> None
             | (Some snode, s) \<Rightarrow>
                 let s = s\<lparr>to_swaps := (to_swaps s)(toSwapNode := (to_swaps s toSwapNode)
                            \<lparr>ts_page := pg, ts_proc := pg_process (pagesList (usm s) pg),
                             ts_swapped_address := pg_virtualAddress (pagesList (usm s) pg), ts_snode := snode\<rparr>)\<rparr>;
                     s = s\<lparr>sn_holder := (sn_holder s)(snode := toSwapNode)\<rparr>
                 in Some (snd (swap_out io f toSwapNode s))))"

definition swapper_routine_out_commit :: "(uffdio_palloc \<Rightarrow> ioctl_result) \<Rightarrow> file_io \<Rightarrow> addr \<Rightarrow> swap_state \<Rightarrow> swap_state option" where
  "swapper_routine_out_commit io f toSwapList s =
     for_each_safe (\<lambda>s. tlinks (usm s)) (\<lambda>it s. snd (swap_out io f it s)) toSwapList s"

text \<open>The loop of \<open>swap_out_list_and_commit\<close>; \<open>ts i\<close> is the i-th \<open>to_swap\<close> it allocates.\<close>

fun out_list :: "(nat \<Rightarrow> addr) \<Rightarrow> addr \<Rightarrow> nat \<Rightarrow> nat \<Rightarrow> swap_state \<Rightarrow> swap_state option" where
  "out_list ts toSwapOutList 0 i s = Some s"
| "out_list ts toSwapOutList (Suc nr) i s =
    (if list_empty usedList (links (usm s)) then Some s
     else
       let victim = list_first_entry usedList (links (usm s));
           s = upd_usm (upd_links (list_del victim)) s;
           pg = node_page (usm s) victim
       in (case getSwapNode s of
             (None, s) \<Rightarrow> None
           | (Some snode, s) \<Rightarrow>
               let s = s\<lparr>to_swaps := (to_swaps s)(ts i := (to_swaps s (ts i))
                          \<lparr>ts_page := pg, ts_proc := pg_process (pagesList (usm s) pg),
                           ts_swapped_address := pg_virtualAddress (pagesList (usm s) pg), ts_snode := snode\<rparr>)\<rparr>;
                   s = s\<lparr>sn_holder := (sn_holder s)(snode := ts i)\<rparr>;
                   s = upd_tlinks (list_add (ts i) toSwapOutList) s
               in out_list ts toSwapOutList nr (Suc i) s))"

definition swap_out_list_and_commit ::
  "(uffdio_palloc \<Rightarrow> ioctl_result) \<Rightarrow> file_io \<Rightarrow> (nat \<Rightarrow> addr) \<Rightarrow> addr \<Rightarrow> nat \<Rightarrow> swap_state \<Rightarrow> swap_state option" where
  "swap_out_list_and_commit io f ts toSwapOutList nr s = do {
     let s = upd_tlinks (INIT_LIST_HEAD toSwapOutList) s;
     s \<leftarrow> out_list ts toSwapOutList nr 0 s;
     swapper_routine_out_commit io f toSwapOutList s
   }"

section \<open>Setup\<close>

definition usm_basic_swap_policy :: u64 where "usm_basic_swap_policy = 0x6000"
definition swap_policy_one :: u64 where "swap_policy_one = 0x7000"

definition register_swap :: "(nat \<Rightarrow> bool) \<Rightarrow> u64 \<Rightarrow> string \<Rightarrow> bool \<Rightarrow> swap_state \<Rightarrow> (int \<times> swap_state) option" where
  "register_swap mok ops name dflt s =
     Option.bind (usm_register_swap_policy mok (tables (usm s)) ops name dflt) (\<lambda>(r, t). Some (r, upd_usm (\<lambda>u. u\<lparr>tables := t\<rparr>) s))"

text \<open>\<open>opened\<close>: whether the swap file could be opened.\<close>

definition swap_policiesSet1_setup :: "(nat \<Rightarrow> nat \<Rightarrow> bool) \<Rightarrow> bool \<Rightarrow> addr \<Rightarrow> swap_state \<Rightarrow> (nat \<times> swap_state) option" where
  "swap_policiesSet1_setup mok opened nodes s = do {
     (r, s) \<leftarrow> register_swap (mok 0) swap_policy_one ''policyOne'' False s;
     (if r \<noteq> 0 then Some (1, s)
      else do {
        (r, s) \<leftarrow> register_swap (mok 1) usm_basic_swap_policy ''basic_policy'' True s;
        (if r \<noteq> 0 then Some (1, s)
         else if \<not> opened then Some (1, s)
         else let (r, s) = init_swap_device_nodes nodes (4 * 1024 * 1024 * 1024) s
              in if r \<noteq> 0 then Some (1, s) else Some (0, s))
      })
   }"


section \<open>The code of a swap entry\<close>

lemma small_no_high_bits:
  assumes "unat (x :: u64) < 2 ^ k" "k \<le> n"
  shows "\<not> bit x n"
proof -
  have "take_bit k (unat x) = unat x" using assms(1) by (rule take_bit_nat_eq_self)
  then have "\<not> bit (unat x) n" using assms(2) by (metis bit_take_bit_iff not_le)
  then show ?thesis by (simp add: bit_unsigned_iff)
qed

lemmas swap_bits = bit_drop_bit_eq bit_push_bit_iff bit_and_iff bit_or_iff bit_not_iff bit_signed_drop_bit_iff comp_def
  bit_1_iff possible_bit_word

abbreviation entry_code :: "u64 \<Rightarrow> u64" where
  "entry_code i \<equiv> (signed_drop_bit 5 (push_bit 14 i) OR push_bit 59 1) AND NOT (push_bit 0 1) AND NOT (push_bit 8 1)"

lemma entry_code_index:
  assumes h: "\<And>n. 38 \<le> n \<Longrightarrow> \<not> bit i n"
  shows "drop_bit 12 (drop_bit 14 (push_bit 5 (push_bit 12 (entry_code i)))) = i"
proof (rule bit_word_eqI)
  fix n assume "n < LENGTH(64)"
  show "bit (drop_bit 12 (drop_bit 14 (push_bit 5 (push_bit 12 (entry_code i))))) n = bit i n"
  proof (cases "n < 38")
    case True
    then show ?thesis by (simp only: swap_bits) (auto simp: bit_simps)
  next
    case False
    then show ?thesis using h [of n] by (simp only: swap_bits) (auto simp: bit_simps)
  qed
qed

lemma entry_code_device:
  assumes h: "\<And>n. 38 \<le> n \<Longrightarrow> \<not> bit i n"
  shows "drop_bit 59 (push_bit 12 (entry_code i)) = 0"
proof (rule bit_word_eqI)
  fix n assume "n < LENGTH(64)"
  show "bit (drop_bit 59 (push_bit 12 (entry_code i))) n = bit 0 n"
    using h [of "38 + n"] by (simp only: swap_bits) (auto simp: bit_simps add.commute)
qed

lemma entry_offset:
  assumes "unat (i :: u64) < 2 ^ 38"
  shows "i * 4096 div 4096 = i"
proof -
  have "unat (i * 4096) = unat i * 4096" using assms by (simp add: unat_word_ariths)
  then show ?thesis by (simp add: word_arith_nat_div)
qed

text \<open>What the kernel hands back for an entry it was given: the event's offset is the entry
  times the page size.\<close>

definition faulted :: "u64 \<Rightarrow> usm_event \<Rightarrow> bool" where
  "faulted entry ev \<longleftrightarrow> ev_offst ev = entry * SYS_PAGE_SIZE"

lemma event_index:
  assumes "sn_offset s (ts_snode v) = i * SYS_PAGE_SIZE" "unat i < 2 ^ 38" "faulted (swap_value v s) ev"
  shows "drop_bit (5 + 9) (push_bit 5 (ev_offst ev)) div 4096 = i" "deviceNumber ev = 0"
proof -
  have v: "swap_value v s = entry_code i"
    using assms(1,2) entry_offset by (simp add: swap_value_def dev_number_def SYS_PAGE_SIZE_def)
  have o: "ev_offst ev = push_bit 12 (entry_code i)"
    using assms(3) unfolding faulted_def v by (simp only: push_bit_eq_mult SYS_PAGE_SIZE_def) simp
  note h = small_no_high_bits [OF assms(2)]
  have "drop_bit 14 (push_bit 5 (push_bit 12 (entry_code i))) div 4096 = drop_bit 12 (drop_bit 14 (push_bit 5 (push_bit 12 (entry_code i))))"
    by (simp only: drop_bit_eq_div) simp
  then show "drop_bit (5 + 9) (push_bit 5 (ev_offst ev)) div 4096 = i"
    using entry_code_index [OF h] o by simp
  show "deviceNumber ev = 0" using entry_code_device [OF h] o by (simp add: deviceNumber_def)
qed


text \<open>C16: a page fault on a swapped-out page finds the swap node the page was written to, for
  devices of up to \<open>2 ^ 38\<close> pages: the entry the daemon gives to the kernel and the index
  it recovers from the event are inverse to each other.  The device number is lost on
  the way: the entry has 1 in its upper bits, the event has 0.\<close>

theorem swap_entry_roundtrip:
  assumes "sn_offset s (ts_snode v) = i * SYS_PAGE_SIZE" "unat i < 2 ^ 38" "faulted (swap_value v s) ev"
  shows "event_to_swap_entry ev s = sn_holder s (snode_at (swap_nodes s) i) \<and> deviceNumber ev = 0 \<and> dev_number = 1"
  using event_index [OF assms] by (simp add: event_to_swap_entry_def dev_number_def)

text \<open>A swap state around the two-page pool: a device of two nodes, one of them in use.\<close>

definition swap0 :: swap_state where
  "swap0 = snd (init_swap_device_nodes 4096 8192 \<lparr>usm = pool0, to_swaps = (\<lambda>_. \<lparr>ts_page = 0, ts_swapped_address = 0, ts_snode = 0,
     ts_proc = 0, ts_retaken = False\<rparr>), sn_offset = (\<lambda>_. 0), sn_holder = (\<lambda>_. 0), swap_nodes = 0, disk = (\<lambda>_. [])\<rparr>)"

definition swap1 :: swap_state where
  "swap1 = swap0\<lparr>sn_offset := (\<lambda>_. 4096), sn_holder := (\<lambda>_. 7)\<rparr>"

theorem swap_entry_roundtrip_witness:
  "event_to_swap_entry (ev0\<lparr>ev_offst := swap_value (to_swaps swap1 0) swap1 * SYS_PAGE_SIZE\<rparr>) swap1 = 7"
proof -
  have "sn_offset swap1 (ts_snode (to_swaps swap1 0)) = 1 * SYS_PAGE_SIZE" by (simp add: swap1_def SYS_PAGE_SIZE_def)
  moreover have "faulted (swap_value (to_swaps swap1 0) swap1) (ev0\<lparr>ev_offst := swap_value (to_swaps swap1 0) swap1 * SYS_PAGE_SIZE\<rparr>)"
    by (simp add: faulted_def)
  moreover have "unat (1 :: u64) < 2 ^ 38" "sn_holder swap1 = (\<lambda>_. 7)" by (simp_all add: swap1_def)
  ultimately show ?thesis
    using swap_entry_roundtrip [of swap1 "to_swaps swap1 0" 1 "ev0\<lparr>ev_offst := swap_value (to_swaps swap1 0) swap1 * SYS_PAGE_SIZE\<rparr>"]
    by (simp only: simp_thms)
qed

section \<open>Setting up the device\<close>

lemma snode_at_nat: "of_nat (unat base + 32 * k) = snode_at base (of_nat k)"
  unfolding snode_at_def of_nat_add of_nat_mult by simp

lemma snode_at_unat:
  assumes "unat base + 32 * n < 2 ^ 64" "k < n"
  shows "unat (snode_at base (of_nat k)) = unat base + 32 * k"
proof -
  have "unat base + 32 * k < 2 ^ 64" using assms by linarith
  from unat_of_nat_u64 [OF this] show ?thesis by (simp only: snode_at_nat)
qed

lemma snode_at_eq:
  assumes "unat base + 32 * n < 2 ^ 64" "i < n" "j < n" "snode_at base (of_nat i) = snode_at base (of_nat j)"
  shows "i = j"
proof -
  have "unat base + 32 * i = unat base + 32 * j"
    using snode_at_unat [OF assms(1,2)] snode_at_unat [OF assms(1,3)] assms(4) by (simp only:)
  then show ?thesis by simp
qed

lemma init_nodes_lists:
  assumes L: "heap_lists (slinks (usm s)) [dev_swap_list \<mapsto> [], dev_free_list \<mapsto> []]"
    and b: "17 < unat (swap_nodes s)" "unat (swap_nodes s) + 32 * n < 2 ^ 64" and k: "k \<le> n"
  shows "swap_nodes (init_nodes k s) = swap_nodes s \<and>
    heap_lists (slinks (usm (init_nodes k s)))
      [dev_swap_list \<mapsto> [], dev_free_list \<mapsto> rev (map (\<lambda>i. snode_at (swap_nodes s) (of_nat i)) [0..<k])] \<and>
    (\<forall>i < k. sn_offset (init_nodes k s) (snode_at (swap_nodes s) (of_nat i)) = of_nat i * SYS_PAGE_SIZE)"
  using k
proof (induction k)
  case 0
  show ?case by (intro conjI, simp, simp only: init_nodes.simps upt_0 list.map rev.simps, rule L, simp)
next
  case (Suc k)
  let ?N = "\<lambda>i. snode_at (swap_nodes s) (of_nat i)" and ?s = "init_nodes k s"
  let ?L = "[dev_swap_list \<mapsto> [], dev_free_list \<mapsto> rev (map ?N [0..<k])]"
  have IH: "swap_nodes ?s = swap_nodes s" "heap_lists (slinks (usm ?s)) ?L"
    "\<forall>i < k. sn_offset ?s (?N i) = of_nat i * SYS_PAGE_SIZE" using Suc.IH [OF Suc_leD [OF Suc.prems]] by blast+
  have ne: "?N k \<noteq> ?N i" if "i < k" for i 
    using snode_at_eq [OF b(2), of k i] that Suc.prems by auto
  have "17 < unat (?N k)" using snode_at_unat [OF b(2), of k] Suc.prems b(1) by simp
  then have "?N k \<noteq> dev_swap_list" "?N k \<noteq> dev_free_list" by (auto simp: dev_swap_list_def dev_free_list_def)
  moreover have "?N k \<notin> set (rev (map ?N [0..<k]))"
  proof
    assume "?N k \<in> set (rev (map ?N [0..<k]))"
    then obtain i where "i < k" "?N k = ?N i" by auto
    then show False using ne by metis
  qed
  ultimately have u: "unlisted (?N k) ?L" by (auto simp only: unlisted_def fun_upd_apply option.inject list.set insert_iff split: if_splits)
  have "heap_lists (list_add (?N k) dev_free_list (INIT_LIST_HEAD (?N k) (slinks (usm ?s))))
      (?L(dev_free_list \<mapsto> ?N k # rev (map ?N [0..<k])))"
    by (rule lists_add(1) [OF lists_init_node [OF IH(2) u] _ u]) simp
  moreover have "slinks (usm (init_nodes (Suc k) s)) = list_add (?N k) dev_free_list (INIT_LIST_HEAD (?N k) (slinks (usm ?s)))"
    by (simp add: Let_def IH(1))
  moreover have "?L(dev_free_list \<mapsto> ?N k # rev (map ?N [0..<k])) = [dev_swap_list \<mapsto> [], dev_free_list \<mapsto> rev (map ?N [0..<Suc k])]"
    by (simp add: fun_eq_iff)
  ultimately have "heap_lists (slinks (usm (init_nodes (Suc k) s))) [dev_swap_list \<mapsto> [], dev_free_list \<mapsto> rev (map ?N [0..<Suc k])]"
    by (simp only:)
  moreover have "sn_offset (init_nodes (Suc k) s) (?N i) = of_nat i * SYS_PAGE_SIZE" if "i < Suc k" for i
    using IH(1,3) ne [of i] that by (cases "i = k") (auto simp: Let_def)
  moreover have "swap_nodes (init_nodes (Suc k) s) = swap_nodes s" by (simp add: Let_def IH(1))
  ultimately show ?case by blast
qed

text \<open>Initialising the device with a whole number of pages makes every swap node free,
  the last one first, each with its own offset in the file; a size that is no multiple
  of the page size, one above \<open>2 ^ 61\<close>, or a failed allocation is refused.\<close>

theorem init_swap_device_nodes_correct:
  assumes b: "17 < unat nodes" "unat nodes + 32 * n < 2 ^ 64" and n: "n \<le> 2 ^ 49"
  shows "(\<exists>s'. init_swap_device_nodes nodes (of_nat n * SYS_PAGE_SIZE) s = (0, s') \<and>
      heap_lists (slinks (usm s')) [dev_swap_list \<mapsto> [], dev_free_list \<mapsto> rev (map (\<lambda>i. snode_at nodes (of_nat i)) [0..<n])] \<and>
      (\<forall>i < n. sn_offset s' (snode_at nodes (of_nat i)) = of_nat i * SYS_PAGE_SIZE)) \<and>
    (\<forall>base sz. sz mod SYS_PAGE_SIZE \<noteq> 0 \<or> sz > 2 ^ 61 \<or> base = 0 \<longrightarrow> fst (init_swap_device_nodes base sz s) = 1)"
proof (intro conjI allI impI)
  let ?sz = "of_nat n * SYS_PAGE_SIZE :: u64"
  have e: "?sz = of_nat (n * 4096)" by (simp add: SYS_PAGE_SIZE_def)
  have u: "unat ?sz = n * 4096" unfolding e by (rule unat_of_nat_u64) (use n in simp)
  have "unat (?sz mod SYS_PAGE_SIZE) = 0" by (subst unat_mod, subst u) (simp add: SYS_PAGE_SIZE_def)
  then have m1: "?sz mod SYS_PAGE_SIZE = 0" by (rule unat_eq_zero [THEN iffD1])
  have m2: "unat (?sz div SYS_PAGE_SIZE) = n" by (subst unat_div, subst u) (simp add: SYS_PAGE_SIZE_def)
  have "unat (push_bit (8 * 8 - 3) 1 :: u64) = 2 ^ 61" by (simp add: push_bit_eq_mult)
  then have m3: "\<not> ?sz > push_bit (8 * 8 - 3) 1" using n by (simp only: word_less_nat_alt u) simp
  let ?s = "(upd_slinks (\<lambda>h. INIT_LIST_HEAD dev_free_list (INIT_LIST_HEAD dev_swap_list h)) s)\<lparr>swap_nodes := nodes\<rparr>"
  have "nodes \<noteq> 0" using b(1) by auto
  then have r: "init_swap_device_nodes nodes ?sz s = (0, init_nodes n ?s)"
    using m1 m2 m3 unfolding init_swap_device_nodes_def Let_def by simp
  have "heap_lists (INIT_LIST_HEAD dev_free_list (INIT_LIST_HEAD dev_swap_list (slinks (usm s)))) (Map.empty(dev_swap_list \<mapsto> [], dev_free_list \<mapsto> []))"
    by (intro lists_init) (auto simp: heap_lists_def unlisted_def dev_swap_list_def dev_free_list_def split: if_splits)
  moreover have "slinks (usm ?s) = INIT_LIST_HEAD dev_free_list (INIT_LIST_HEAD dev_swap_list (slinks (usm s)))" "swap_nodes ?s = nodes" by simp_all
  ultimately have L: "heap_lists (slinks (usm ?s)) [dev_swap_list \<mapsto> [], dev_free_list \<mapsto> []]" and nn: "swap_nodes ?s = nodes" by (simp_all only:)
  from init_nodes_lists [OF L, unfolded nn, OF b order_refl] r show "\<exists>s'. init_swap_device_nodes nodes (of_nat n * SYS_PAGE_SIZE) s = (0, s') \<and>
      heap_lists (slinks (usm s')) [dev_swap_list \<mapsto> [], dev_free_list \<mapsto> rev (map (\<lambda>i. snode_at nodes (of_nat i)) [0..<n])] \<and>
      (\<forall>i < n. sn_offset s' (snode_at nodes (of_nat i)) = of_nat i * SYS_PAGE_SIZE)" by blast
next
  fix base sz :: u64 assume "sz mod SYS_PAGE_SIZE \<noteq> 0 \<or> sz > 2 ^ 61 \<or> base = 0"
  then show "fst (init_swap_device_nodes base sz s) = 1"
    by (auto simp: init_swap_device_nodes_def Let_def push_bit_eq_mult)
qed


theorem init_swap_device_nodes_correct_witness:
  "\<exists>s'. init_swap_device_nodes 4096 (of_nat 2 * SYS_PAGE_SIZE) swap0 = (0, s') \<and>
     heap_lists (slinks (usm s')) [dev_swap_list \<mapsto> [], dev_free_list \<mapsto> rev (map (\<lambda>i. snode_at 4096 (of_nat i)) [0..<2])]"
  using init_swap_device_nodes_correct [of 4096 2 swap0] by fastforce

section \<open>A page out and in again\<close>

text \<open>What surrounds a page to be swapped out: the lists of its process (the swap cache
  \<open>c\<close> and the swapped pages \<open>l\<close>), the global list, the free swap nodes and the pages.\<close>

definition swap_lists :: "swap_state \<Rightarrow> u32 \<Rightarrow> addr list \<Rightarrow> addr list \<Rightarrow> addr list \<Rightarrow> addr list \<Rightarrow> bool" where
  "swap_lists s proc cs ls gs ns \<longleftrightarrow>
     pd_swapCache (procDescList (usm s) proc) \<noteq> pd_swapList (procDescList (usm s) proc) \<and>
     heap_lists (tlinks (usm s)) [pd_swapCache (procDescList (usm s) proc) \<mapsto> cs, pd_swapList (procDescList (usm s) proc) \<mapsto> ls] \<and>
     heap_lists (glinks (usm s)) [swapList \<mapsto> gs] \<and> heap_lists (slinks (usm s)) [dev_free_list \<mapsto> ns]"

definition new_to_swap :: "addr \<Rightarrow> swap_state \<Rightarrow> u32 \<Rightarrow> addr list \<Rightarrow> addr list \<Rightarrow> addr list \<Rightarrow> bool" where
  "new_to_swap t s proc cs ls gs \<longleftrightarrow> t \<noteq> 0 \<and> unlisted t [swapList \<mapsto> gs] \<and>
     unlisted t [pd_swapCache (procDescList (usm s) proc) \<mapsto> cs, pd_swapList (procDescList (usm s) proc) \<mapsto> ls]"

text \<open>The state after a swap out that succeeds.\<close>

definition swapped_out :: "addr \<Rightarrow> swap_state \<Rightarrow> swap_state" where
  "swapped_out t s = (let v = to_swaps s t; u = usm s; d = procDescList u (ts_proc v); pg = pagesList u (ts_page v);
       h = list_add t (pd_swapCache d) (tlinks u) in
     s\<lparr>usm := u\<lparr>tlinks := list_add t (pd_swapList d) (list_del_between (lh_prev h t) (lh_next h t) h),
         pa_log := pa_log u @ [\<lparr>pa_fd = ts_proc v, pa_addr = ts_swapped_address v, pa_uaddr = swap_value v s, pa_opt = 5\<rparr>],
         glinks := list_add t swapList (glinks u), swappedMemory := swappedMemory u + SYS_PAGE_SIZE,
         links := list_add (pg_node pg) freeList (links u), usedMemory := usedMemory u - SYS_PAGE_SIZE\<rparr>,
       disk := (disk s)(sn_offset s (ts_snode v) := frames u (pg_data pg))\<rparr>)"

lemma swap_out_ok:
  assumes "io_ret (io \<lparr>pa_fd = ts_proc v, pa_addr = ts_swapped_address v, pa_uaddr = swap_value v s, pa_opt = 5\<rparr>) = 1"
    "v = to_swaps s t" "seek_ok f" "write_ok f" "\<not> ts_retaken v"
  shows "swap_out io f t s = (0, swapped_out t s)"
proof -
  have "swap_value v (upd_tlinks g s) = swap_value v s" for g by (simp add: swap_value_def)
  then show ?thesis
    using assms by (simp add: swap_out_def swapped_out_def usm_clear_and_set_def usmAddProcSwapNode_def Let_def)
qed

lemma swapped_out_lists:
  assumes s: "swap_lists s proc cs ls gs ns" and t: "new_to_swap t s proc cs ls gs" "ts_proc (to_swaps s t) = proc"
  shows "swap_lists (swapped_out t s) proc cs (t # ls) (t # gs) ns"
proof -
  let ?d = "procDescList (usm s) proc"
  let ?c = "pd_swapCache ?d" and ?l = "pd_swapList ?d" and ?h = "list_add t (pd_swapCache ?d) (tlinks (usm s))"
  let ?L = "[?c \<mapsto> cs, ?l \<mapsto> ls]"
  have ne: "?c \<noteq> ?l" and L: "heap_lists (tlinks (usm s)) ?L" and g: "heap_lists (glinks (usm s)) [swapList \<mapsto> gs]"
    and n: "heap_lists (slinks (usm s)) [dev_free_list \<mapsto> ns]" using s by (auto simp: swap_lists_def)
  have u: "unlisted t ?L" "unlisted t [swapList \<mapsto> gs]" using t by (auto simp: new_to_swap_def)
  have c: "heap_lists ?h (?L(?c \<mapsto> t # cs))" by (rule lists_add(1) [OF L _ u(1)]) (use ne in simp)
  have ct: "(?L(?c \<mapsto> t # cs)) ?c = Some ([] @ t # cs)" by simp
  note d = lists_del(3) [OF c ct]
  have "heap_lists (list_add t ?l (list_del_between (lh_prev ?h t) (lh_next ?h t) ?h)) ((?L(?c \<mapsto> t # cs, ?c \<mapsto> [] @ cs))(?l \<mapsto> t # ls))"
    by (rule lists_add(1) [OF d _ unlisted_del [OF c ct]]) (use ne in simp)
  then have "heap_lists (list_add t ?l (list_del_between (lh_prev ?h t) (lh_next ?h t) ?h)) [?c \<mapsto> cs, ?l \<mapsto> t # ls]"
    by (rule lists_eq) (use ne in simp)
  moreover have "heap_lists (list_add t swapList (glinks (usm s))) [swapList \<mapsto> t # gs]"
    by (rule lists_eq [OF lists_add(1) [OF g _ u(2)]]) simp_all
  ultimately show ?thesis
    using ne n t(2) unfolding swap_lists_def swapped_out_def Let_def by (simp only: swap_state.simps usm_state.simps) simp
qed


lemma getSwapNode_ok:
  assumes "heap_lists (slinks (usm s)) [dev_free_list \<mapsto> n # ns]"
  shows "getSwapNode s = (Some n, upd_slinks (list_del n) s)" "heap_lists (list_del n (slinks (usm s))) [dev_free_list \<mapsto> ns]"
proof -
  let ?L = "[dev_free_list \<mapsto> n # ns]"
  have L: "?L dev_free_list = Some ([] @ n # ns)" by simp
  have "\<not> list_empty dev_free_list (slinks (usm s))" using lists_empty_iff [OF assms, of dev_free_list "n # ns"] by simp
  moreover have "lh_next (slinks (usm s)) dev_free_list = n"
    using lists_first [OF assms, of dev_free_list n ns] by (simp add: list_first_entry_def)
  ultimately show "getSwapNode s = (Some n, upd_slinks (list_del n) s)" by (simp add: getSwapNode_def)
  show "heap_lists (list_del n (slinks (usm s))) [dev_free_list \<mapsto> ns]"
    by (rule lists_eq [OF lists_del(1) [OF assms L]]) simp
qed

text \<open>The victim of an eviction: the state in which it is handed to \<open>swap_out\<close>.\<close>

definition victim_state :: "addr \<Rightarrow> addr \<Rightarrow> addr \<Rightarrow> swap_state \<Rightarrow> swap_state" where
  "victim_state x n t s = (let u = usm s; pg = node_page u x in
     s\<lparr>usm := u\<lparr>links := list_del_init x (links u), slinks := list_del n (slinks u)\<rparr>,
       to_swaps := (to_swaps s)(t := (to_swaps s t)\<lparr>ts_page := pg, ts_proc := pg_process (pagesList u pg),
         ts_swapped_address := pg_virtualAddress (pagesList u pg), ts_snode := n\<rparr>),
       sn_holder := (sn_holder s)(n := t)\<rparr>)"

lemma victim_sel:
  "procDescList (usm (victim_state x n t s)) = procDescList (usm s)" "tlinks (usm (victim_state x n t s)) = tlinks (usm s)"
  "glinks (usm (victim_state x n t s)) = glinks (usm s)" "slinks (usm (victim_state x n t s)) = list_del n (slinks (usm s))"
  by (simp_all add: victim_state_def Let_def)

lemma pool_hold:
  assumes p: "pool u fs (x # us)"
  shows "heap_lists (list_del_init x (links u)) [freeList \<mapsto> fs, usedList \<mapsto> us]"
    "unlisted x [freeList \<mapsto> fs, usedList \<mapsto> us]"
    "list_first_entry usedList (links u) = x" "\<not> list_empty usedList (links u)"
proof -
  let ?L = "[freeList \<mapsto> fs, usedList \<mapsto> x # us]"
  note L = poolD(1) [OF p]
  have f: "?L usedList = Some ([] @ x # us)" by simp
  have e: "?L(usedList \<mapsto> [] @ us) = [freeList \<mapsto> fs, usedList \<mapsto> us]" by (simp add: fun_eq_iff)
  show "heap_lists (list_del_init x (links u)) [freeList \<mapsto> fs, usedList \<mapsto> us]" using lists_del(2) [OF L f] unfolding e .
  show "unlisted x [freeList \<mapsto> fs, usedList \<mapsto> us]" using unlisted_del [OF L f] unfolding e .
  show "list_first_entry usedList (links u) = x" by (rule lists_first [OF L]) simp
  show "\<not> list_empty usedList (links u)" using lists_empty_iff [OF L, of usedList "x # us"] by simp
qed

lemma handle_evict_request_ok:
  assumes p: "pool (usm s) fs (x # us)" and n: "heap_lists (slinks (usm s)) [dev_free_list \<mapsto> n # ns]"
    and alive: "\<not> usmCheckPageAlive (node_page (usm s) x) (usm s)" and r: "\<not> ts_retaken (to_swaps s t)"
    and io: "\<And>q. pa_opt q = 5 \<Longrightarrow> io_ret (io q) = 1" and f: "seek_ok f" "write_ok f"
  shows "handle_evict_request io f t ev s = Some (swapped_out t (victim_state x n t s))"
proof -
  have n': "heap_lists (slinks (usm (upd_usm (hold_used_page_commit x) s))) [dev_free_list \<mapsto> n # ns]"
    using n by (simp add: hold_used_page_commit_def)
  have "usmCheckPageAlive pg (hold_used_page_commit x u) = usmCheckPageAlive pg u" for pg u
    by (simp add: usmCheckPageAlive_def hold_used_page_commit_def)
  then have e: "handle_evict_request io f t ev s = Some (snd (swap_out io f t (victim_state x n t s)))"
    using pool_hold(3,4) [OF p] getSwapNode_ok(1) [OF n'] alive
    by (simp add: handle_evict_request_def victim_state_def Let_def hold_used_page_commit_def)
  have "swap_out io f t (victim_state x n t s) = (0, swapped_out t (victim_state x n t s))"
    by (rule swap_out_ok [OF io refl f]) (use r in \<open>simp_all add: victim_state_def Let_def\<close>)
  then show ?thesis using e by simp
qed

lemma evicted_pool:
  assumes p: "pool (usm s) fs (x # us)"
  shows "pool (usm (swapped_out t (victim_state x n t s))) (x # fs) us"
proof -
  let ?s = "swapped_out t (victim_state x n t s)"
  have x: "pg_node (pagesList (usm s) (node_page (usm s) x)) = x" using pool_node(2) [OF p, of x] by (simp add: page_of_def)
  have "heap_lists (list_add x freeList (list_del_init x (links (usm s)))) [freeList \<mapsto> x # fs, usedList \<mapsto> us]"
    by (rule lists_eq [OF lists_add(1) [OF pool_hold(1) [OF p] _ pool_hold(2) [OF p], of freeList fs]]) simp_all
  moreover have "links (usm ?s) = list_add x freeList (list_del_init x (links (usm s)))"
    using x by (simp add: swapped_out_def victim_state_def Let_def)
  ultimately have h: "heap_lists (links (usm ?s)) [freeList \<mapsto> x # fs, usedList \<mapsto> us]" by (simp only:)
  show ?thesis by (rule pool_cong [OF h poolD(2) [OF p]]) (auto simp: swapped_out_def victim_state_def Let_def)
qed

text \<open>The eviction that makes room for a failed allocation, when a swap node is left, the
  owner of the oldest used page lives and the kernel and the file comply: the page is
  written to the file at the offset of the node, its task loses it in exchange for
  the entry of the node, and the page is the first free page; it is no longer counted
  as used but as swapped, and the entry leads back to it.  (The new \<open>to_swap\<close> must
  happen to have \<open>retaken\<close> cleared: the code does not initialise it.)\<close>

theorem handle_evict_request_correct:
  assumes p: "pool (usm s) fs (x # us)" and l: "swap_lists s proc cs ls gs (n # ns)" "pg_process (page_of x (usm s)) = proc"
    and t: "new_to_swap t s proc cs ls gs" "\<not> ts_retaken (to_swaps s t)"
    and alive: "\<not> usmCheckPageAlive (node_page (usm s) x) (usm s)"
    and io: "\<And>q. pa_opt q = 5 \<Longrightarrow> io_ret (io q) = 1" and f: "seek_ok f" "write_ok f"
  shows "\<exists>s'. handle_evict_request io f t ev s = Some s' \<and> pool (usm s') (x # fs) us \<and>
    swap_lists s' proc cs (t # ls) (t # gs) ns \<and> sn_holder s' n = t \<and> ts_snode (to_swaps s' t) = n \<and>
    ts_swapped_address (to_swaps s' t) = pg_virtualAddress (page_of x (usm s)) \<and> ts_proc (to_swaps s' t) = proc \<and>
    disk s' = (disk s)(sn_offset s n := frames (usm s) (pg_data (page_of x (usm s)))) \<and>
    usedMemory (usm s') = usedMemory (usm s) - SYS_PAGE_SIZE \<and> swappedMemory (usm s') = swappedMemory (usm s) + SYS_PAGE_SIZE \<and>
    last (pa_log (usm s')) = \<lparr>pa_fd = proc, pa_addr = pg_virtualAddress (page_of x (usm s)),
      pa_uaddr = swap_value (to_swaps s' t) s', pa_opt = 5\<rparr>"
proof -
  let ?v = "victim_state x n t s"
  let ?s = "swapped_out t ?v"
  have n: "heap_lists (slinks (usm s)) [dev_free_list \<mapsto> n # ns]" using l(1) by (simp add: swap_lists_def)
  have r: "handle_evict_request io f t ev s = Some ?s" by (rule handle_evict_request_ok [OF p n alive t(2) io f])
  have "swap_lists ?v proc cs ls gs ns"
    using l(1) getSwapNode_ok(2) [OF n] unfolding swap_lists_def by (simp only: victim_sel simp_thms)
  moreover have "new_to_swap t ?v proc cs ls gs" using t(1) unfolding new_to_swap_def by (simp only: victim_sel simp_thms)
  moreover have "ts_proc (to_swaps ?v t) = proc" using l(2) by (simp add: victim_state_def Let_def page_of_def)
  ultimately have L: "swap_lists ?s proc cs (t # ls) (t # gs) ns" by (rule swapped_out_lists)
  have "pool (usm ?s) (x # fs) us" by (rule evicted_pool [OF p])
  moreover have "swap_value (to_swaps ?s t) ?s = swap_value (to_swaps ?v t) ?v" by (simp add: swap_value_def swapped_out_def Let_def)
  ultimately show ?thesis using r L l(2) by (intro exI [of _ ?s]) (simp add: swapped_out_def victim_state_def Let_def page_of_def)
qed


text \<open>The state after reading a swapped page into the first free page \<open>y\<close>, with \<open>h\<close> the links
  after taking it.\<close>

definition read_back :: "addr \<Rightarrow> addr \<Rightarrow> lheap \<Rightarrow> swap_state \<Rightarrow> swap_state" where
  "read_back y t h s = (let u = usm s in
     s\<lparr>usm := u\<lparr>links := h, usedMemory := usedMemory u + SYS_PAGE_SIZE,
         frames := (frames u)(pg_data (page_of y u) := disk s (sn_offset s (ts_snode (to_swaps s t))))\<rparr>,
       to_swaps := (to_swaps s)(t := (to_swaps s t)\<lparr>ts_page := node_page u y\<rparr>)\<rparr>)"

lemma swap_in_ok:
  assumes p: "pool (usm s) (y # fs) us" "unlisted ph [freeList \<mapsto> y # fs, usedList \<mapsto> us]" and f: "seek_ok f" "read_ok f"
  obtains h where "swap_in f ph t s = Some (0, read_back y t h s)"
    "heap_lists h [freeList \<mapsto> fs, usedList \<mapsto> us, ph \<mapsto> [y]]"
proof -
  let ?u = "usm s"
  let ?L = "[freeList \<mapsto> y # fs, usedList \<mapsto> us, ph \<mapsto> []]" and ?i = "upd_links (INIT_LIST_HEAD ph) (usm s)"
  note I = lists_two_init [OF p]
  have L: "?L freeList = Some (y # fs)" "?L ph = Some []" using I(2,3) by simp_all
  obtain h where pl: "pick_loop ph 1 ?i = (1 - length (y # fs), ?i\<lparr>links := h, usedMemory := usedMemory ?i + SYS_PAGE_SIZE * of_nat (min 1 (length (y # fs)))\<rparr>)"
    and h: "heap_lists h (?L(freeList \<mapsto> drop 1 (y # fs), ph \<mapsto> rev (take 1 (y # fs)) @ []))" using pick_loop_spec [OF I(1) L I(2), of 1] by blast
  have h': "heap_lists h [freeList \<mapsto> fs, usedList \<mapsto> us, ph \<mapsto> [y]]" by (rule lists_eq [OF h]) (use I(2,3) in simp)
  have g: "pick_pages ph 1 ?i = (1, ?u\<lparr>links := h, usedMemory := usedMemory ?u + SYS_PAGE_SIZE\<rparr>)"
    using pl by (simp add: pick_pages_def)
  have y: "list_first_entry ph h = y" by (rule lists_first [OF h']) simp
  have "pg_node (pagesList ?u (node_page ?u y)) = y" using pool_node(2) [OF p(1), of y] by (simp add: page_of_def)
  then have n: "(pagesList ?u)(node_page ?u y := pagesList ?u (node_page ?u y)\<lparr>pg_node := y\<rparr>) = pagesList ?u" by (auto simp: fun_eq_iff)
  have "swap_in f ph t s = Some (0, read_back y t h s)"
    using f g y n by (simp add: swap_in_def read_back_def usmSetUsedListNode_def page_of_def Let_def)
  then show ?thesis using that h' by blast
qed

text \<open>The page \<open>y\<close> in use again.\<close>

definition resumed :: "addr \<Rightarrow> addr \<Rightarrow> lheap \<Rightarrow> mem \<Rightarrow> swap_state \<Rightarrow> swap_state" where
  "resumed y t h m s = (let v = to_swaps s t; r = read_back y t h s; u = usm r in
     r\<lparr>usm := u\<lparr>umem := m, links := list_add y usedList h,
       pagesList := (pagesList u)(node_page u y := (page_of y u)\<lparr>pg_process := ts_proc v, pg_virtualAddress := ts_swapped_address v\<rparr>),
       slinks := list_add_tail (ts_snode v) dev_free_list (slinks u)\<rparr>\<rparr>)"

lemma read_back_sel:
  "pagesList (usm (read_back y t h s)) = pagesList (usm s)" "node_page (usm (read_back y t h s)) = node_page (usm s)"
  "umem (usm (read_back y t h s)) = umem (usm s)"
  "to_swaps (read_back y t h s) t = (to_swaps s t)\<lparr>ts_page := node_page (usm s) y\<rparr>"
  by (simp_all add: read_back_def Let_def)

lemma basic_swap_ok:
  assumes p: "pool (usm s) (y # fs) us" "unlisted ph [freeList \<mapsto> y # fs, usedList \<mapsto> us]" and f: "seek_ok f" "read_ok f"
    and e: "event_to_swap_entry ev s = t" "t \<noteq> 0"
    and a: "usmSubmitAllocEvent env (umem (usm s)) (ev\<lparr>ev_paddr := pfn_of (usm s) y\<rparr>) = Some (0, m, ev')"
  obtains h where "basic_swap env f ph ev s = Some (0, ev', resumed y t h m s)"
    "heap_lists h [freeList \<mapsto> fs, usedList \<mapsto> us]" "unlisted y [freeList \<mapsto> fs, usedList \<mapsto> us]"
proof -
  obtain h where i: "swap_in f ph t s = Some (0, read_back y t h s)"
    and h: "heap_lists h [freeList \<mapsto> fs, usedList \<mapsto> us, ph \<mapsto> [y]]" by (rule swap_in_ok [OF p f])
  have ph: "ph \<noteq> freeList" "ph \<noteq> usedList" by (rule lists_two_init(2,3) [OF p])+
  have h': "heap_lists h [freeList \<mapsto> fs, usedList \<mapsto> us]" by (rule lists_sub [OF h]) (use ph in \<open>auto simp: map_le_def\<close>)
  have "distinct (freeList # y # fs)" "set (freeList # y # fs) \<inter> set (usedList # us) = {}"
    using lists_distinct [OF poolD(1) [OF p(1)], of freeList] lists_disjoint [OF poolD(1) [OF p(1)], of freeList "y # fs" usedList us] by simp_all
  then have u: "unlisted y [freeList \<mapsto> fs, usedList \<mapsto> us]" by (auto simp: unlisted_def split: if_splits)
  have y: "pg_node (pagesList (usm s) (node_page (usm s) y)) = y" using pool_node(2) [OF p(1), of y] by (simp add: page_of_def)
  have "links (usm (read_back y t h s)) = h" by (simp add: read_back_def Let_def)
  then have "basic_swap env f ph ev s = Some (0, ev', resumed y t h m s)"
    using i e a y unfolding basic_swap_def
    by (simp add: Let_def read_back_sel resumed_def pfn_of_def page_of_def give_back_page_used_def putSwapNode_def)
  then show ?thesis using that h' u by blast
qed

lemma resumed_pool:
  assumes p: "pool (usm s) (y # fs) us" and h: "heap_lists h [freeList \<mapsto> fs, usedList \<mapsto> us]" "unlisted y [freeList \<mapsto> fs, usedList \<mapsto> us]"
  shows "pool (usm (resumed y t h m s)) fs (y # us)"
proof -
  have "heap_lists (list_add y usedList h) [freeList \<mapsto> fs, usedList \<mapsto> y # us]"
    by (rule lists_eq [OF lists_add(1) [OF h(1) _ h(2), of usedList us]]) simp_all
  moreover have "links (usm (resumed y t h m s)) = list_add y usedList h" by (simp add: resumed_def Let_def)
  ultimately have L: "heap_lists (links (usm (resumed y t h m s))) [freeList \<mapsto> fs, usedList \<mapsto> y # us]" by (simp only:)
  show ?thesis
    by (rule pool_cong [OF L poolD(2) [OF p]]) (auto simp: resumed_def read_back_def Let_def page_of_def)
qed



section \<open>What goes wrong\<close>

text \<open>When the task faults on a page while it is being written out (and gets it back from
  the swap cache), the swap out gives its node back and returns 0, but it leaves the
  page where it was, in neither list: the page is in use without being in the list of
  used pages, so that it can never be evicted again.\<close>

theorem swap_out_retaken:
  assumes l: "swap_lists s (ts_proc v) cs ls gs ns" and t: "new_to_swap t s (ts_proc v) cs ls gs" "v = to_swaps s t" "ts_retaken v"
    and n: "unlisted (ts_snode v) [dev_free_list \<mapsto> ns]"
    and io: "\<And>q. pa_opt q = 5 \<Longrightarrow> io_ret (io q) = 1" and f: "seek_ok f" "write_ok f"
    and p: "heap_lists (links (usm s)) [freeList \<mapsto> fs, usedList \<mapsto> us]" "unlisted (pg_node (pagesList (usm s) (ts_page v))) [freeList \<mapsto> fs, usedList \<mapsto> us]"
  shows "\<exists>s'. swap_out io f t s = (0, s') \<and> swap_lists s' (ts_proc v) cs ls gs (ns @ [ts_snode v]) \<and>
    heap_lists (links (usm s')) [freeList \<mapsto> fs, usedList \<mapsto> us] \<and>
    unlisted (pg_node (pagesList (usm s') (ts_page v))) [freeList \<mapsto> fs, usedList \<mapsto> us] \<and>
    usedMemory (usm s') = usedMemory (usm s)"
proof -
  let ?d = "procDescList (usm s) (ts_proc v)"
  let ?c = "pd_swapCache ?d" and ?l = "pd_swapList ?d" and ?h = "list_add t (pd_swapCache ?d) (tlinks (usm s))"
  let ?L = "[?c \<mapsto> cs, ?l \<mapsto> ls]"
  let ?T = "list_del_between (lh_prev ?h t) (lh_next ?h t) ?h" and ?S = "list_add_tail (ts_snode v) dev_free_list (slinks (usm s))"
  let ?q = "\<lparr>pa_fd = ts_proc v, pa_addr = ts_swapped_address v, pa_uaddr = swap_value v s, pa_opt = 5\<rparr>"
  let ?s = "s\<lparr>usm := (usm s)\<lparr>tlinks := ?T, pa_log := pa_log (usm s) @ [?q], slinks := ?S\<rparr>,
      disk := (disk s)(sn_offset s (ts_snode v) := frames (usm s) (pg_data (pagesList (usm s) (ts_page v))))\<rparr>"
  have sv: "swap_value v (upd_tlinks g s) = swap_value v s" for g by (simp add: swap_value_def)
  have "io_ret (io ?q) = 1" using io by simp
  then have r: "swap_out io f t s = (0, ?s)"
    using t(2,3) f sv by (simp add: swap_out_def usm_clear_and_set_def putSwapNode_def Let_def)
  have ne: "?c \<noteq> ?l" and L: "heap_lists (tlinks (usm s)) ?L" and g: "heap_lists (glinks (usm s)) [swapList \<mapsto> gs]"
    and N: "heap_lists (slinks (usm s)) [dev_free_list \<mapsto> ns]" using l by (auto simp: swap_lists_def)
  have u: "unlisted t ?L" using t by (auto simp: new_to_swap_def)
  have c: "heap_lists ?h (?L(?c \<mapsto> t # cs))" by (rule lists_add(1) [OF L _ u]) (use ne in simp)
  have "(?L(?c \<mapsto> t # cs)) ?c = Some ([] @ t # cs)" by simp
  from lists_del(3) [OF c this] have "heap_lists ?T ?L" by (rule lists_eq) (use ne in simp)
  moreover have "heap_lists ?S [dev_free_list \<mapsto> ns @ [ts_snode v]]"
    by (rule lists_eq [OF lists_add(2) [OF N _ n]]) simp_all
  moreover have "procDescList (usm ?s) = procDescList (usm s)" "tlinks (usm ?s) = ?T" "glinks (usm ?s) = glinks (usm s)" "slinks (usm ?s) = ?S"
    "links (usm ?s) = links (usm s)" "pagesList (usm ?s) = pagesList (usm s)" "usedMemory (usm ?s) = usedMemory (usm s)" by simp_all
  ultimately show ?thesis
    unfolding swap_lists_def using r ne g p by (intro exI [of _ ?s]) (simp only: simp_thms)
qed

text \<open>The two nodes of a circular list of two can trade places.\<close>

lemma heap_lists_turn:
  assumes L: "heap_lists h (L(p \<mapsto> [y]))" "L p = None"
  shows "heap_lists h (L(y \<mapsto> [p]))" "L y = None"
proof -
  have y: "is_list h p [y]" by (rule listsD [OF L(1)]) simp
  then have yp: "is_list h y [p]" "y \<noteq> p" by (auto simp: is_list_def linked_def)
  have d: "set [p, y] \<inter> set (q # qs) = {}" if "L q = Some qs" for q qs
    using lists_disjoint [OF L(1), of p "[y]" q qs] that L(2) by (cases "q = p") auto
  show n: "L y = None" using d [of y] by (cases "L y") auto
  have o: "heap_lists h L" by (rule lists_sub [OF L(1)]) (use L(2) in \<open>auto simp: map_le_def\<close>)
  show "heap_lists h (L(y \<mapsto> [p]))"
    by (rule lists_update [OF o yp(1)]) (use d in \<open>auto simp: same_links_def\<close>)
qed

text \<open>C17: when the task refuses the page of a swap in, the policy returns 1 and gives back the
  wrong node: it passes the page's own node as the head of the list to give back,
  so what ends up at the end of the free list is the head \<open>ph\<close> on the stack of the
  finished \<open>swap_in\<close>, and the page is in no list any more.\<close>

theorem basic_swap_refused:
  assumes p: "pool (usm s) (y # fs) us" "unlisted ph [freeList \<mapsto> y # fs, usedList \<mapsto> us]" and f: "seek_ok f" "read_ok f"
    and e: "event_to_swap_entry ev s = t" "t \<noteq> 0"
    and a: "usmSubmitAllocEvent env (umem (usm s)) (ev\<lparr>ev_paddr := pfn_of (usm s) y\<rparr>) = Some (ret, m, ev')" "ret \<noteq> 0"
  shows "\<exists>s'. basic_swap env f ph ev s = Some (1, ev', s') \<and>
    heap_lists (links (usm s')) [freeList \<mapsto> fs @ [ph], usedList \<mapsto> us] \<and>
    unlisted y [freeList \<mapsto> fs @ [ph], usedList \<mapsto> us] \<and> usedMemory (usm s') = usedMemory (usm s)"
proof -
  let ?L = "[freeList \<mapsto> fs, usedList \<mapsto> us]"
  obtain h where i: "swap_in f ph t s = Some (0, read_back y t h s)" and h: "heap_lists h (?L(ph \<mapsto> [y]))" by (rule swap_in_ok [OF p f])
  have ph: "ph \<noteq> freeList" "ph \<noteq> usedList" by (rule lists_two_init(2,3) [OF p])+
  then have "?L ph = None" by simp
  note T = heap_lists_turn [OF h this]
  have yn: "y \<noteq> freeList" "y \<noteq> usedList" using T(2) by (auto split: if_splits)
  let ?r = "read_back y t h s"
  let ?u = "(usm ?r)\<lparr>umem := m\<rparr>"
  have "links ?u = h" by (simp add: read_back_def Let_def)
  then have L: "heap_lists (links ?u) (?L(y \<mapsto> [ph]))" using T(1) by (simp only:)
  have g: "(?L(y \<mapsto> [ph])) y = Some [ph]" "(?L(y \<mapsto> [ph])) freeList = Some fs" using yn by simp_all
  obtain k where b: "give_back_pages y ?u = Some (?u\<lparr>links := k, usedMemory := usedMemory ?u - SYS_PAGE_SIZE * of_nat (length [ph])\<rparr>)"
    and k: "heap_lists k ((?L(y \<mapsto> [ph]))(y \<mapsto> [], freeList \<mapsto> fs @ [ph]))" by (rule give_back_pages_spec [OF L g yn(1)])
  have k': "heap_lists k [freeList \<mapsto> fs @ [ph], usedList \<mapsto> us]"
    by (rule lists_sub [OF k]) (use yn in \<open>auto simp: map_le_def\<close>)
  have dj: "set [y] \<inter> set (q # qs) = {}" if "((?L(y \<mapsto> [ph]))(y \<mapsto> [], freeList \<mapsto> fs @ [ph])) q = Some qs" "q \<noteq> y" for q qs
    using lists_disjoint [OF k, of y "[]" q qs] that yn by simp
  have u: "unlisted y [freeList \<mapsto> fs @ [ph], usedList \<mapsto> us]"
    using dj [of freeList "fs @ [ph]"] dj [of usedList us] yn by (auto simp: unlisted_def split: if_splits)
  have y: "pg_node (pagesList (usm s) (node_page (usm s) y)) = y" using pool_node(2) [OF p(1), of y] by (simp add: page_of_def)
  let ?s = "upd_glinks (list_add t swapList) (?r\<lparr>usm := ?u\<lparr>links := k, usedMemory := usedMemory ?u - SYS_PAGE_SIZE * of_nat (length [ph])\<rparr>\<rparr>)"
  have "basic_swap env f ph ev s = Some (1, ev', ?s)"
    using i e a y b unfolding basic_swap_def by (simp add: Let_def read_back_sel pfn_of_def page_of_def)
  moreover have "links (usm ?s) = k" "usedMemory (usm ?s) = usedMemory (usm s)" by (simp_all add: read_back_def Let_def)
  ultimately show ?thesis using k' u by (intro exI [of _ ?s]) (simp only: simp_thms)
qed


section \<open>Witnesses\<close>

definition swap_of :: "usm_state \<Rightarrow> swap_state" where
  "swap_of u = \<lparr>usm = u\<lparr>slinks := list_add 4096 dev_free_list links0\<rparr>,
     to_swaps = (\<lambda>_. \<lparr>ts_page = 0, ts_swapped_address = 0, ts_snode = 0, ts_proc = 0, ts_retaken = False\<rparr>),
     sn_offset = (\<lambda>_. 0), sn_holder = (\<lambda>_. 0), swap_nodes = 4096, disk = (\<lambda>_. [])\<rparr>"

definition io_works :: "uffdio_palloc \<Rightarrow> ioctl_result" where
  "io_works q = \<lparr>io_ret = 1, io_errno = 0, io_uaddr = 0\<rparr>"

definition file_works :: file_io where
  "file_works = \<lparr>seek_ok = True, write_ok = True, read_ok = True\<rparr>"

lemma swap_of_lists:
  assumes "tlinks u = links0" "glinks u = links0" "procDescList u = procDescList state0"
  shows "swap_lists (swap_of u) proc [] [] [] [4096]" "new_to_swap 512 (swap_of u) proc [] [] []"
proof -
  have e: "heap_lists links0 [a \<mapsto> [], b \<mapsto> []]" "heap_lists links0 [a \<mapsto> []]" for a b
    using links0_empty by (auto simp: heap_lists_def split: if_splits)
  have "heap_lists (list_add 4096 dev_free_list links0) ([dev_free_list \<mapsto> []](dev_free_list \<mapsto> [4096]))"
    by (rule lists_add(1) [OF e(2)]) (simp_all add: unlisted_def dev_free_list_def)
  then have n: "heap_lists (list_add 4096 dev_free_list links0) [dev_free_list \<mapsto> [4096]]" by simp
  have s: "tlinks (usm (swap_of u)) = links0" "glinks (usm (swap_of u)) = links0"
    "slinks (usm (swap_of u)) = list_add 4096 dev_free_list links0" "procDescList (usm (swap_of u)) = procDescList state0"
    using assms by (simp_all add: swap_of_def)
  show "swap_lists (swap_of u) proc [] [] [] [4096]"
    using e n unfolding swap_lists_def s by (simp add: state0_def)
  show "new_to_swap 512 (swap_of u) proc [] [] []"
    unfolding new_to_swap_def s by (auto simp: unlisted_def state0_def swapList_def split: if_splits)
qed

lemma swap_of_pool: "pool (usm (swap_of u)) fs us = pool u fs us"
  by (simp add: swap_of_def pool_def nodes_ok_def page_of_def)

lemma swap_of_alive: "procDescList u = procDescList state0 \<Longrightarrow> \<not> usmCheckPageAlive pg (usm (swap_of u))"
  by (simp add: swap_of_def usmCheckPageAlive_def state0_def)

lemma works:
  "io_ret (io_works q) = 1" "seek_ok file_works" "write_ok file_works" "read_ok file_works"
  by (simp_all add: io_works_def file_works_def)

theorem handle_evict_request_correct_witness:
  "\<exists>u s'. pool u [128] [64] \<and> handle_evict_request io_works file_works 512 ev0 (swap_of u) = Some s' \<and> pool (usm s') [64, 128] []"
proof -
  obtain e u where u: "pool u [128] [64]" "tlinks u = links0" "glinks u = links0" "procDescList u = procDescList state0" by (rule pool0_alloc)
  have p: "pool (usm (swap_of u)) [128] [64]" using u(1) by (simp only: swap_of_pool)
  have r: "\<not> ts_retaken (to_swaps (swap_of u) 512)" by (simp add: swap_of_def)
  show ?thesis
    using handle_evict_request_correct [where io = io_works, OF p swap_of_lists(1) [OF u(2-4)] refl swap_of_lists(2) [OF u(2-4)] r swap_of_alive [OF u(4)] works(1-3), of ev0] u(1)
    by blast
qed


theorem swap_out_retaken_witness:
  "\<exists>s v s'. swap_out io_works file_works 512 s = (0, s') \<and> ts_retaken v \<and> v = to_swaps s 512 \<and>
     unlisted (pg_node (pagesList (usm s') (ts_page v))) [freeList \<mapsto> [128], usedList \<mapsto> []]"
proof -
  obtain e u where u: "pool u [128] [64]" "tlinks u = links0" "glinks u = links0" "procDescList u = procDescList state0" by (rule pool0_alloc)
  let ?u = "u\<lparr>links := list_del_init 64 (links u)\<rparr>"
  let ?v = "\<lparr>ts_page = node_page u 64, ts_swapped_address = 0, ts_snode = 8192, ts_proc = 5, ts_retaken = True\<rparr>"
  let ?s = "(swap_of ?u)\<lparr>to_swaps := (\<lambda>_. ?v)\<rparr>"
  have l: "swap_lists (swap_of ?u) (ts_proc ?v) [] [] [] [4096]" "new_to_swap 512 (swap_of ?u) (ts_proc ?v) [] [] []"
    by (rule swap_of_lists; simp add: u(2-4))+
  have L: "swap_lists ?s (ts_proc ?v) [] [] [] [4096]" "new_to_swap 512 ?s (ts_proc ?v) [] [] []"
    using l unfolding swap_lists_def new_to_swap_def by simp_all
  have x: "pg_node (pagesList u (node_page u 64)) = 64" using pool_node(2) [OF u(1), of 64] by (simp add: page_of_def)
  have "links (usm ?s) = list_del_init 64 (links u)" "pg_node (pagesList (usm ?s) (ts_page ?v)) = 64"
    using x by (simp_all add: swap_of_def)
  then have P: "heap_lists (links (usm ?s)) [freeList \<mapsto> [128], usedList \<mapsto> []]"
      "unlisted (pg_node (pagesList (usm ?s) (ts_page ?v))) [freeList \<mapsto> [128], usedList \<mapsto> []]"
    using pool_hold(1,2) [OF u(1)] by (simp_all only:)
  have n: "unlisted (ts_snode ?v) [dev_free_list \<mapsto> [4096]]" by (simp add: unlisted_def dev_free_list_def)
  have v: "?v = to_swaps ?s 512" "ts_retaken ?v" by simp_all
  show ?thesis using swap_out_retaken [where io = io_works, OF L v n works(1-3) P] v by blast
qed

theorem basic_swap_refused_witness:
  "\<exists>e s'. basic_swap refuse file_works 256 ev0 ((swap_of pool0)\<lparr>sn_holder := (\<lambda>_. 512)\<rparr>) = Some (1, e, s') \<and>
     heap_lists (links (usm s')) [freeList \<mapsto> [128, 256], usedList \<mapsto> []]"
proof -
  let ?s = "(swap_of pool0)\<lparr>sn_holder := (\<lambda>_. 512)\<rparr>"
  have p: "pool (usm ?s) [64, 128] []" using pool0_pool swap_of_pool [of pool0] by simp
  obtain ret m e where a: "usmSubmitAllocEvent refuse (umem (usm ?s)) (ev0\<lparr>ev_paddr := pfn_of (usm ?s) 64\<rparr>) = Some (ret, m, e)" "ret \<noteq> 0"
    using refuse_answers [of "ev0\<lparr>ev_paddr := pfn_of (usm ?s) 64\<rparr>" "umem (usm ?s)"] by (auto simp: ev0_def)
  have t: "event_to_swap_entry ev0 ?s = 512" by (simp add: event_to_swap_entry_def)
  have "[128] @ [256 :: addr] = [128, 256]" by simp
  then show ?thesis using basic_swap_refused [OF p pool0_unlisted works(2,4) t _ a] by fastforce
qed

end
