(* ===== verification/Events.thy ===== *)
theory Events
  imports Swap_Policy
begin

text \<open>
  The event handler \<open>usm_handle_events\<close> of \<open>impl/com/event.c\<close> in the build with memory
  channels and user threads, the calls through a process's policies
  (\<open>include/usm/usm.h\<close>) and the channels that \<open>impl/usm/usm.c\<close> creates for new processes
  and threads.  A call through a policy pointer is a choice between the policies the
  modules define; a pointer to anything else, a NULL pointer that the code reads
  through and an index outside an array are \<open>None\<close>, as is a task that never answers.
  What the handler takes from its surroundings (the answers of tasks and kernel, the
  addresses it gets from \<open>malloc\<close> and \<open>mmap\<close>) is a record of parameters.
\<close>

section \<open>Channels and workers\<close>

datatype usm_channel_type = FD_BASED | RAM_BASED | HYBRID

text \<open>The operation tables of \<open>com.c\<close> and the handlers a channel can have.\<close>

datatype usm_channel_ops = usm_cnl_userfaultfd_ops | usm_cnl_special_ops | usm_cnl_emul_ops | usm_cnl_mem_ops
  | usm_cnl_freed_ops | usm_cnl_new_process_ops

datatype channel_handler = Handle_null | Handle_mem | Handle_mem_special

record usm_channel =
  cnl_id :: u32
  cnl_fd :: u32
  cnl_type :: usm_channel_type
  cnl_ops :: usm_channel_ops
  cnl_event :: usm_event
  cnl_handle_evt :: channel_handler

record usm_worker =
  wk_id :: u32
  wk_channels :: "nat \<Rightarrow> usm_channel"
  wk_com :: u64

definition MAX_UTHREADS :: nat where "MAX_UTHREADS = 4 * 8"

text \<open>The daemon: pages and swap device, the memory workers, the channels whose own thread
  runs \<open>usm_handle_fd\<close>, the \<open>ioctl_fd\<close> of every user thread and the pages that were
  unmapped.\<close>

record daemon =
  sw :: swap_state
  usmMemWorkers :: "usm_worker list"
  majordomos :: "usm_channel list"
  ioctl_fd :: "u32 \<Rightarrow> nat \<Rightarrow> int"
  unmapped :: "u64 list"

abbreviation upd_sw :: "(usm_state \<Rightarrow> usm_state) \<Rightarrow> daemon \<Rightarrow> daemon" where
  "upd_sw f d \<equiv> d\<lparr>sw := upd_usm f (sw d)\<rparr>"

abbreviation channel :: "daemon \<Rightarrow> nat \<Rightarrow> nat \<Rightarrow> usm_channel" where
  "channel d w i \<equiv> wk_channels (usmMemWorkers d ! w) i"

definition upd_channel :: "nat \<Rightarrow> nat \<Rightarrow> (usm_channel \<Rightarrow> usm_channel) \<Rightarrow> daemon \<Rightarrow> daemon" where
  "upd_channel w i f d = d\<lparr>usmMemWorkers := (usmMemWorkers d)[w :=
     (usmMemWorkers d ! w)\<lparr>wk_channels := (wk_channels (usmMemWorkers d ! w))(i := f (channel d w i))\<rparr>]\<rparr>"

lemma upd_channel_sel [simp]:
  "sw (upd_channel w i f d) = sw d" "majordomos (upd_channel w i f d) = majordomos d" "ioctl_fd (upd_channel w i f d) = ioctl_fd d"
  "unmapped (upd_channel w i f d) = unmapped d" "length (usmMemWorkers (upd_channel w i f d)) = length (usmMemWorkers d)"
  by (simp_all add: upd_channel_def)

lemma upd_channel_com [simp]: "wk_com (usmMemWorkers (upd_channel w i f d) ! k) = wk_com (usmMemWorkers d ! k)"
proof (cases "w < length (usmMemWorkers d)")
  case False
  then show ?thesis by (simp add: upd_channel_def list_update_beyond)
qed (simp add: upd_channel_def nth_list_update)

lemma channel_upd_channel:
  "w < length (usmMemWorkers d) \<Longrightarrow> channel (upd_channel w i f d) k j = (if k = w \<and> j = i then f (channel d w i) else channel d k j)"
  by (simp add: upd_channel_def nth_list_update)

lemma upd_channel_fuse:
  "w < length (usmMemWorkers d) \<Longrightarrow> upd_channel w i f (upd_channel w i g d) = upd_channel w i (\<lambda>c. f (g c)) d"
  by (simp add: upd_channel_def)

text \<open>What one event takes from outside: the behaviour of the task during the k-th
  submission, the k-th list head, the swap file, the answers of the kernel, the
  \<open>to_swap\<close> that \<open>malloc\<close> returns, the page that \<open>mmap\<close> returns (\<open>None\<close> for
  \<open>MAP_FAILED\<close>) and which allocations succeed,
  and what the memory of a new channel holds.\<close>

record evt_env =
  en_subm :: "nat \<Rightarrow> nat \<Rightarrow> mem \<Rightarrow> mem"
  en_head :: "nat \<Rightarrow> addr"
  en_file :: file_io
  en_io :: "uffdio_palloc \<Rightarrow> ioctl_result"
  en_to_swap :: addr
  en_mmap :: "u64 option"
  en_malloc :: "nat \<Rightarrow> bool"
  en_channel :: usm_channel

section \<open>Calls through the policies of a process\<close>

definition alloc_ops_of :: "u32 \<Rightarrow> usm_state \<Rightarrow> u64" where
  "alloc_ops_of p s =
    (let a = pd_alloc_policy (procDescList s p) in if a = DEFAULT_ALLOC_POLICY then default_alloc_policy (tables s) else a)"

definition swap_ops_of :: "u32 \<Rightarrow> usm_state \<Rightarrow> u64" where
  "swap_ops_of p s =
    (let a = pd_swap_policy (procDescList s p) in if a = DEFAULT_SWAP_POLICY then default_swap_policy (tables s) else a)"

definition usmPolicyDefinedAlloc :: "evt_env \<Rightarrow> nat \<Rightarrow> usm_event \<Rightarrow> usm_state \<Rightarrow> (u32 \<times> usm_event \<times> usm_state) option" where
  "usmPolicyDefinedAlloc e k ev s =
    (let ops = alloc_ops_of (ev_origin ev) s
     in if ops = alloc_policy_one then basic_alloc_uniq (en_subm e k) ev s
        else if ops = usm_basic_alloc_policy then basic_alloc (en_subm e k) (en_head e k) ev s
        else if ops = alloc_policy_double
             then double_alloc (en_subm e k) (en_subm e (k + 2)) (en_head e k) (en_head e (k + 2)) ev s
        else None)"

text \<open>The result of \<open>usmEventToPage\<close> is used without a check for NULL.\<close>

definition usmPolicyDefinedPageIndexFree :: "usm_event \<Rightarrow> usm_state \<Rightarrow> (nat \<times> usm_event \<times> usm_state) option" where
  "usmPolicyDefinedPageIndexFree ev s =
    (case usmEventToPage ev s of
       None \<Rightarrow> None
     | Some pg \<Rightarrow>
         if alloc_ops_of (pg_process (pagesList s pg)) s \<in> {alloc_policy_one, usm_basic_alloc_policy, alloc_policy_double}
         then pindex_free ev s else None)"

text \<open>Neither policy defines \<open>cond_swap_out\<close>.\<close>

definition usmPolicyDefinedSwapIn :: "evt_env \<Rightarrow> nat \<Rightarrow> usm_event \<Rightarrow> swap_state \<Rightarrow> (nat \<times> usm_event \<times> swap_state) option" where
  "usmPolicyDefinedSwapIn e k ev s = do {
     let ops = swap_ops_of (ev_origin ev) (usm s);
     (r, ev, s) \<leftarrow> (if ops = usm_basic_swap_policy then basic_swap (en_subm e k) (en_file e) (en_head e k) ev s
                   else if ops = swap_policy_one then double_swap (en_subm e k) (en_file e) (en_head e k) ev s
                   else None);
     (if r \<noteq> 0 then Some (1, ev, s) else Some (0, ev, s))
   }"

section \<open>New channels\<close>

definition uthread_create :: "u32 \<Rightarrow> nat \<Rightarrow> daemon \<Rightarrow> daemon" where
  "uthread_create vCPU_id uthread_id d = d\<lparr>ioctl_fd := (ioctl_fd d)(vCPU_id := (ioctl_fd d vCPU_id)(uthread_id := - 1))\<rparr>"

definition createUSMMemChannel :: "usm_channel_ops \<Rightarrow> u64 \<Rightarrow> nat \<Rightarrow> daemon \<Rightarrow> daemon option" where
  "createUSMMemChannel ops m w d =
    (let usmid = unat (rd32 (umem (usm (sw d))) m (4096 - 4))
     in if \<not> usmid < MAX_UTHREADS then None
        else
          let d = upd_channel w usmid (\<lambda>c. c\<lparr>cnl_ops := ops\<rparr>) d;
              d = upd_channel w usmid (\<lambda>c. c\<lparr>cnl_type := RAM_BASED\<rparr>) d;
              d = upd_channel w usmid (\<lambda>c. c\<lparr>cnl_event := (cnl_event c)\<lparr>ev_origin := rd32 (umem (usm (sw d))) m 0\<rparr>\<rparr>) d;
              d = upd_channel w usmid (\<lambda>c. c\<lparr>cnl_event := (cnl_event c)\<lparr>ev_type := ALLOC\<rparr>\<rparr>) d;
              toUnmap = ev_usmmem (cnl_event (channel d w usmid));
              d = upd_channel w usmid (\<lambda>c. c\<lparr>cnl_event := (cnl_event c)\<lparr>ev_usmmem := m\<rparr>\<rparr>) d;
              d = upd_channel w usmid (\<lambda>c. c\<lparr>cnl_handle_evt := Handle_mem\<rparr>) d;
              d = uthread_create (cnl_id (channel d w usmid)) usmid d;
              d = upd_sw (\<lambda>u. u\<lparr>umem := wr32 (umem u) m 4 0\<rparr>) d
          in Some (if toUnmap \<noteq> 0 then d\<lparr>unmapped := unmapped d @ [toUnmap]\<rparr> else d))"

text \<open>\<open>malloc\<close> 0 is that of the thread's identifier, which is not checked; the channel is
  tried three times before the daemon exits.  \<open>tempChannel\<close> is what the memory from \<open>malloc\<close>
  holds; the event in it, with its \<open>procName\<close>, is never initialised.\<close>

definition createUSMChannel :: "(nat \<Rightarrow> bool) \<Rightarrow> usm_channel \<Rightarrow> usm_channel_ops \<Rightarrow> u32 \<Rightarrow> daemon \<Rightarrow> daemon option" where
  "createUSMChannel mok tempChannel ops channelFd d =
    (if \<not> mok 0 \<or> (\<not> mok 1 \<and> \<not> mok 2 \<and> \<not> mok 3) then None
     else
       let tempChannel = tempChannel\<lparr>cnl_ops := ops\<rparr>;
           tempChannel = tempChannel\<lparr>cnl_fd := channelFd\<rparr>;
           tempChannel = tempChannel\<lparr>cnl_type := FD_BASED\<rparr>
       in Some (d\<lparr>majordomos := majordomos d @ [tempChannel]\<rparr>))"

section \<open>The handler\<close>

text \<open>The case \<open>ALLOC\<close>.  A hit in the swap cache leaves \<open>ret\<close> at 1, as if nothing had been
  allocated.  The label \<open>retry\<close> is reached at most once more.\<close>

definition first_attempt :: "evt_env \<Rightarrow> usm_event \<Rightarrow> swap_state \<Rightarrow> (u32 \<times> usm_event \<times> swap_state) option" where
  "first_attempt e ev s =
    (if ev_flags ev AND UFFD_PAGEFAULT_FLAG_SWAP \<noteq> 0
     then do {
       (hit, ev, s) \<leftarrow> trySwapCache (en_subm e 0) ev s;
       (if hit = 0 then do { (r, ev, s) \<leftarrow> usmPolicyDefinedSwapIn e 0 ev s; Some (of_nat r, ev, s) }
        else Some (1, ev, s))
     }
     else do { (r, ev, u) \<leftarrow> usmPolicyDefinedAlloc e 0 ev (usm s); Some (r, ev, s\<lparr>usm := u\<rparr>) })"

definition handle_alloc :: "evt_env \<Rightarrow> usm_event \<Rightarrow> swap_state \<Rightarrow> (u32 \<times> usm_event \<times> swap_state) option" where
  "handle_alloc e ev s = do {
     (ret, ev, s) \<leftarrow> first_attempt e ev s;
     (if ret \<noteq> 1 then Some (ret, ev, s)
      else do {
        s \<leftarrow> handle_evict_request (en_io e) (en_file e) (en_to_swap e) ev s;
        (ret, ev, u) \<leftarrow> usmPolicyDefinedAlloc e 1 ev (usm s);
        Some (ret, ev, s\<lparr>usm := u\<rparr>)
      })
   }"

text \<open>The case \<open>NEW_THREAD\<close>.  The regent's identifier is read from the mapping before the
  mapping is checked, so a failed \<open>mmap\<close> is a read through \<open>MAP_FAILED\<close>.  Of the answers
  of \<open>usmChooseWorker\<close> only a worker can be used.\<close>

definition handle_new_thread :: "evt_env \<Rightarrow> usm_event \<Rightarrow> daemon \<Rightarrow> (u32 \<times> usm_event \<times> daemon) option" where
  "handle_new_thread e ev d =
    (case en_mmap e of
       None \<Rightarrow> None
     | Some m \<Rightarrow>
        let ev = ev\<lparr>ev_usmmem := m\<rparr>;
            regentsID = sint (rd32 (umem (usm (sw d))) m 4000);
            d = upd_sw (\<lambda>u. u\<lparr>umem := wr32 (umem u) m 0 (ev_origin ev)\<rparr>) d;
            d = upd_sw (\<lambda>u. u\<lparr>umem := wr32 (umem u) m 32 0\<rparr>) d
        in case usmChooseWorker [0..<length (usmMemWorkers d)] regentsID of
             Worker w \<Rightarrow> Option.bind (createUSMMemChannel usm_cnl_mem_ops m w d) (\<lambda>d. Some (0, ev, d))
           | NullWorker \<Rightarrow> None
           | Abort \<Rightarrow> None)"

text \<open>The conditional swaps called at the end (\<open>check_swap_in\<close> and \<open>check_swap_out\<close>) have
  empty bodies.\<close>

definition check_swap_in :: "usm_event \<Rightarrow> daemon \<Rightarrow> daemon" where "check_swap_in ev d = d"
definition check_swap_out :: "usm_event \<Rightarrow> daemon \<Rightarrow> daemon" where "check_swap_out ev d = d"

definition usm_handle_events :: "evt_env \<Rightarrow> usm_event \<Rightarrow> daemon \<Rightarrow> (u32 \<times> usm_event \<times> daemon) option" where
  "usm_handle_events e ev d = do {
     (ret, ev, d) \<leftarrow> (case ev_type ev of
        ALLOC \<Rightarrow> Option.bind (handle_alloc e ev (sw d)) (\<lambda>(r, ev, s). Some (r, ev, d\<lparr>sw := s\<rparr>))
      | PHY_AS_CHANGE \<Rightarrow> Option.bind (usmPolicyDefinedPageIndexFree ev (usm (sw d))) (\<lambda>(r, ev, u). Some (of_nat r, ev, upd_sw (\<lambda>_. u) d))
      | FREE \<Rightarrow> Some (0, ev, d)
      | VIRT_AS_CHANGE \<Rightarrow> Some (0, ev, d)
      | NEW_PROC \<Rightarrow> Option.bind (usmSetupProcess ev (usm (sw d))) (\<lambda>u.
          Option.bind (createUSMChannel (en_malloc e) (en_channel e) usm_cnl_userfaultfd_ops (ev_origin ev) (upd_sw (\<lambda>_. u) d)) (\<lambda>d. Some (0, ev, d)))
      | NEW_THREAD \<Rightarrow> handle_new_thread e ev d
      | PROC_DTH \<Rightarrow> Some (0, ev, upd_sw (resetUsmProcess (ev_origin ev)) d)
      | THREAD_DTH \<Rightarrow> Some (0, ev, d)
      | HINTS \<Rightarrow> Some (1, ev, d));
     let d = check_swap_in ev d;
     let d = check_swap_out ev d;
     Some (ret, ev, d)
   }"

lemma alloc_ops_of_keeps:
  "procDescList s' = procDescList s \<Longrightarrow> tables s' = tables s \<Longrightarrow> alloc_ops_of p s' = alloc_ops_of p s"
  unfolding alloc_ops_of_def by (simp only:)

section \<open>Faults that find no page\<close>

text \<open>What an eviction needs: a used page of a living process, a free swap node, a kernel and
  a file that comply.\<close>

definition can_evict :: "evt_env \<Rightarrow> swap_state \<Rightarrow> addr list \<Rightarrow> addr \<Rightarrow> addr list \<Rightarrow> addr \<Rightarrow> bool" where
  "can_evict e s fs x us n \<longleftrightarrow> pool (usm s) fs (x # us) \<and> (\<exists>ns. heap_lists (slinks (usm s)) [dev_free_list \<mapsto> n # ns]) \<and>
     \<not> usmCheckPageAlive (node_page (usm s) x) (usm s) \<and> \<not> ts_retaken (to_swaps s (en_to_swap e)) \<and>
     (\<forall>q. pa_opt q = 5 \<longrightarrow> io_ret (en_io e q) = 1) \<and> seek_ok (en_file e) \<and> write_ok (en_file e)"

definition evicted :: "evt_env \<Rightarrow> addr \<Rightarrow> addr \<Rightarrow> swap_state \<Rightarrow> swap_state" where
  "evicted e x n s = swapped_out (en_to_swap e) (victim_state x n (en_to_swap e) s)"

lemma evicted_sel [simp]:
  "procDescList (usm (evicted e x n s)) = procDescList (usm s)" "tables (usm (evicted e x n s)) = tables (usm s)"
  "umem (usm (evicted e x n s)) = umem (usm s)" "basePFN (usm (evicted e x n s)) = basePFN (usm s)"
  "node_page (usm (evicted e x n s)) = node_page (usm s)" "pagesList (usm (evicted e x n s)) = pagesList (usm s)"
  "globalPageSize (usm (evicted e x n s)) = globalPageSize (usm s)"
  "usedMemory (usm (evicted e x n s)) = usedMemory (usm s) - SYS_PAGE_SIZE"
  "disk (evicted e x n s) = (disk s)(sn_offset s n := frames (usm s) (pg_data (page_of x (usm s))))"
  by (simp_all add: evicted_def swapped_out_def victim_state_def Let_def page_of_def)

lemma can_evict:
  assumes "can_evict e s fs x us n"
  shows "handle_evict_request (en_io e) (en_file e) (en_to_swap e) ev s = Some (evicted e x n s)"
    "pool (usm (evicted e x n s)) (x # fs) us"
  using assms handle_evict_request_ok [where io = "en_io e"] evicted_pool unfolding can_evict_def evicted_def by blast+

text \<open>After an eviction the second attempt serves the fault with the evicted page.\<close>

definition served :: "addr \<Rightarrow> usm_event \<Rightarrow> mem \<Rightarrow> usm_state \<Rightarrow> usm_state" where
  "served x ev m s = (let h = list_del x (links s) in
     (usmLinkPage (node_page s x) ev (s\<lparr>usedMemory := usedMemory s + ucast (globalPageSize s), links := h, umem := m\<rparr>))
       \<lparr>links := list_add_tail x usedList h\<rparr>)"

lemma served_pool:
  assumes "pool s (x # fs) us"
  shows "pool (served x ev m s) fs (us @ [x])"
  by (rule pool_cong [OF _ poolD(2) [OF assms]])
    (use basic_alloc_uniq_unfold(3) [OF assms] in \<open>auto simp: served_def Let_def usmLinkPage_def\<close>)

lemma basic_alloc_uniq_accepted:
  assumes "pool s (x # fs) us"
    "usmSubmitAllocEvent env (umem s) (ev\<lparr>ev_paddr := basePFN s + node_page s x, ev_length := 0\<rparr>) = Some (0, m, ev')"
  shows "basic_alloc_uniq env ev s = Some (0, ev', served x ev' m s)"
  using assms(2) unfolding basic_alloc_uniq_unfold(1) [OF assms(1)] by (simp add: served_def Let_def)

lemma retry_served:
  assumes c: "can_evict e s fs x us n" and f: "first_attempt e ev s' = Some (1, ev1, s)"
    and p: "alloc_ops_of (ev_origin ev1) (usm s) = alloc_policy_one"
    and a: "usmSubmitAllocEvent (en_subm e 1) (umem (usm s)) (ev1\<lparr>ev_paddr := basePFN (usm s) + node_page (usm s) x, ev_length := 0\<rparr>) =
      Some (0, m, ev')"
  shows "handle_alloc e ev s' = Some (0, ev', (evicted e x n s)\<lparr>usm := served x ev' m (usm (evicted e x n s))\<rparr>)"
proof -
  have "alloc_ops_of (ev_origin ev1) (usm (evicted e x n s)) = alloc_policy_one"
    using p alloc_ops_of_keeps [of "usm (evicted e x n s)" "usm s"] by simp
  moreover have "basic_alloc_uniq (en_subm e 1) ev1 (usm (evicted e x n s)) = Some (0, ev', served x ev' m (usm (evicted e x n s)))"
    by (rule basic_alloc_uniq_accepted [OF can_evict(2) [OF c]]) (use a in simp)
  ultimately show ?thesis
    using can_evict(1) [OF c, of ev1] f by (simp add: handle_alloc_def usmPolicyDefinedAlloc_def Let_def)
qed

text \<open>C18: a fault that finds no free page is served all the same, when a page can be evicted
  and the task takes the frame: the oldest used page \<open>x\<close> is written to the swap file and
  its frame goes to the faulting task, at the address and process of the event; as many
  pages are used as before, the page is the newest of them, and no other page changes.\<close>

theorem fault_evicts_and_retries:
  assumes "ev_type ev = ALLOC" "ev_flags ev AND UFFD_PAGEFAULT_FLAG_SWAP = 0"
    and "can_evict e (sw d) [] x us n" "alloc_ops_of (ev_origin ev) (usm (sw d)) = alloc_policy_one"
    and "usmSubmitAllocEvent (en_subm e 1) (umem (usm (sw d)))
      (ev\<lparr>ev_paddr := basePFN (usm (sw d)) + node_page (usm (sw d)) x, ev_length := 0\<rparr>) = Some (0, m, ev')"
    and "globalPageSize (usm (sw d)) = 4096"
  shows "\<exists>d'. usm_handle_events e ev d = Some (0, ev', d') \<and> pool (usm (sw d')) [] (us @ [x]) \<and>
    usedMemory (usm (sw d')) = usedMemory (usm (sw d)) \<and>
    disk (sw d') = (disk (sw d))(sn_offset (sw d) n := frames (usm (sw d)) (pg_data (page_of x (usm (sw d))))) \<and>
    pagesList (usm (sw d')) = (pagesList (usm (sw d)))(node_page (usm (sw d)) x :=
      (page_of x (usm (sw d)))\<lparr>pg_virtualAddress := ev_vaddr ev, pg_process := ev_origin ev\<rparr>)"
proof -
  let ?s = "evicted e x n (sw d)"
  have "pool (usm (sw d)) [] (x # us)" using assms(3) by (simp add: can_evict_def)
  then have "list_empty freeList (links (usm (sw d)))" using poolD(3) by blast
  then have "first_attempt e ev (sw d) = Some (1, ev, sw d)"
    using assms(2,4) by (simp add: first_attempt_def usmPolicyDefinedAlloc_def basic_alloc_uniq_def)
  note r = retry_served [OF assms(3) this assms(4,5)]
  have "ev_vaddr ev' = ev_vaddr ev" "ev_origin ev' = ev_origin ev" using subm_keeps(1,2) [OF assms(5)] by simp_all
  then show ?thesis
    using r assms(1,6) served_pool [OF can_evict(2) [OF assms(3)], of ev' m]
    by (simp add: usm_handle_events_def check_swap_in_def check_swap_out_def Let_def)
      (simp add: served_def usmLinkPage_def Let_def page_of_def SYS_PAGE_SIZE_def)
qed


text \<open>A page the kernel reports as freed goes back to the free pages, zeroed and detached,
  when its process has one of the module's policies.  A frame outside the region, which
  the policy itself refuses, makes the handler read through a NULL pointer.\<close>

theorem freed_page_event:
  assumes "ev_type ev = PHY_AS_CHANGE" "pool (usm (sw d)) fs (a @ x # c)"
    and "unat (basePFN (usm (sw d))) + unat (globalPagesNumber (usm (sw d))) < 2 ^ 64"
    and "alloc_ops_of (pg_process (page_of x (usm (sw d)))) (usm (sw d)) = alloc_policy_one"
  shows "(ev_paddr ev = basePFN (usm (sw d)) + node_page (usm (sw d)) x \<longrightarrow>
      (\<exists>d'. usm_handle_events e ev d = Some (0, ev, d') \<and> pool (usm (sw d')) (fs @ [x]) (a @ c) \<and>
        usedMemory (usm (sw d')) = usedMemory (usm (sw d)) - SYS_PAGE_SIZE \<and>
        frames (usm (sw d')) (pg_data (page_of x (usm (sw d)))) = zero_page)) \<and>
    (usmEventToPage ev (usm (sw d)) = None \<longrightarrow>
      usm_handle_events e ev d = None \<and> pindex_free ev (usm (sw d)) = Some (1, ev, usm (sw d)))"
proof (intro conjI impI)
  have x: "x \<in> set fs \<union> set (a @ x # c)" by simp
  assume e: "ev_paddr ev = basePFN (usm (sw d)) + node_page (usm (sw d)) x"
  note E = pool_event [OF assms(2) x e assms(3)] and F = pindex_free_node [OF assms(2) x e assms(3)]
  show "\<exists>d'. usm_handle_events e ev d = Some (0, ev, d') \<and> pool (usm (sw d')) (fs @ [x]) (a @ c) \<and>
        usedMemory (usm (sw d')) = usedMemory (usm (sw d)) - SYS_PAGE_SIZE \<and>
        frames (usm (sw d')) (pg_data (page_of x (usm (sw d)))) = zero_page"
    using E F assms(1,4) freed_pool [OF assms(2)]
    by (simp add: usm_handle_events_def usmPolicyDefinedPageIndexFree_def page_of_def check_swap_in_def check_swap_out_def Let_def)
      (simp add: freed_def page_of_def)
qed (use assms(1) in \<open>simp_all add: usm_handle_events_def usmPolicyDefinedPageIndexFree_def pindex_free_def\<close>)

section \<open>Witnesses\<close>

definition channel0 :: usm_channel where
  "channel0 = \<lparr>cnl_id = 0, cnl_fd = 0, cnl_type = RAM_BASED, cnl_ops = usm_cnl_mem_ops, cnl_event = ev0\<lparr>ev_usmmem := 0\<rparr>,
     cnl_handle_evt = Handle_null\<rparr>"

definition daemon_of :: "usm_state \<Rightarrow> daemon" where
  "daemon_of u = \<lparr>sw = swap_of (u\<lparr>tables := (tables u)\<lparr>default_alloc_policy := alloc_policy_one\<rparr>\<rparr>),
     usmMemWorkers = [\<lparr>wk_id = 0, wk_channels = (\<lambda>_. channel0), wk_com = 8192\<rparr>], majordomos = [],
     ioctl_fd = (\<lambda>_ _. - 2), unmapped = []\<rparr>"

definition env0 :: evt_env where
  "env0 = \<lparr>en_subm = (\<lambda>_. answer3), en_head = (\<lambda>_. 256), en_file = file_works, en_io = io_works, en_to_swap = 512,
     en_mmap = Some 4096, en_malloc = (\<lambda>_. True), en_channel = channel0\<rparr>"

lemma daemon_of_usm [simp]:
  "pool (usm (sw (daemon_of u))) fs us = pool u fs us" "umem (usm (sw (daemon_of u))) = umem u"
  "basePFN (usm (sw (daemon_of u))) = basePFN u" "node_page (usm (sw (daemon_of u))) = node_page u"
  "globalPageSize (usm (sw (daemon_of u))) = globalPageSize u" "globalPagesNumber (usm (sw (daemon_of u))) = globalPagesNumber u"
  "usedMemory (usm (sw (daemon_of u))) = usedMemory u" "pagesList (usm (sw (daemon_of u))) = pagesList u"
  "procDescList (usm (sw (daemon_of u))) = procDescList u"
  by (simp_all add: daemon_of_def swap_of_def pool_def nodes_ok_def page_of_def)

lemma daemon_of_policy: "procDescList u = procDescList state0 \<Longrightarrow> alloc_ops_of p (usm (sw (daemon_of u))) = alloc_policy_one"
  by (simp add: alloc_ops_of_def daemon_of_def swap_of_def state0_def)

lemma daemon_of_can_evict:
  assumes "pool u fs (x # us)" "procDescList u = procDescList state0"
  shows "can_evict env0 (sw (daemon_of u)) fs x us 4096"
proof -
  have "heap_lists (list_add 4096 dev_free_list links0) ([dev_free_list \<mapsto> []](dev_free_list \<mapsto> [4096]))"
    by (rule lists_add(1)) (auto simp: heap_lists_def links0_empty unlisted_def dev_free_list_def)
  then have "heap_lists (slinks (usm (sw (daemon_of u)))) [dev_free_list \<mapsto> [4096]]" by (simp add: daemon_of_def swap_of_def)
  moreover have "\<not> usmCheckPageAlive pg (usm (sw (daemon_of u)))" for pg
    using assms(2) by (simp add: usmCheckPageAlive_def state0_def)
  ultimately show ?thesis
    using assms(1) by (auto simp: can_evict_def env0_def works) (simp add: daemon_of_def swap_of_def)
qed

text \<open>A pool without a free page.\<close>

lemma full_pool:
  obtains u where "pool u [] [64, 128]" "procDescList u = procDescList state0" "globalPageSize u = 4096"
proof -
  obtain e u where u: "pool u [128] [64]" "procDescList u = procDescList state0" by (rule pool0_alloc)
  show ?thesis
    by (rule that [of "(served 128 ev0 (umem u) u)\<lparr>globalPageSize := 4096\<rparr>"])
      (use served_pool [OF u(1), of ev0 "umem u"] u(2) in \<open>simp_all add: pool_def nodes_ok_def page_of_def served_def usmLinkPage_def Let_def\<close>)
qed

lemma answer3_takes: "ev_usmmem ev = 4096 \<Longrightarrow> \<exists>m e. usmSubmitAllocEvent answer3 m' ev = Some (0, m, e)"
  using answer3_returns [of m' ev] by (cases ev) simp

theorem fault_evicts_and_retries_witness:
  "\<exists>u e d'. pool u [] [64, 128] \<and> usm_handle_events env0 ev0 (daemon_of u) = Some (0, e, d') \<and> pool (usm (sw d')) [] [128, 64]"
proof -
  obtain u where u: "pool u [] [64, 128]" "procDescList u = procDescList state0" "globalPageSize u = 4096" by (rule full_pool)
  obtain m e where "usmSubmitAllocEvent (en_subm env0 1) (umem (usm (sw (daemon_of u))))
      (ev0\<lparr>ev_paddr := basePFN (usm (sw (daemon_of u))) + node_page (usm (sw (daemon_of u))) 64, ev_length := 0\<rparr>) = Some (0, m, e)"
    using answer3_takes [of "ev0\<lparr>ev_paddr := basePFN (usm (sw (daemon_of u))) + node_page (usm (sw (daemon_of u))) 64, ev_length := 0\<rparr>"]
    by (fastforce simp: env0_def ev0_def)
  from fault_evicts_and_retries [OF _ _ daemon_of_can_evict [OF u(1,2)] daemon_of_policy [OF u(2)] this] show ?thesis
    using u by (fastforce simp: ev0_def)
qed

text \<open>A task that faults on a page in the swap cache of its process.\<close>

definition cached :: "swap_state \<Rightarrow> swap_state" where
  "cached s = upd_tlinks (list_add 700 5) s"


theorem freed_page_event_witness:
  "\<exists>u ev d'. pool u [128] [64] \<and> usm_handle_events env0 ev (daemon_of u) = Some (0, ev, d') \<and> pool (usm (sw d')) [128, 64] []"
proof -
  obtain e u where u: "pool u [128] [64]" "basePFN u = 100" "globalPagesNumber u = 2" "procDescList u = procDescList state0" by (rule pool0_alloc)
  let ?ev = "ev0\<lparr>ev_type := PHY_AS_CHANGE, ev_paddr := basePFN u + node_page u 64\<rparr>"
  have p: "pool (usm (sw (daemon_of u))) [128] ([] @ 64 # [])" using u(1) by simp
  show ?thesis
    using freed_page_event [of ?ev, OF _ p _ daemon_of_policy [OF u(4)], of env0] u by fastforce
qed

end
