(* ===== verification/Bitfield.thy ===== *)
theory Bitfield
  imports Usm_Prelude
begin

text \<open>
  The words of pending events: a worker shares a 32-bit word with the kernel, in which bit
  \<open>i\<close> says that channel \<open>i\<close> has an event.  \<open>ffs\<close> of the C library finds the lowest bit,
  \<open>pop_bit\<close> is the expression the code clears it with, and \<open>pending\<close> is what the word
  stands for: the list of its channels in the order in which they are found.
\<close>

unbundle bit_operations_syntax

definition ffs :: "u32 \<Rightarrow> nat" where
  "ffs w = (case find (bit w) [0..<32] of None \<Rightarrow> 0 | Some i \<Rightarrow> Suc i)"

definition pop_bit :: "nat \<Rightarrow> u32 \<Rightarrow> u32" where
  "pop_bit i w = w AND NOT (push_bit i 1)"

definition pending :: "u32 \<Rightarrow> nat list" where
  "pending w = filter (bit w) [0..<32]"

lemma bit_pop_bit: "bit (pop_bit i w) j \<longleftrightarrow> bit w j \<and> j \<noteq> i"
  by (auto simp: pop_bit_def bit_and_iff bit_not_iff bit_exp_iff dest: bit_imp_le_length)

lemma set_pending: "set (pending w) = {i. bit w i}"
  by (auto simp: pending_def dest: bit_imp_le_length)

lemma pending_less: "i \<in> set (pending w) \<Longrightarrow> i < 32"
  by (simp add: pending_def)

lemma pending_distinct [simp]: "distinct (pending w)" "sorted (pending w)"
  by (simp_all add: pending_def sorted_wrt_filter)

lemma pending_pop [simp]: "pending (pop_bit i w) = filter (\<lambda>j. j \<noteq> i) (pending w)"
  by (simp add: pending_def bit_pop_bit cong: filter_cong)

lemma pending_empty [simp]: "pending w = [] \<longleftrightarrow> w = 0"
proof
  assume "pending w = []"
  then have "\<not> bit w i" for i using set_pending [of w] by auto
  then show "w = 0" by (intro bit_eqI) simp
qed (simp add: pending_def)

lemma find_filter: "find P xs = (case filter P xs of [] \<Rightarrow> None | x # _ \<Rightarrow> Some x)"
  by (induction xs) auto

lemma ffs_pending: "ffs w = (case pending w of [] \<Rightarrow> 0 | i # _ \<Rightarrow> Suc i)"
  by (simp add: ffs_def find_filter pending_def split: list.splits)

text \<open>Popping what \<open>ffs\<close> finds removes the head of the pending channels.\<close>

lemma pending_Cons:
  assumes "w \<noteq> 0"
  shows "pending w = (ffs w - 1) # pending (pop_bit (ffs w - 1) w)"
proof -
  obtain i js where p: "pending w = i # js" using assms pending_empty [of w] by (cases "pending w") auto
  then have "i \<notin> set js" using pending_distinct(1) [of w] by simp
  then have "filter (\<lambda>j. j \<noteq> i) js = js" by (intro filter_True) auto
  then show ?thesis using p by (simp add: ffs_pending)
qed

lemma ffs_bit: "w \<noteq> 0 \<Longrightarrow> bit w (ffs w - 1)"
  using pending_Cons [of w] set_pending [of w] by (metis list.set_intros(1) mem_Collect_eq)

lemma ffs_less: "w \<noteq> 0 \<Longrightarrow> ffs w - 1 < 32"
  using bit_imp_le_length [OF ffs_bit] by simp

end
