(* ===== verification/Channels.thy ===== *)
theory Channels
  imports Events Bitfield
begin

text \<open>
  The channels and workers of \<open>impl/com/com.c\<close>: polling a descriptor, retrieving an
  event from a userfaultfd, from the file of freed pages and from the file of new
  processes, the loops of the threads that serve a process's descriptor
  (\<open>usm_handle_fd\<close>) and the two files (\<open>usm_handle_evt_poll\<close>), the handlers of memory
  channels, the memory worker of the build without user threads and the thread that
  wakes workers.  A loop that never ends is run over a list of its turns; what a turn
  takes from the kernel is in the turn.
\<close>

section \<open>Polling and retrieving\<close>

definition POLLIN :: int where "POLLIN = 1"
definition POLLPRI :: int where "POLLPRI = 2"

text \<open>\<open>res\<close> and \<open>revents\<close> are what \<open>poll\<close> returns and stores.\<close>

definition usm_poll_check :: "int \<Rightarrow> int \<Rightarrow> int" where
  "usm_poll_check res revents =
    (if res \<le> 0 then res else if revents \<noteq> POLLPRI \<and> revents \<noteq> POLLIN then - 1 else revents)"

definition usm_poll_check_np :: "int \<Rightarrow> int \<Rightarrow> int" where
  "usm_poll_check_np res revents = POLLIN"

datatype uffd_msg = Pagefault (pf_flags: u64) (pf_address: u64) (pf_entry: u64) | Fork (fork_ufd: u32) | Remap
  | Unmap u64 u64 | Remove u64 u64 | Other_msg

text \<open>A read gives the error number or what was read.\<close>

fun usm_uffd_ret_ev :: "nat + uffd_msg \<Rightarrow> usm_event \<Rightarrow> nat \<times> usm_event" where
  "usm_uffd_ret_ev (Inl errno) ev = (errno, ev)"
| "usm_uffd_ret_ev (Inr (Pagefault flags address entry)) ev =
     (0, ev\<lparr>ev_type := ALLOC, ev_vaddr := address, ev_flags := flags, ev_offst := entry * SYS_PAGE_SIZE\<rparr>)"
| "usm_uffd_ret_ev (Inr (Fork ufd)) ev = (0, ev\<lparr>ev_type := NEW_PROC, ev_origin := ufd\<rparr>)"
| "usm_uffd_ret_ev (Inr Remap) ev = (0, ev\<lparr>ev_type := VIRT_AS_CHANGE\<rparr>)"
| "usm_uffd_ret_ev (Inr (Unmap start stop)) ev = (0, ev\<lparr>ev_type := FREE, ev_vaddr := start, ev_length := stop - start\<rparr>)"
| "usm_uffd_ret_ev (Inr (Remove start stop)) ev = (0, ev\<lparr>ev_type := FREE, ev_vaddr := start, ev_length := stop - start\<rparr>)"
| "usm_uffd_ret_ev (Inr Other_msg) ev = (1, ev)"

definition usm_uffd_subm_ev :: "(uffdio_palloc \<Rightarrow> ioctl_result) \<Rightarrow> usm_event \<Rightarrow> usm_state \<Rightarrow> usm_state" where
  "usm_uffd_subm_ev io ev s = snd (usm_set_pfn io (ev_origin ev) (ev_vaddr ev) (ev_paddr ev) s)"

definition usm_uffd_subm_ev_iu :: "(uffdio_palloc \<Rightarrow> ioctl_result) \<Rightarrow> usm_event \<Rightarrow> usm_state \<Rightarrow> usm_state" where
  "usm_uffd_subm_ev_iu io ev s = snd (usm_set_pfn_iuthread io (ev_origin ev) (ev_vaddr ev) (ev_paddr ev) s)"

definition usm_uffd_subm_ev_emul :: "(uffdio_palloc \<Rightarrow> ioctl_result) \<Rightarrow> usm_event \<Rightarrow> usm_state \<Rightarrow> usm_state" where
  "usm_uffd_subm_ev_emul io ev s = snd (usm_set_pfn_emul io (ev_origin ev) (ev_vaddr ev) (ev_paddr ev) s)"

fun usm_freed_page_ret_ev :: "nat + u64 \<Rightarrow> usm_event \<Rightarrow> nat \<times> usm_event" where
  "usm_freed_page_ret_ev (Inl errno) ev = (errno, ev)"
| "usm_freed_page_ret_ev (Inr pfn) ev = (0, ev\<lparr>ev_paddr := pfn, ev_type := PHY_AS_CHANGE\<rparr>)"

text \<open>\<open>process\<close> is what \<open>read\<close> returns (the driver returns the descriptor of the process),
  \<open>buf\<close> the 16 characters of \<open>procName\<close>, which need not be terminated.\<close>

definition usm_new_proc_ret_ev :: "bool \<Rightarrow> int \<Rightarrow> nat \<Rightarrow> string \<Rightarrow> usm_event \<Rightarrow> (nat \<times> usm_event) option" where
  "usm_new_proc_ret_ev mok process errno buf ev =
    (if process \<le> 0 then Some (errno, ev)
     else if CHR 0x00 \<notin> set buf then None
     else
       let procName = takeWhile (\<lambda>c. c \<noteq> CHR 0x00) buf;
           ev = ev\<lparr>ev_procName := None, ev_origin := of_int process, ev_type := NEW_PROC\<rparr>
       in if procName \<noteq> [] then if mok then Some (0, ev\<lparr>ev_procName := Some procName\<rparr>) else None
          else Some (0, ev))"

section \<open>Memory channels\<close>

abbreviation set_event :: "nat \<Rightarrow> nat \<Rightarrow> usm_event \<Rightarrow> daemon \<Rightarrow> daemon" where
  "set_event w i ev d \<equiv> upd_channel w i (\<lambda>c. c\<lparr>cnl_event := ev\<rparr>) d"

abbreviation set_umem :: "mem \<Rightarrow> daemon \<Rightarrow> daemon" where
  "set_umem m d \<equiv> upd_sw (\<lambda>u. u\<lparr>umem := m\<rparr>) d"

text \<open>\<open>usm_check_mem\<close> and \<open>usm_retrieve_evt\<close> of the two tables that have them.\<close>

definition retrieve_mem :: "usm_channel_ops \<Rightarrow> usm_event \<Rightarrow> mem \<Rightarrow> (usm_event \<times> mem) option" where
  "retrieve_mem ops ev m =
    (if ops = usm_cnl_mem_ops then Some (usm_mem_ret_ev m ev, m)
     else if ops = usm_cnl_special_ops then let (m, ev) = usm_mem_ret_ev_special m ev in Some (ev, m)
     else None)"

definition usm_handle_mem :: "evt_env \<Rightarrow> nat \<Rightarrow> nat \<Rightarrow> daemon \<Rightarrow> (u32 \<times> daemon) option" where
  "usm_handle_mem e w i d =
    (let c = channel d w i; b = ev_usmmem (cnl_event c)
     in if b = 0 then None
        else do {
          let (notfn, m) = usm_mem_check (umem (usm (sw d))) b;
          let d = set_umem m d;
          (if notfn = 0 then Some (1, d)
           else if notfn > 0 then do {
             (ev, m) \<leftarrow> retrieve_mem (cnl_ops c) (cnl_event c) m;
             (r, ev, d) \<leftarrow> usm_handle_events e ev (set_umem m d);
             Some (if r = 0 then 0 else 1, set_event w i ev d)
           }
           else Some (2, (set_event w i ((cnl_event c)\<lparr>ev_type := THREAD_DTH, ev_usmmem := 0\<rparr>) d)\<lparr>unmapped := unmapped d @ [b]\<rparr>))
        })"

text \<open>The variant that takes the event; the word at \<open>4096 - 12\<close> tells which table retrieves.\<close>

definition usm_handle_mem_special :: "evt_env \<Rightarrow> usm_event \<Rightarrow> daemon \<Rightarrow> (u32 \<times> usm_event \<times> daemon) option" where
  "usm_handle_mem_special e ev d =
    (let b = ev_usmmem ev
     in if b = 0 then None
        else do {
          let (notfn, m) = usm_mem_check (umem (usm (sw d))) b;
          let d = set_umem m d;
          (if notfn = 0 then Some (1, ev, d)
           else if notfn > 0 then do {
             (ev, m) \<leftarrow> retrieve_mem (if rd32 m b (4096 - 4 * 3) = 100 then usm_cnl_mem_ops else usm_cnl_special_ops) ev m;
             (r, ev, d) \<leftarrow> usm_handle_events e ev (set_umem m d);
             Some (if r = 0 then 0 else 1, ev, d)
           }
           else Some (2, ev\<lparr>ev_type := THREAD_DTH\<rparr>, d\<lparr>unmapped := unmapped d @ [b]\<rparr>))
        })"

section \<open>Threads on descriptors\<close>

text \<open>A turn of \<open>usm_handle_fd\<close>: the results of \<open>poll\<close>, what a read from a descriptor gives,
  and the surroundings of the event.\<close>

record fd_turn =
  ft_res :: int
  ft_revents :: int
  ft_read :: "u32 \<Rightarrow> nat + uffd_msg"
  ft_env :: evt_env

datatype loop_status = Polling | Ended

definition fd_retrieve :: "fd_turn \<Rightarrow> int \<Rightarrow> usm_event \<Rightarrow> nat \<times> usm_event" where
  "fd_retrieve t notfn ev =
    (if notfn = POLLPRI then (0, ev\<lparr>ev_type := NEW_THREAD\<rparr>) else usm_uffd_ret_ev (ft_read t (ev_origin ev)) ev)"

fun fd_loop :: "fd_turn list \<Rightarrow> usm_event \<Rightarrow> daemon \<Rightarrow> (loop_status \<times> usm_event \<times> daemon) option" where
  "fd_loop [] ev d = Some (Polling, ev, d)"
| "fd_loop (t # ts) ev d =
    (let notfn = usm_poll_check (ft_res t) (ft_revents t)
     in if notfn = 0 then fd_loop ts ev d
        else if notfn > 0 then
          (let (r, ev) = fd_retrieve t notfn ev
           in if r \<noteq> 0 then Some (Ended, ev, d)
              else Option.bind (usm_handle_events (ft_env t) ev d) (\<lambda>(r, ev, d).
                     if r = 0 then fd_loop ts ev d else Some (Ended, ev, d)))
        else
          let ev = ev\<lparr>ev_type := PROC_DTH\<rparr>
          in Some (Ended, ev, upd_sw (upd_proc (ev_origin ev) (\<lambda>p. p\<lparr>pd_prio := - 1\<rparr>)) d))"

definition usm_handle_fd :: "evt_env \<Rightarrow> fd_turn list \<Rightarrow> usm_channel \<Rightarrow> daemon \<Rightarrow> (loop_status \<times> usm_event \<times> daemon) option" where
  "usm_handle_fd e ts c d =
    (let ev = (cnl_event c)\<lparr>ev_origin := cnl_fd c\<rparr>;
         ev = ev\<lparr>ev_type := NEW_THREAD\<rparr>
     in Option.bind (usm_handle_events e ev d) (\<lambda>(r, ev, d). if r = 0 then fd_loop ts ev d else Some (Ended, ev, d)))"

text \<open>A turn of \<open>usm_handle_evt_poll\<close>: what the check returns, what the retrieval does to the
  event, and the surroundings.\<close>

record poll_turn =
  pt_notfn :: int
  pt_retrieve :: "usm_event \<Rightarrow> (nat \<times> usm_event) option"
  pt_env :: evt_env

fun poll_loop :: "poll_turn list \<Rightarrow> usm_event \<Rightarrow> daemon \<Rightarrow> (usm_event \<times> daemon) option" where
  "poll_loop [] ev d = Some (ev, d)"
| "poll_loop (t # ts) ev d = do {
     (r, ev) \<leftarrow> (if pt_notfn t > 0 then pt_retrieve t ev else Some (0, ev));
     (if r \<noteq> 0 then poll_loop ts ev d
      else do {
        (r, ev, d) \<leftarrow> usm_handle_events (pt_env t) ev d;
        poll_loop ts ev d
      })
   }"

definition usm_handle_evt_poll :: "poll_turn list \<Rightarrow> usm_channel \<Rightarrow> daemon \<Rightarrow> (usm_event \<times> daemon) option" where
  "usm_handle_evt_poll ts c d = poll_loop ts ((cnl_event c)\<lparr>ev_origin := cnl_fd c\<rparr>) d"

text \<open>The turns of the worker for freed pages and of the worker for new processes.\<close>

definition freed_turn :: "int \<Rightarrow> int \<Rightarrow> nat + u64 \<Rightarrow> evt_env \<Rightarrow> poll_turn" where
  "freed_turn res revents r e =
    \<lparr>pt_notfn = usm_poll_check res revents, pt_retrieve = (\<lambda>ev. Some (usm_freed_page_ret_ev r ev)), pt_env = e\<rparr>"

definition new_proc_turn :: "int \<Rightarrow> int \<Rightarrow> bool \<Rightarrow> int \<Rightarrow> nat \<Rightarrow> string \<Rightarrow> evt_env \<Rightarrow> poll_turn" where
  "new_proc_turn res revents mok process errno buf e =
    \<lparr>pt_notfn = usm_poll_check_np res revents, pt_retrieve = usm_new_proc_ret_ev mok process errno buf, pt_env = e\<rparr>"

section \<open>The memory worker and the waker\<close>

text \<open>A turn of \<open>usm_mem_worker_handler\<close>: the rounds without work, whether the worker sleeps,
  and the daemon.  A channel that is not registered yet makes it wait for ever.\<close>

definition worker_turn :: "evt_env \<Rightarrow> nat \<times> daemon \<Rightarrow> (nat \<times> bool \<times> daemon) option" where
  "worker_turn e = (\<lambda>(rounds, d).
    let com = wk_com (usmMemWorkers d ! 0); tempEvents = rd32 (umem (usm (sw d))) com 0
    in if tempEvents = 0 then Some (if rounds = 110 then (0, True, d) else (rounds + 1, False, d))
       else
         let i = ffs tempEvents - 1;
             d = set_umem (wr32 (umem (usm (sw d))) com 0 (pop_bit i (rd32 (umem (usm (sw d))) com 0))) d
         in if ev_usmmem (cnl_event (channel d 0 i)) = 0 then None
            else case cnl_handle_evt (channel d 0 i) of
                   Handle_mem \<Rightarrow> Option.bind (usm_handle_mem e 0 i d) (\<lambda>(r, d). Some (0, False, d))
                 | _ \<Rightarrow> None)"

record usm_watch =
  wt_com :: u32
  wt_thread :: nat
  wt_state :: bool

text \<open>One pass of \<open>usm_mem_workers_waker\<close> over its list: the threads it signals, the list.\<close>

fun waker_pass :: "usm_watch list \<Rightarrow> nat list \<times> usm_watch list" where
  "waker_pass [] = ([], [])"
| "waker_pass (w # ws) =
    (let (sigs, ws) = waker_pass ws
     in if wt_state w then (sigs, w # ws)
        else if wt_com w \<noteq> 0 then (wt_thread w # sigs, w\<lparr>wt_state := True\<rparr> # ws)
        else (sigs, w # ws))"

section \<open>Faults on a memory channel\<close>

lemma handle_events_alloc:
  assumes "ev_type ev = ALLOC" "ev_flags ev AND UFFD_PAGEFAULT_FLAG_SWAP = 0"
    "alloc_ops_of (ev_origin ev) (usm (sw d)) = alloc_policy_one" "pool (usm (sw d)) (x # fs) us"
    "usmSubmitAllocEvent (en_subm e 0) (umem (usm (sw d)))
      (ev\<lparr>ev_paddr := basePFN (usm (sw d)) + node_page (usm (sw d)) x, ev_length := 0\<rparr>) = Some (0, m, ev')"
  shows "usm_handle_events e ev d = Some (0, ev', upd_sw (served x ev' m) d)"
  using assms basic_alloc_uniq_accepted [OF assms(4,5)]
  by (simp add: usm_handle_events_def handle_alloc_def first_attempt_def usmPolicyDefinedAlloc_def check_swap_in_def
      check_swap_out_def Let_def)

text \<open>A channel of a registered thread, with a fault on its page.\<close>

definition fault_on :: "daemon \<Rightarrow> nat \<Rightarrow> nat \<Rightarrow> u64 \<Rightarrow> u64 \<Rightarrow> bool" where
  "fault_on d w i b vaddr \<longleftrightarrow> b \<noteq> 0 \<and> cnl_ops (channel d w i) = usm_cnl_mem_ops \<and> ev_usmmem (cnl_event (channel d w i)) = b \<and>
     ev_type (cnl_event (channel d w i)) = ALLOC \<and> (let m = umem (usm (sw d)) in rd32 m b 4 = 1 \<and> rd32 m b 32 \<noteq> 10 \<and>
       rd64 m b 8 = vaddr \<and> rd64 m b 24 AND UFFD_PAGEFAULT_FLAG_SWAP = 0)"

text \<open>The event that is submitted for it.\<close>

definition fault_event :: "daemon \<Rightarrow> nat \<Rightarrow> nat \<Rightarrow> addr \<Rightarrow> usm_event" where
  "fault_event d w i x = (usm_mem_ret_ev (umem (usm (sw d))) (cnl_event (channel d w i)))
     \<lparr>ev_paddr := basePFN (usm (sw d)) + node_page (usm (sw d)) x, ev_length := 0\<rparr>"

lemma usm_mem_ret_ev_sel [simp]:
  "ev_type (usm_mem_ret_ev m ev) = ev_type ev" "ev_origin (usm_mem_ret_ev m ev) = ev_origin ev"
  "ev_usmmem (usm_mem_ret_ev m ev) = ev_usmmem ev" "ev_vaddr (usm_mem_ret_ev m ev) = rd64 m (ev_usmmem ev) 8"
  "ev_flags (usm_mem_ret_ev m ev) = rd64 m (ev_usmmem ev) 24"
  by (simp_all add: usm_mem_ret_ev_def Let_def)

lemma set_umem_same [simp]: "set_umem (umem (usm (sw d))) d = d"
  by simp

lemma handle_mem_served:
  assumes f: "fault_on d w i b vaddr" and p: "pool (usm (sw d)) (x # fs) us"
    "alloc_ops_of (ev_origin (cnl_event (channel d w i))) (usm (sw d)) = alloc_policy_one"
    and a: "usmSubmitAllocEvent (en_subm e 0) (umem (usm (sw d))) (fault_event d w i x) = Some (0, m, ev')"
  shows "usm_handle_mem e w i d = Some (0, set_event w i ev' (upd_sw (served x ev' m) d))"
proof -
  let ?c = "channel d w i"
  have c: "usm_mem_check (umem (usm (sw d))) b = (1, umem (usm (sw d)))" using f by (simp add: fault_on_def usm_mem_check_def Let_def)
  have "usm_handle_events e (usm_mem_ret_ev (umem (usm (sw d))) (cnl_event ?c)) d = Some (0, ev', upd_sw (served x ev' m) d)"
    by (rule handle_events_alloc) (use f p a in \<open>simp_all add: fault_on_def fault_event_def Let_def\<close>)
  then show ?thesis
    using f c by (simp add: usm_handle_mem_def fault_on_def retrieve_mem_def Let_def)
qed

lemma handle_mem_pool:
  assumes "fault_on d w i b vaddr" "pool (usm (sw d)) (x # fs) us" "w < length (usmMemWorkers d)"
    and "alloc_ops_of (ev_origin (cnl_event (channel d w i))) (usm (sw d)) = alloc_policy_one"
    and "usmSubmitAllocEvent (en_subm e 0) (umem (usm (sw d))) (fault_event d w i x) = Some (0, m, ev')"
  shows "\<exists>d'. usm_handle_mem e w i d = Some (0, d') \<and> pool (usm (sw d')) fs (us @ [x]) \<and> umem (usm (sw d')) = m \<and>
    pagesList (usm (sw d')) = (pagesList (usm (sw d)))(node_page (usm (sw d)) x :=
      (page_of x (usm (sw d)))\<lparr>pg_virtualAddress := vaddr, pg_process := ev_origin (cnl_event (channel d w i))\<rparr>) \<and>
    ev_paddr (cnl_event (channel d' w i)) = pg_physicalAddress (page_of x (usm (sw d)))"
proof -
  have "ev_vaddr ev' = vaddr" "ev_origin ev' = ev_origin (cnl_event (channel d w i))"
    "ev_paddr ev' = basePFN (usm (sw d)) + node_page (usm (sw d)) x"
    using subm_keeps(1-3) [OF assms(5)] assms(1) by (simp_all add: fault_event_def fault_on_def Let_def)
  then show ?thesis
    using handle_mem_served [OF assms(1,2,4,5)] served_pool [OF assms(2), of ev' m] pool_node(4) [OF assms(2), of x] assms(3)
    by (simp add: served_def usmLinkPage_def Let_def page_of_def channel_upd_channel)
qed


section \<open>Birth of a thread\<close>

definition born :: "u64 \<Rightarrow> u32 \<Rightarrow> usm_channel \<Rightarrow> usm_channel" where
  "born m origin c = c\<lparr>cnl_ops := usm_cnl_mem_ops, cnl_type := RAM_BASED,
     cnl_event := (cnl_event c)\<lparr>ev_origin := origin, ev_type := ALLOC, ev_usmmem := m\<rparr>, cnl_handle_evt := Handle_mem\<rparr>"

lemma createUSMMemChannel_ok:
  assumes "unat (rd32 (umem (usm (sw d))) m 4092) = i" "i < MAX_UTHREADS" "w < length (usmMemWorkers d)"
  shows "createUSMMemChannel usm_cnl_mem_ops m w d =
    Some (let d' = set_umem (wr32 (umem (usm (sw d))) m 4 0) (uthread_create (cnl_id (channel d w i)) i
            (upd_channel w i (born m (rd32 (umem (usm (sw d))) m 0)) d));
          old = ev_usmmem (cnl_event (channel d w i))
     in d'\<lparr>unmapped := unmapped d @ (if old \<noteq> 0 then [old] else [])\<rparr>)"
proof -
  let ?o = "rd32 (umem (usm (sw d))) m 0"
  have "upd_channel w i (\<lambda>c. c\<lparr>cnl_handle_evt := Handle_mem\<rparr>) (upd_channel w i (\<lambda>c. c\<lparr>cnl_event := (cnl_event c)\<lparr>ev_usmmem := m\<rparr>\<rparr>)
     (upd_channel w i (\<lambda>c. c\<lparr>cnl_event := (cnl_event c)\<lparr>ev_type := ALLOC\<rparr>\<rparr>) (upd_channel w i (\<lambda>c. c\<lparr>cnl_event := (cnl_event c)\<lparr>ev_origin := ?o\<rparr>\<rparr>)
     (upd_channel w i (\<lambda>c. c\<lparr>cnl_type := RAM_BASED\<rparr>) (upd_channel w i (\<lambda>c. c\<lparr>cnl_ops := usm_cnl_mem_ops\<rparr>) d))))) =
     upd_channel w i (born m ?o) d"
    using assms(3) by (simp add: upd_channel_fuse born_def [abs_def])
  then show ?thesis
    using assms by (simp add: createUSMMemChannel_def uthread_create_def channel_upd_channel born_def Let_def)
qed

lemma new_thread_ok:
  assumes "ev_type ev = NEW_THREAD" "en_mmap e = Some m" "rd32 (umem (usm (sw d))) m 4000 = 0" "usmMemWorkers d \<noteq> []"
    and "unat (rd32 (umem (usm (sw d))) m 4092) = i" "i < MAX_UTHREADS"
  obtains d' where "usm_handle_events e ev d = Some (0, ev\<lparr>ev_usmmem := m\<rparr>, d')"
    "usmMemWorkers d' = usmMemWorkers (upd_channel 0 i (born m (ev_origin ev)) d)"
    "sw d' = upd_usm (\<lambda>u. u\<lparr>umem := wr32 (wr32 (wr32 (umem u) m 0 (ev_origin ev)) m 32 0) m 4 0\<rparr>) (sw d)"
    "unmapped d' = unmapped d @ (let old = ev_usmmem (cnl_event (channel d 0 i)) in if old \<noteq> 0 then [old] else [])"
proof -
  let ?m = "wr32 (wr32 (umem (usm (sw d))) m 0 (ev_origin ev)) m 32 0"
  let ?d = "set_umem ?m d"
  have l: "0 < length (usmMemWorkers d)" using assms(4) by simp
  then have w: "usmChooseWorker [0..<length (usmMemWorkers d)] 0 = Worker 0" by (simp add: usmChooseWorker_def upt_rec)
  have r: "rd32 ?m m 4092 = rd32 (umem (usm (sw d))) m 4092" "rd32 ?m m 0 = ev_origin ev" by (simp_all add: mem_simps)
  obtain d' where d': "createUSMMemChannel usm_cnl_mem_ops m 0 ?d = Some d'" "sw d' = upd_usm (\<lambda>u. u\<lparr>umem := wr32 ?m m 4 0\<rparr>) (sw d)"
    "usmMemWorkers d' = usmMemWorkers (upd_channel 0 i (born m (ev_origin ev)) ?d)"
    "unmapped d' = unmapped d @ (let old = ev_usmmem (cnl_event (channel d 0 i)) in if old \<noteq> 0 then [old] else [])"
    using createUSMMemChannel_ok [of ?d m i 0] assms(5,6) l r by (simp add: uthread_create_def Let_def)
  have "usm_handle_events e ev d = Some (0, ev\<lparr>ev_usmmem := m\<rparr>, d')"
    using assms(1-3) w d'(1) by (simp add: usm_handle_events_def handle_new_thread_def check_swap_in_def check_swap_out_def Let_def)
  moreover have "usmMemWorkers (upd_channel 0 i f (set_umem x d)) = usmMemWorkers (upd_channel 0 i f d)" for f x
    by (simp add: upd_channel_def)
  ultimately show ?thesis using that [of d'] d'(2-4) by simp
qed


section \<open>Events that go wrong\<close>


lemma freed_last:
  assumes p: "pool s (fs @ [x]) us"
  shows "pool (freed x s) (fs @ [x]) us"
proof -
  have f: "[freeList \<mapsto> fs @ [x], usedList \<mapsto> us] freeList = Some (fs @ x # [])" by simp
  have "heap_lists (list_move_tail x freeList (links s)) [freeList \<mapsto> fs @ [x], usedList \<mapsto> us]"
    by (rule lists_eq [OF lists_move(2) [OF poolD(1) [OF p] f, of freeList fs]]) simp_all
  then show ?thesis unfolding freed_def by (intro pool_cong [OF _ poolD(2) [OF p]]) (simp_all add: page_of_def)
qed

lemma freed_sel [simp]:
  "basePFN (freed x s) = basePFN s" "globalPagesNumber (freed x s) = globalPagesNumber s" "node_page (freed x s) = node_page s"
  "tables (freed x s) = tables s" "procDescList (freed x s) = procDescList s" "usedMemory (freed x s) = usedMemory s - SYS_PAGE_SIZE"
  by (simp_all add: freed_def)

lemma handle_events_free:
  assumes "ev_type ev = PHY_AS_CHANGE" "pool (usm (sw d)) fs us" "x \<in> set fs \<union> set us"
    "ev_paddr ev = basePFN (usm (sw d)) + node_page (usm (sw d)) x"
    "unat (basePFN (usm (sw d))) + unat (globalPagesNumber (usm (sw d))) < 2 ^ 64"
    "\<forall>p. alloc_ops_of p (usm (sw d)) = alloc_policy_one"
  shows "usm_handle_events e ev d = Some (0, ev, upd_sw (freed x) d)"
  using pool_event [OF assms(2-5)] pindex_free_node [OF assms(2-5)] assms(1,6)
  by (simp add: usm_handle_events_def usmPolicyDefinedPageIndexFree_def page_of_def check_swap_in_def check_swap_out_def Let_def)

text \<open>When \<open>poll\<close> fails (it is interrupted by a signal), the worker for freed pages handles
  its last event once more: the page that was freed is freed again, and the memory counted
  as used loses two pages for it.\<close>

theorem poll_error_frees_twice:
  assumes "pool (usm (sw d)) fs (a @ x # c)" "pfn = basePFN (usm (sw d)) + node_page (usm (sw d)) x"
    and "unat (basePFN (usm (sw d))) + unat (globalPagesNumber (usm (sw d))) < 2 ^ 64"
    and "\<forall>p. alloc_ops_of p (usm (sw d)) = alloc_policy_one" "res < 0"
  shows "\<exists>ev d'. usm_handle_evt_poll [freed_turn 1 POLLIN (Inr pfn) e, freed_turn res revents r e'] cnl d = Some (ev, d') \<and>
    pool (usm (sw d')) (fs @ [x]) (a @ c) \<and> usedMemory (usm (sw d')) = usedMemory (usm (sw d)) - 2 * SYS_PAGE_SIZE"
proof -
  let ?ev = "(cnl_event cnl)\<lparr>ev_origin := cnl_fd cnl, ev_paddr := pfn, ev_type := PHY_AS_CHANGE\<rparr>" and ?d1 = "upd_sw (freed x) d"
  have p1: "pool (usm (sw ?d1)) (fs @ [x]) (a @ c)" using freed_pool [OF assms(1)] by simp
  have h1: "usm_handle_events e ?ev d = Some (0, ?ev, ?d1)" by (rule handle_events_free [OF _ assms(1)]) (use assms in simp_all)
  have h2: "usm_handle_events e' ?ev ?d1 = Some (0, ?ev, upd_sw (freed x) ?d1)"
    by (rule handle_events_free [OF _ p1])
      (use assms alloc_ops_of_keeps [of "usm (sw ?d1)" "usm (sw d)"] in simp_all)
  have "usm_handle_evt_poll [freed_turn 1 POLLIN (Inr pfn) e, freed_turn res revents r e'] cnl d = Some (?ev, upd_sw (freed x) ?d1)"
    using h1 h2 assms(5) by (simp add: usm_handle_evt_poll_def freed_turn_def usm_poll_check_def POLLIN_def POLLPRI_def)
  then show ?thesis using freed_last [OF p1] by simp
qed

text \<open>Waking: exactly the workers that sleep with work pending are signalled, and none is left.\<close>

lemma waker_pass_wakes:
  "waker_pass ws = (map wt_thread (filter (\<lambda>w. \<not> wt_state w \<and> wt_com w \<noteq> 0) ws),
     map (\<lambda>w. w\<lparr>wt_state := wt_state w \<or> wt_com w \<noteq> 0\<rparr>) ws)"
  by (induction ws) auto

section \<open>Witnesses\<close>

lemma rd_zero: "rd32 (\<lambda>_. 0) b off = 0" "rd64 (\<lambda>_. 0) b off = 0"
  by (simp_all add: rd32_def rd64_def rd_def upt_rec)

text \<open>A thread with a fault at address 0x5000 on channel 3.\<close>

definition fault_mem :: mem where
  "fault_mem = wr32 (wr64 (\<lambda>_. 0) 4096 8 0x5000) 4096 4 1"

definition fault_daemon :: daemon where
  "fault_daemon = upd_channel 0 3 (born 4096 5) (set_umem fault_mem (daemon_of pool0))"

lemma fault_daemon_fault:
  obtains m e where "fault_on fault_daemon 0 3 4096 0x5000" "pool (usm (sw fault_daemon)) [64, 128] []"
    "0 < length (usmMemWorkers fault_daemon)"
    "alloc_ops_of (ev_origin (cnl_event (channel fault_daemon 0 3))) (usm (sw fault_daemon)) = alloc_policy_one"
    "usmSubmitAllocEvent (en_subm env0 0) (umem (usm (sw fault_daemon))) (fault_event fault_daemon 0 3 64) = Some (0, m, e)"
    "channel fault_daemon 0 3 = born 4096 5 channel0" "node_page (usm (sw fault_daemon)) = node_page pool0"
proof -
  let ?d = fault_daemon
  have w: "0 < length (usmMemWorkers (daemon_of pool0))" by (simp add: daemon_of_def)
  have c: "channel ?d 0 3 = born 4096 5 channel0" by (simp add: fault_daemon_def channel_upd_channel daemon_of_def)
  have s: "usm (sw ?d) = (usm (sw (daemon_of pool0)))\<lparr>umem := fault_mem\<rparr>" by (simp add: fault_daemon_def)
  have f: "fault_on ?d 0 3 4096 0x5000"
    unfolding fault_on_def c s by (simp add: born_def channel0_def fault_mem_def mem_simps rd_zero Let_def)
  have p: "pool (usm (sw ?d)) [64, 128] []" using pool0_pool by (simp add: s pool_def nodes_ok_def page_of_def daemon_of_def swap_of_def)
  have a: "alloc_ops_of (ev_origin (cnl_event (channel ?d 0 3))) (usm (sw ?d)) = alloc_policy_one"
    using alloc_ops_of_keeps [of "usm (sw ?d)" "usm (sw (daemon_of pool0))"] daemon_of_policy [of pool0] by (simp add: s)
  have "ev_usmmem (fault_event ?d 0 3 64) = 4096" by (simp add: fault_event_def c born_def)
  then obtain m e where "usmSubmitAllocEvent (en_subm env0 0) (umem (usm (sw ?d))) (fault_event ?d 0 3 64) = Some (0, m, e)"
    using answer3_takes [of "fault_event ?d 0 3 64"] by (fastforce simp: env0_def)
  then show ?thesis using that f p a c w by (simp add: fault_daemon_def)
qed



definition turn0 :: "int \<Rightarrow> fd_turn" where
  "turn0 res = \<lparr>ft_res = res, ft_revents = POLLIN, ft_read = (\<lambda>_. Inr (Fork 6)), ft_env = env0\<rparr>"


theorem poll_error_frees_twice_witness:
  "\<exists>u pfn ev d'. pool u [128] [64] \<and>
     usm_handle_evt_poll [freed_turn 1 POLLIN (Inr pfn) env0, freed_turn (- 1) 0 (Inl 4) env0] channel0 (daemon_of u) = Some (ev, d') \<and>
     usedMemory (usm (sw d')) = usedMemory u - 8192"
proof -
  obtain e u where u: "pool u [128] [64]" "basePFN u = 100" "globalPagesNumber u = 2" "procDescList u = procDescList state0" by (rule pool0_alloc)
  have p: "pool (usm (sw (daemon_of u))) [128] ([] @ 64 # [])" using u(1) by simp
  show ?thesis
    using poll_error_frees_twice [OF p refl, of "- 1" env0 0 "Inl 4" env0 channel0] daemon_of_policy [OF u(4)] u
    by (fastforce simp: SYS_PAGE_SIZE_def)
qed

end
