(* ===== verification/Sched.thy ===== *)
theory Sched
  imports Channels
begin

text \<open>
  The scheduler of user threads (\<open>impl/usm/sched.c\<close>, in the build without inner user
  threads): \<open>setSched\<close> for the first worker, \<open>soldiers\<close> for those that are added, the user
  thread \<open>usm_mem_worker_handler_singular\<close> of a channel, and \<open>usm_yield\<close>.  Switching to a
  user thread and back is one call of its \<open>run\<close>; whether it came back finished is its
  state.  The locale \<open>user_threads\<close> is what the scheduler relies on; it is interpreted on
  the channels' handlers here and on interleaved allocations in \<open>Coroutines\<close>.  A user
  thread that never switches back is \<open>None\<close>.
\<close>

section \<open>State\<close>

text \<open>A \<open>vcpu_t\<close>: the pending events it works on, the current user thread, the states of its
  user threads (true for 1), and what the user threads work on.\<close>

record 'w vcpu =
  tempEvents :: u32
  current_uthread :: nat
  ustate :: "nat \<Rightarrow> bool"
  work :: 'w

definition NCYCLESLEEP :: nat where "NCYCLESLEEP = 100000"

fun get_vcpu_id :: "'t list \<Rightarrow> 't \<Rightarrow> nat" where
  "get_vcpu_id [] thread = 0"
| "get_vcpu_id (v # vs) thread = (if v \<noteq> thread then Suc (get_vcpu_id vs thread) else 0)"

text \<open>Whether \<open>usm_yield\<close> (and the signal handler \<open>scheduler_handler\<close>) switches to the
  scheduler: only when another user thread has something to do.\<close>

definition usm_yield :: "'w vcpu \<Rightarrow> bool" where
  "usm_yield s \<longleftrightarrow> pop_bit (current_uthread s) (tempEvents s) \<noteq> 0"

section \<open>The loops\<close>

definition serve_one :: "(nat \<Rightarrow> 'w vcpu \<Rightarrow> 'w vcpu option) \<Rightarrow> nat \<Rightarrow> 'w vcpu \<Rightarrow> 'w vcpu option" where
  "serve_one run i s = do {
     let s = s\<lparr>current_uthread := i\<rparr>;
     let s = s\<lparr>ustate := (ustate s)(i := True)\<rparr>;
     s \<leftarrow> run i s;
     Some (if \<not> ustate s i then s\<lparr>tempEvents := pop_bit i (tempEvents s)\<rparr> else s)
   }"

text \<open>The inner loop, over a copy of the pending events.\<close>

partial_function (option) serve_pass :: "(nat \<Rightarrow> 'w vcpu \<Rightarrow> 'w vcpu option) \<Rightarrow> u32 \<Rightarrow> 'w vcpu \<Rightarrow> 'w vcpu option" where
  "serve_pass run todo s =
    (if todo = 0 then Some s
     else Option.bind (serve_one run (ffs todo - 1) s) (\<lambda>s. serve_pass run (pop_bit (ffs todo - 1) todo) s))"

text \<open>The loop around it: after the second pass (\<open>receiveOtherFaults\<close>) control goes back to
  the label \<open>rcv\<close>.\<close>

definition dispatch :: "(nat \<Rightarrow> 'w vcpu \<Rightarrow> 'w vcpu option) \<Rightarrow> 'w vcpu \<Rightarrow> 'w vcpu option" where
  "dispatch run s =
    (if tempEvents s = 0 then Some s
     else do {
       s \<leftarrow> serve_pass run (tempEvents s) s;
       (if tempEvents s = 0 then Some s else serve_pass run (tempEvents s) s)
     })"

text \<open>A turn from the label \<open>rcv\<close>, for the value \<open>com\<close> of the shared word: whether the worker
  goes to sleep, the rounds it had nothing to do, and the state.\<close>

definition idle_turn :: "nat \<Rightarrow> 'w vcpu \<Rightarrow> bool \<times> nat \<times> 'w vcpu" where
  "idle_turn rounds s = (if rounds = NCYCLESLEEP then (True, 0, s) else (False, rounds + 1, s))"

definition setSched_turn ::
  "(nat \<Rightarrow> 'w vcpu \<Rightarrow> 'w vcpu option) \<Rightarrow> u32 \<Rightarrow> nat \<Rightarrow> 'w vcpu \<Rightarrow> (bool \<times> nat \<times> 'w vcpu) option" where
  "setSched_turn run com rounds s =
    (let s = s\<lparr>tempEvents := tempEvents s OR com\<rparr>
     in if tempEvents s = 0 then Some (idle_turn rounds s)
        else Option.bind (dispatch run s) (\<lambda>s. Some (False, rounds, s)))"

definition soldiers_turn ::
  "(nat \<Rightarrow> 'w vcpu \<Rightarrow> 'w vcpu option) \<Rightarrow> u32 \<Rightarrow> nat \<Rightarrow> 'w vcpu \<Rightarrow> (bool \<times> nat \<times> 'w vcpu) option" where
  "soldiers_turn run com rounds s =
    (let s = s\<lparr>tempEvents := com\<rparr>
     in if tempEvents s = 0 then Some (idle_turn rounds s)
        else Option.bind (dispatch run s) (\<lambda>s. Some (False, rounds, s)))"

section \<open>The user thread of a channel\<close>

text \<open>One run of \<open>usm_mem_worker_handler_singular\<close> for channel \<open>chn\<close> of worker \<open>w\<close>, with the
  whole handler in one piece: it waits for ever on a channel that is not registered.\<close>

definition singular :: "(nat \<Rightarrow> evt_env) \<Rightarrow> nat \<Rightarrow> nat \<Rightarrow> daemon vcpu \<Rightarrow> daemon vcpu option" where
  "singular e w chn s =
    (if ev_usmmem (cnl_event (channel (work s) w chn)) = 0 then None
     else case cnl_handle_evt (channel (work s) w chn) of
       Handle_mem \<Rightarrow> do {
         (ret, d) \<leftarrow> usm_handle_mem (e chn) w chn (work s);
         Some (s\<lparr>work := d, ustate := (ustate s)(chn := False)\<rparr>)
       }
     | _ \<Rightarrow> None)"

text \<open>The set-up loops of \<open>soldiers\<close> and \<open>setSched\<close>: no user thread has a descriptor yet, and
  the events of the first worker's channels are faults.\<close>

fun soldiers_init :: "u32 \<Rightarrow> nat \<Rightarrow> daemon \<Rightarrow> daemon" where
  "soldiers_init v 0 d = d"
| "soldiers_init v (Suc n) d = (let d = soldiers_init v n d in d\<lparr>ioctl_fd := (ioctl_fd d)(v := (ioctl_fd d v)(n := - 2))\<rparr>)"

fun setSched_init :: "nat \<Rightarrow> daemon \<Rightarrow> daemon" where
  "setSched_init 0 d = d"
| "setSched_init (Suc n) d =
    (let d = setSched_init n d;
         d = d\<lparr>ioctl_fd := (ioctl_fd d)(0 := (ioctl_fd d 0)(n := - 2))\<rparr>
     in upd_channel 0 n (\<lambda>c. c\<lparr>cnl_event := (cnl_event c)\<lparr>ev_type := ALLOC\<rparr>\<rparr>) d)"

section \<open>What the scheduler relies on\<close>

text \<open>Serving a list of channels one after the other: what a pass should do.\<close>

fun serve_list :: "(nat \<Rightarrow> 'w vcpu \<Rightarrow> 'w vcpu option) \<Rightarrow> nat list \<Rightarrow> 'w vcpu \<Rightarrow> 'w vcpu option" where
  "serve_list run [] s = Some s"
| "serve_list run (i # js) s = Option.bind (serve_one run i s) (serve_list run js)"

text \<open>A pass serves the pending channels.\<close>

lemma serve_pass_list: "serve_pass run todo s = serve_list run (pending todo) s"
proof (induction "pending todo" arbitrary: todo s)
  case Nil
  then have "todo = 0" using pending_empty by metis
  then show ?case by (subst serve_pass.simps) (simp add: pending_def)
next
  case (Cons i js)
  then have "todo \<noteq> 0" using pending_empty by (metis list.distinct(1))
  note p = pending_Cons [OF this]
  have "serve_pass run (pop_bit (ffs todo - 1) todo) s' = serve_list run (pending (pop_bit (ffs todo - 1) todo)) s'" for s'
    using Cons p by (metis list.inject)
  then have "serve_pass run (pop_bit (ffs todo - 1) todo) = serve_list run (pending (pop_bit (ffs todo - 1) todo))" by (rule ext)
  then show ?case using \<open>todo \<noteq> 0\<close> by (subst serve_pass.simps, subst p) simp
qed

locale user_threads =
  fixes run :: "nat \<Rightarrow> 'w vcpu \<Rightarrow> 'w vcpu option"
  assumes run_events: "run i s = Some s' \<Longrightarrow> tempEvents s' = tempEvents s"
    and run_others: "run i s = Some s' \<Longrightarrow> j \<noteq> i \<Longrightarrow> ustate s' j = ustate s j"
begin

lemma serve_one_Some:
  assumes "serve_one run i s = Some s'"
  shows "ustate s' = ustate (the (run i (s\<lparr>current_uthread := i, ustate := (ustate s)(i := True)\<rparr>)))"
    "pending (tempEvents s') = filter (\<lambda>j. j = i \<longrightarrow> ustate s' j) (pending (tempEvents s))"
    "j \<noteq> i \<Longrightarrow> ustate s' j = ustate s j"
proof -
  obtain t where t: "run i (s\<lparr>current_uthread := i, ustate := (ustate s)(i := True)\<rparr>) = Some t"
    "s' = (if \<not> ustate t i then t\<lparr>tempEvents := pop_bit i (tempEvents t)\<rparr> else t)"
    using assms by (auto simp: serve_one_def Let_def bind_eq_Some_conv)
  show "ustate s' = ustate (the (run i (s\<lparr>current_uthread := i, ustate := (ustate s)(i := True)\<rparr>)))" using t by simp
  show "pending (tempEvents s') = filter (\<lambda>j. j = i \<longrightarrow> ustate s' j) (pending (tempEvents s))"
    using t run_events [OF t(1)] by (auto intro!: filter_cong filter_True [symmetric])
  show "j \<noteq> i \<Longrightarrow> ustate s' j = ustate s j" using t run_others [OF t(1), of j] by simp
qed

text \<open>After a pass the pending channels are those whose user thread is not finished.\<close>

lemma serve_list_pending:
  assumes "serve_list run js s = Some s'" "distinct js"
  shows "pending (tempEvents s') = filter (\<lambda>j. j \<in> set js \<longrightarrow> ustate s' j) (pending (tempEvents s)) \<and>
    (\<forall>j. j \<notin> set js \<longrightarrow> ustate s' j = ustate s j)"
  using assms
proof (induction js arbitrary: s)
  case (Cons i js)
  then obtain t where t: "serve_one run i s = Some t" "serve_list run js t = Some s'" by (auto simp: bind_eq_Some_conv)
  have I: "pending (tempEvents s') = filter (\<lambda>j. j \<in> set js \<longrightarrow> ustate s' j) (pending (tempEvents t))"
    "\<And>j. j \<notin> set js \<Longrightarrow> ustate s' j = ustate t j" using Cons.IH [OF t(2)] Cons.prems(2) by auto
  have "ustate s' i = ustate t i" using I(2) [of i] Cons.prems(2) by simp
  then have "pending (tempEvents s') = filter (\<lambda>j. j \<in> set (i # js) \<longrightarrow> ustate s' j) (pending (tempEvents s))"
    unfolding I(1) serve_one_Some(2) [OF t(1)] by (auto simp: intro!: filter_cong)
  then show ?case using I(2) serve_one_Some(3) [OF t(1)] by auto
qed simp

lemma serve_pass_pending:
  assumes "serve_pass run (tempEvents s) s = Some s'"
  shows "pending (tempEvents s') = filter (ustate s') (pending (tempEvents s))"
  using serve_list_pending [OF assms [unfolded serve_pass_list]] by (auto intro!: filter_cong)

lemma dispatch_pending:
  assumes d: "dispatch run s = Some s'"
  shows "pending (tempEvents s') = filter (ustate s') (pending (tempEvents s))"
proof (cases "tempEvents s = 0")
  case True
  then show ?thesis using d by (simp add: dispatch_def pending_def)
next
  case False
  then obtain t where t: "serve_pass run (tempEvents s) s = Some t"
    "(if tempEvents t = 0 then Some t else serve_pass run (tempEvents t) t) = Some s'"
    using d by (auto simp: dispatch_def bind_eq_Some_conv)
  note p1 = serve_pass_pending [OF t(1)]
  show ?thesis
  proof (cases "tempEvents t = 0")
    case True
    then show ?thesis using t p1 by simp
  next
    case False
    then have t2: "serve_list run (pending (tempEvents t)) t = Some s'" using t(2) by (simp add: serve_pass_list)
    have "pending (tempEvents s') = filter (ustate s') (filter (ustate t) (pending (tempEvents s)))"
      using serve_pass_pending [of t s'] t(2) False p1 by simp
    moreover have "ustate t j" if "j \<in> set (pending (tempEvents s))" "ustate s' j" for j
      using serve_list_pending [OF t2] p1 that by auto
    ultimately show ?thesis by (auto intro!: filter_cong)
  qed
qed

text \<open>When every user thread comes back finished, one pass is enough.\<close>

lemma dispatch_finished:
  assumes fin: "\<And>i s s'. run i s = Some s' \<Longrightarrow> \<not> ustate s' i" and d: "dispatch run s = Some s'"
  shows "tempEvents s' = 0 \<and> serve_list run (pending (tempEvents s)) s = Some s'"
proof (cases "tempEvents s = 0")
  case True
  then show ?thesis using d by (simp add: dispatch_def pending_def)
next
  case False
  obtain t where t: "serve_pass run (tempEvents s) s = Some t" using d False by (auto simp: dispatch_def bind_eq_Some_conv)
  have f: "\<not> ustate t i" if "i \<in> set (pending (tempEvents s))" for i
  proof -
    have "\<not> ustate t i" if "serve_list run js s = Some t" "i \<in> set js" "distinct js" for js s
      using that
    proof (induction js arbitrary: s)
      case (Cons j js)
      then obtain r where r: "serve_one run j s = Some r" "serve_list run js r = Some t" by (auto simp: bind_eq_Some_conv)
      show ?case
      proof (cases "i = j")
        case True
        have "\<not> ustate r j" using r(1) fin by (auto simp: serve_one_def Let_def bind_eq_Some_conv)
        then show ?thesis using serve_list_pending [OF r(2)] Cons.prems(3) True by simp
      qed (use Cons r in auto)
    qed simp
    from this [OF t [unfolded serve_pass_list] that] show ?thesis by simp
  qed
  have "pending (tempEvents t) = []" using serve_pass_pending [OF t] f by (simp add: filter_empty_conv)
  then have "tempEvents t = 0" by simp
  then show ?thesis using d t False by (simp add: dispatch_def serve_pass_list)
qed

end

interpretation channels: user_threads "singular e w" for e w
  by unfold_locales (auto simp: singular_def bind_eq_Some_conv split: if_splits channel_handler.splits)

section \<open>Properties\<close>

text \<open>The inner loop of the scheduler, which looks for the lowest bit of a copy of the
  pending events and clears it, gives every pending channel exactly one run, in ascending
  order of the channels, and ends when those runs end.\<close>

theorem serve_pass_in_order: "serve_pass run todo s = serve_list run (filter (bit todo) [0..<32]) s"
  using serve_pass_list [of run todo s] by (simp add: pending_def)


text \<open>The channels of a worker, handled one after the other.\<close>

fun handle_list :: "(nat \<Rightarrow> evt_env) \<Rightarrow> nat \<Rightarrow> nat list \<Rightarrow> daemon \<Rightarrow> daemon option" where
  "handle_list e w [] d = Some d"
| "handle_list e w (i # js) d = Option.bind (usm_handle_mem (e i) w i d) (\<lambda>(r, d). handle_list e w js d)"

lemma serve_list_handles:
  "serve_list (singular e w) js s = Some s' \<Longrightarrow> handle_list e w js (work s) = Some (work s')"
proof (induction js arbitrary: s)
  case (Cons i js)
  then obtain t where t: "serve_one (singular e w) i s = Some t" "serve_list (singular e w) js t = Some s'"
    by (auto simp: bind_eq_Some_conv)
  then obtain r where "usm_handle_mem (e i) w i (work s) = Some (r, work t)"
    by (auto simp: serve_one_def singular_def Let_def bind_eq_Some_conv split: if_splits channel_handler.splits)
  then show ?case using Cons.IH [OF t(2)] by simp
qed simp


definition vcpu0 :: "daemon vcpu" where
  "vcpu0 = \<lparr>tempEvents = 0, current_uthread = 0, ustate = (\<lambda>_. False), work = fault_daemon\<rparr>"

lemma pending_8: "pending 8 = [3]"
  by code_simp



end
