(* ===== verification/Coroutines.thy ===== *)
theory Coroutines
  imports Sched
begin

text \<open>
  Interleaved allocations.  A user thread that serves a fault waits for the answer of the
  task inside \<open>usm_mem_subm_ev\<close> and lets the other user threads run meanwhile
  (\<open>usm_yield\<close>), so that up to 32 allocations of \<open>basic_alloc_uniq\<close> are under way at once,
  between them the frees of the worker for freed pages and whatever the tasks do to the
  shared pages.  Here the allocation is split at its waiting point; the split is proved
  to be the allocation of \<open>Alloc_Policy\<close>, and the step relation \<open>co_step\<close> interleaves its
  parts.
\<close>

section \<open>The allocation in two parts\<close>

definition alloc_begin :: "usm_event \<Rightarrow> usm_state \<Rightarrow> (addr \<times> usm_event \<times> usm_state) option" where
  "alloc_begin ev s =
    (if list_empty freeList (links s) then None
     else
       let freeListNode = list_first_entry freeList (links s);
           s = s\<lparr>usedMemory := usedMemory s + ucast (globalPageSize s)\<rparr>;
           s = upd_links (list_del freeListNode) s;
           ev = ev\<lparr>ev_paddr := pg_physicalAddress (page_of freeListNode s)\<rparr>;
           ev = ev\<lparr>ev_length := 0\<rparr>
       in Some (freeListNode, ev, s\<lparr>umem := subm_start (umem s) ev\<rparr>))"

definition alloc_end :: "addr \<Rightarrow> usm_event \<Rightarrow> usm_state \<Rightarrow> u32 \<times> usm_event \<times> usm_state" where
  "alloc_end freeListNode ev s =
    (let st = rd32 (umem s) (ev_usmmem ev) 4;
         res = (if st = 3 then 0 else st);
         ev = ev\<lparr>ev_flags := rd64 (umem s) (ev_usmmem ev) 36\<rparr>;
         s = s\<lparr>umem := wr32 (umem s) (ev_usmmem ev) 4 0\<rparr>
     in if res \<noteq> 0
        then (let s = upd_links (list_add freeListNode freeList) s
              in (res, ev, s\<lparr>usedMemory := usedMemory s - ucast (globalPageSize s)\<rparr>))
        else (let s = usmLinkPage (node_page s freeListNode) ev s
              in (0, ev, upd_links (list_add_tail freeListNode usedList) s)))"

text \<open>The allocation with one page is its first part, the wait for the task's answer, and
  its second part, in this order: splitting it at the waiting point changes nothing.\<close>

theorem basic_alloc_uniq_parts:
  "basic_alloc_uniq env ev s =
    (case alloc_begin ev s of
       None \<Rightarrow> Some (1, ev, s)
     | Some (x, ev', s') \<Rightarrow>
         Option.bind (subm_wait env (ev_usmmem ev) 0 (umem s')) (\<lambda>m. Some (alloc_end x ev' (s'\<lparr>umem := m\<rparr>))))"
proof (cases "list_empty freeList (links s)")
  case False
  let ?x = "list_first_entry freeList (links s)"
  let ?ev = "ev\<lparr>ev_paddr := pg_physicalAddress (page_of ?x s), ev_length := 0\<rparr>"
  have "usmSubmitAllocEvent env (umem s) ?ev = Option.bind (subm_wait env (ev_usmmem ev) 0 (subm_start (umem s) ?ev))
      (\<lambda>m. Some (if rd32 m (ev_usmmem ev) 4 = 3 then 0 else rd32 m (ev_usmmem ev) 4, wr32 m (ev_usmmem ev) 4 0,
        ?ev\<lparr>ev_flags := rd64 m (ev_usmmem ev) 36\<rparr>))"
    by (simp add: usmSubmitAllocEvent_def usm_mem_subm_ev_def subm_start_def Let_def)
  then show ?thesis
    using False
    by (cases "subm_wait env (ev_usmmem ev) 0 (subm_start (umem s) ?ev)")
      (simp_all add: basic_alloc_uniq_def alloc_begin_def alloc_end_def page_of_def Let_def usmLinkPage_def)
qed (simp add: basic_alloc_uniq_def alloc_begin_def)

section \<open>Interleavings\<close>

text \<open>\<open>co_pc i\<close> is the page and the event of user thread \<open>i\<close> while it waits; \<open>co_event i\<close> the
  event it is to serve.\<close>

record co_state =
  co_usm :: usm_state
  co_event :: "nat \<Rightarrow> usm_event"
  co_pc :: "nat \<Rightarrow> (addr \<times> usm_event) option"

inductive co_step :: "co_state \<Rightarrow> co_state \<Rightarrow> bool" where
  co_begin: "i < 32 \<Longrightarrow> co_pc s i = None \<Longrightarrow> alloc_begin ev (co_usm s) = Some (x, ev', u) \<Longrightarrow>
    co_step s (s\<lparr>co_usm := u, co_pc := (co_pc s)(i \<mapsto> (x, ev'))\<rparr>)"
| co_end: "i < 32 \<Longrightarrow> co_pc s i = Some (x, ev) \<Longrightarrow> rd32 (umem (co_usm s)) (ev_usmmem ev) 4 \<noteq> 2 \<Longrightarrow>
    alloc_end x ev (co_usm s) = (r, ev', u) \<Longrightarrow> co_step s (s\<lparr>co_usm := u, co_pc := (co_pc s)(i := None)\<rparr>)"
| co_task: "co_step s (s\<lparr>co_usm := (co_usm s)\<lparr>umem := m\<rparr>\<rparr>)"
| co_free: "is_list (links (co_usm s)) usedList us \<Longrightarrow> x \<in> set us \<Longrightarrow> ev_paddr ev = basePFN (co_usm s) + node_page (co_usm s) x \<Longrightarrow>
    pindex_free ev (co_usm s) = Some (r, ev', u) \<Longrightarrow> co_step s (s\<lparr>co_usm := u\<rparr>)"

inductive_cases co_stepE: "co_step s s'"

text \<open>The pages under way.\<close>

abbreviation one_held :: "(addr \<times> usm_event) option \<Rightarrow> addr multiset" where
  "one_held p \<equiv> (case p of None \<Rightarrow> {#} | Some (x, _) \<Rightarrow> {#x#})"

definition held :: "(nat \<Rightarrow> (addr \<times> usm_event) option) \<Rightarrow> addr multiset" where
  "held pc = (\<Sum>i < 32. one_held (pc i))"

lemma held_split: "i < 32 \<Longrightarrow> held pc = one_held (pc i) + (\<Sum>j \<in> {..<32} - {i}. one_held (pc j))"
  unfolding held_def by (rule sum.remove) simp_all

lemma held_upd: "i < 32 \<Longrightarrow> held (pc(i := v)) + one_held (pc i) = held pc + one_held v"
proof -
  assume i: "i < 32"
  have "(\<Sum>j \<in> {..<32} - {i}. one_held ((pc(i := v)) j)) = (\<Sum>j \<in> {..<32} - {i}. one_held (pc j))"
    by (rule sum.cong) auto
  then show ?thesis using held_split [OF i, of pc] held_split [OF i, of "pc(i := v)"] by (simp only: fun_upd_same ac_simps)
qed

lemma held_begin: "i < 32 \<Longrightarrow> pc i = None \<Longrightarrow> held (pc(i \<mapsto> (x, ev))) = add_mset x (held pc)"
  using held_upd [of i pc "Some (x, ev)"] by simp

lemma held_end: "i < 32 \<Longrightarrow> pc i = Some (x, ev) \<Longrightarrow> held pc = add_mset x (held (pc(i := None)))"
  using held_upd [of i pc None] by simp

lemma held_two:
  assumes "i < 32" "j < 32" "i \<noteq> j" "pc i = Some (x, e)" "pc j = Some (y, f)"
  shows "{#x, y#} \<subseteq># held pc"
proof -
  have "held pc = add_mset x (held (pc(i := None)))" by (rule held_end) (use assms in simp_all)
  also have "held (pc(i := None)) = add_mset y (held (pc(i := None, j := None)))"
    by (rule held_end) (use assms in simp_all)
  finally show ?thesis by simp
qed

section \<open>The invariant\<close>

definition co_inv :: "addr multiset \<Rightarrow> u64 \<Rightarrow> u32 \<Rightarrow> co_state \<Rightarrow> bool" where
  "co_inv M base n s \<longleftrightarrow> globalPageSize (co_usm s) = 4096 \<and> basePFN (co_usm s) = base \<and> globalPagesNumber (co_usm s) = n \<and>
     nodes_ok (set_mset M) (co_usm s) \<and>
     (\<forall>i x ev. i < 32 \<longrightarrow> co_pc s i = Some (x, ev) \<longrightarrow> ev_paddr ev = base + node_page (co_usm s) x) \<and>
     (\<exists>fs us. heap_lists (links (co_usm s)) [freeList \<mapsto> fs, usedList \<mapsto> us] \<and> mset fs + mset us + held (co_pc s) = M \<and>
       usedMemory (co_usm s) = SYS_PAGE_SIZE * of_nat (length us + size (held (co_pc s))))"

text \<open>The pages are the nodes of a set-up pool: none twice, none a list head.\<close>

definition proper :: "addr multiset \<Rightarrow> bool" where
  "proper M \<longleftrightarrow> (\<forall>x. count M x \<le> 1) \<and> freeList \<notin># M \<and> usedList \<notin># M"

lemma proper_unlisted:
  assumes "proper M" "mset fs + mset us + add_mset x H = M"
  shows "unlisted x [freeList \<mapsto> fs, usedList \<mapsto> us]" "x \<notin> set fs" "x \<notin> set us"
proof -
  have "count M x \<le> 1" using assms(1) by (simp add: proper_def)
  moreover have "count M x = count (mset fs) x + count (mset us) x + Suc (count H x)" by (subst assms(2) [symmetric]) simp
  ultimately have "count (mset fs) x = 0" "count (mset us) x = 0" by linarith+
  then show f: "x \<notin> set fs" "x \<notin> set us" by (metis count_eq_zero_iff set_mset_mset)+
  have "x \<noteq> freeList" "x \<noteq> usedList" using assms by (auto simp: proper_def)
  then show "unlisted x [freeList \<mapsto> fs, usedList \<mapsto> us]" using f by (auto simp: unlisted_def split: if_splits)
qed

definition keeps_pages :: "usm_state \<Rightarrow> usm_state \<Rightarrow> bool" where
  "keeps_pages s s' \<longleftrightarrow> node_page s' = node_page s \<and> basePFN s' = basePFN s \<and> globalPagesNumber s' = globalPagesNumber s \<and>
     globalPageSize s' = globalPageSize s \<and> (\<forall>i. pg_node (pagesList s' i) = pg_node (pagesList s i)) \<and>
     (\<forall>i. pg_physicalAddress (pagesList s' i) = pg_physicalAddress (pagesList s i))"

lemma co_invD:
  assumes "co_inv M base n s"
  obtains fs us where "heap_lists (links (co_usm s)) [freeList \<mapsto> fs, usedList \<mapsto> us]" "mset fs + mset us + held (co_pc s) = M"
    "usedMemory (co_usm s) = SYS_PAGE_SIZE * of_nat (length us + size (held (co_pc s)))" "pool (co_usm s) fs us"
proof -
  obtain fs us where f: "heap_lists (links (co_usm s)) [freeList \<mapsto> fs, usedList \<mapsto> us]" "mset fs + mset us + held (co_pc s) = M"
    "usedMemory (co_usm s) = SYS_PAGE_SIZE * of_nat (length us + size (held (co_pc s)))"
    using assms by (auto simp: co_inv_def)
  have "set fs \<union> set us \<subseteq> set_mset M" using f(2) by (metis Un_iff set_mset_mset set_mset_union subsetI)
  then have "nodes_ok (set fs \<union> set us) (co_usm s)" using assms by (auto simp: co_inv_def nodes_ok_def)
  then show ?thesis using that f by (simp add: pool_def)
qed

text \<open>What a step has to show.\<close>

lemma co_invI:
  assumes I: "co_inv M base n s" and k: "keeps_pages (co_usm s) u"
    and l: "heap_lists (links u) [freeList \<mapsto> fs, usedList \<mapsto> us]" and M: "mset fs + mset us + held pc = M"
    and c: "usedMemory u = SYS_PAGE_SIZE * of_nat (length us + size (held pc))"
    and pc: "\<And>i x ev. i < 32 \<Longrightarrow> pc i = Some (x, ev) \<Longrightarrow> co_pc s i = Some (x, ev) \<or> ev_paddr ev = base + node_page (co_usm s) x"
  shows "co_inv M base n (s\<lparr>co_usm := u, co_pc := pc\<rparr>)"
proof -
  have "nodes_ok (set_mset M) u" using I k by (auto simp: co_inv_def keeps_pages_def nodes_ok_def page_of_def)
  moreover have "ev_paddr ev = base + node_page u x" if "i < 32" "pc i = Some (x, ev)" for i x ev
    using pc [OF that] I k that(1) by (auto simp: co_inv_def keeps_pages_def)
  moreover have "globalPageSize u = 4096" "basePFN u = base" "globalPagesNumber u = n" using I k by (simp_all add: co_inv_def keeps_pages_def)
  ultimately show ?thesis using l M c unfolding co_inv_def by (auto simp: simp del: of_nat_add)
qed

lemma co_inv_begin:
  assumes I: "co_inv M base n s" and i: "i < 32" "co_pc s i = None" and a: "alloc_begin ev (co_usm s) = Some (x, ev', u)"
  shows "co_inv M base n (s\<lparr>co_usm := u, co_pc := (co_pc s)(i \<mapsto> (x, ev'))\<rparr>)"
proof -
  obtain fs us where L: "heap_lists (links (co_usm s)) [freeList \<mapsto> fs, usedList \<mapsto> us]" "mset fs + mset us + held (co_pc s) = M"
    "usedMemory (co_usm s) = SYS_PAGE_SIZE * of_nat (length us + size (held (co_pc s)))" "pool (co_usm s) fs us"
    by (rule co_invD [OF I])
  obtain fs' where fs: "fs = x # fs'"
    using a poolD(3) [OF L(4)] lists_first [OF L(1), of freeList]
    by (cases fs) (auto simp: alloc_begin_def Let_def split: if_splits)
  have fst: "list_first_entry freeList (links (co_usm s)) = x" by (rule lists_first [OF L(1)]) (simp add: fs)
  have g: "globalPageSize (co_usm s) = 4096" using I by (simp add: co_inv_def)
  let ?ev = "ev\<lparr>ev_paddr := pg_physicalAddress (page_of x (co_usm s)), ev_length := 0\<rparr>"
  have "\<not> list_empty freeList (links (co_usm s))" using poolD(3) [OF L(4)] fs by simp
  then have "Some (x, ?ev, (co_usm s)\<lparr>usedMemory := usedMemory (co_usm s) + 4096, links := list_del x (links (co_usm s)),
      umem := subm_start (umem (co_usm s)) ?ev\<rparr>) = Some (x, ev', u)"
    unfolding a [symmetric] using fst g by (simp add: alloc_begin_def Let_def page_of_def)
  then have u: "u = (co_usm s)\<lparr>usedMemory := usedMemory (co_usm s) + 4096, links := list_del x (links (co_usm s)),
      umem := subm_start (umem (co_usm s)) ?ev\<rparr>" and p: "ev_paddr ev' = pg_physicalAddress (page_of x (co_usm s))"
    by auto
  have x: "ev_paddr ev' = base + node_page (co_usm s) x" using p pool_node(4) [OF L(4), of x] fs I by (simp add: co_inv_def)
  have f: "[freeList \<mapsto> fs, usedList \<mapsto> us] freeList = Some ([] @ x # fs')" using fs by simp
  have h: "held ((co_pc s)(i \<mapsto> (x, ev'))) = add_mset x (held (co_pc s))" by (rule held_begin) (use i in simp_all)
  show ?thesis
  proof (rule co_invI [OF I])
    show "heap_lists (links u) [freeList \<mapsto> fs', usedList \<mapsto> us]"
      using lists_eq [OF lists_del(1) [OF L(1) f], of "[freeList \<mapsto> fs', usedList \<mapsto> us]"] by (simp add: u)
    show "keeps_pages (co_usm s) u" by (simp add: u keeps_pages_def)
    show "mset fs' + mset us + held ((co_pc s)(i \<mapsto> (x, ev'))) = M" using L(2) fs h by simp
    show "usedMemory u = SYS_PAGE_SIZE * of_nat (length us + size (held ((co_pc s)(i \<mapsto> (x, ev')))))"
      unfolding h by (simp add: u L(3) SYS_PAGE_SIZE_def)
  qed (use x in \<open>auto split: if_splits\<close>)
qed

lemma co_inv_end:
  assumes I: "co_inv M base n s" and M: "proper M" and i: "i < 32" "co_pc s i = Some (x, ev)"
    and a: "alloc_end x ev (co_usm s) = (r, ev', u)"
  shows "co_inv M base n (s\<lparr>co_usm := u, co_pc := (co_pc s)(i := None)\<rparr>)"
proof -
  let ?pc = "(co_pc s)(i := None)"
  obtain fs us where L: "heap_lists (links (co_usm s)) [freeList \<mapsto> fs, usedList \<mapsto> us]" "mset fs + mset us + held (co_pc s) = M"
    "usedMemory (co_usm s) = SYS_PAGE_SIZE * of_nat (length us + size (held (co_pc s)))" by (rule co_invD [OF I])
  have h: "held (co_pc s) = add_mset x (held ?pc)" by (rule held_end) (use i in simp_all)
  have x: "unlisted x [freeList \<mapsto> fs, usedList \<mapsto> us]" by (rule proper_unlisted(1) [OF M L(2) [unfolded h]])
  have g: "globalPageSize (co_usm s) = 4096" using I by (simp add: co_inv_def)
  show ?thesis
  proof (cases "r = 0")
    case True
    then have k: "keeps_pages (co_usm s) u" "links u = list_add_tail x usedList (links (co_usm s))" "usedMemory u = usedMemory (co_usm s)"
      using a by (auto simp: alloc_end_def keeps_pages_def usmLinkPage_def Let_def split: if_splits)
    have l: "heap_lists (links u) [freeList \<mapsto> fs, usedList \<mapsto> us @ [x]]" unfolding k(2)
      by (rule lists_eq [OF lists_add(2) [OF L(1) _ x, of usedList us]]) simp_all
    show ?thesis by (rule co_invI [OF I k(1) l]) (use L(2,3) h k(3) in \<open>auto split: if_splits\<close>)
  next
    case False
    then have k: "keeps_pages (co_usm s) u" "links u = list_add x freeList (links (co_usm s))" "usedMemory u = usedMemory (co_usm s) - 4096"
      using a g by (auto simp: alloc_end_def keeps_pages_def Let_def split: if_splits)
    have l: "heap_lists (links u) [freeList \<mapsto> x # fs, usedList \<mapsto> us]" unfolding k(2)
      by (rule lists_eq [OF lists_add(1) [OF L(1) _ x, of freeList fs]]) simp_all
    show ?thesis
      by (rule co_invI [OF I k(1) l]) (use L(2,3) h k(3) in \<open>auto simp: SYS_PAGE_SIZE_def algebra_simps split: if_splits\<close>)
  qed
qed

lemma co_inv_free:
  assumes I: "co_inv M base n s" and b: "unat base + unat n < 2 ^ 64"
    and f: "is_list (links (co_usm s)) usedList us'" "x \<in> set us'" "ev_paddr ev = basePFN (co_usm s) + node_page (co_usm s) x"
    and r: "pindex_free ev (co_usm s) = Some (r, ev', u)"
  shows "co_inv M base n (s\<lparr>co_usm := u\<rparr>)"
proof -
  obtain fs us where L: "heap_lists (links (co_usm s)) [freeList \<mapsto> fs, usedList \<mapsto> us]" "mset fs + mset us + held (co_pc s) = M"
    "usedMemory (co_usm s) = SYS_PAGE_SIZE * of_nat (length us + size (held (co_pc s)))" "pool (co_usm s) fs us"
    by (rule co_invD [OF I])
  have "is_list (links (co_usm s)) usedList us" using listsD [OF L(1), of usedList] by simp
  then have "us = us'" using f(1) list_for_each_is_list by (metis option.inject)
  then obtain a c where us: "us = a @ x # c" using f(2) split_list by metis
  have u: "u = freed x (co_usm s)" using pindex_free_node [OF L(4) _ f(3)] r b us I by (simp add: co_inv_def)
  have k: "keeps_pages (co_usm s) u" by (simp add: u freed_def keeps_pages_def page_of_def)
  have l: "heap_lists (links u) [freeList \<mapsto> fs @ [x], usedList \<mapsto> a @ c]" using freed_pool [of "co_usm s" fs a x c] L(4) us u poolD(1) by blast
  have "co_inv M base n (s\<lparr>co_usm := u, co_pc := co_pc s\<rparr>)"
    by (rule co_invI [OF I k l]) (use L(2,3) us in \<open>auto simp: u algebra_simps\<close>)
  then show ?thesis by simp
qed

lemma co_inv_step:
  assumes I: "co_inv M base n s" and M: "proper M" "unat base + unat n < 2 ^ 64" and s: "co_step s s'"
  shows "co_inv M base n s'"
  using s
proof (rule co_stepE)
  fix m assume "s' = s\<lparr>co_usm := (co_usm s)\<lparr>umem := m\<rparr>\<rparr>"
  moreover have "nodes_ok X ((co_usm s)\<lparr>umem := m\<rparr>) = nodes_ok X (co_usm s)" for X by (simp add: nodes_ok_def page_of_def)
  ultimately show ?thesis using I by (simp add: co_inv_def)
qed (use co_inv_begin [OF I] co_inv_end [OF I M(1)] co_inv_free [OF I M(2)] in auto)


section \<open>The interleavings of the scheduler\<close>

text \<open>The wait of \<open>usm_mem_subm_ev\<close> in a user thread: while the task has not answered, the
  thread switches back when another one has something to do, and asks again otherwise.
  \<open>env n\<close> is what the task does before the n-th look at the status.\<close>

abbreviation task_acts :: "(mem \<Rightarrow> mem) \<Rightarrow> co_state vcpu \<Rightarrow> co_state vcpu" where
  "task_acts f s \<equiv> s\<lparr>work := (work s)\<lparr>co_usm := (co_usm (work s))\<lparr>umem := f (umem (co_usm (work s)))\<rparr>\<rparr>\<rparr>"

partial_function (option) poll_submission ::
  "(nat \<Rightarrow> mem \<Rightarrow> mem) \<Rightarrow> nat \<Rightarrow> nat \<Rightarrow> addr \<Rightarrow> usm_event \<Rightarrow> co_state vcpu \<Rightarrow> co_state vcpu option" where
  "poll_submission env n i x ev s =
    (let s = task_acts (env n) s
     in if rd32 (umem (co_usm (work s))) (ev_usmmem ev) 4 = 2
        then if usm_yield s then Some s else poll_submission env (Suc n) i x ev s
        else case alloc_end x ev (co_usm (work s)) of (r, ev, u) \<Rightarrow>
          Some (s\<lparr>work := (work s)\<lparr>co_usm := u, co_pc := (co_pc (work s))(i := None)\<rparr>, ustate := (ustate s)(i := False)\<rparr>))"

text \<open>Switching to user thread \<open>i\<close>: it starts an allocation or goes on waiting.\<close>

definition resume :: "(nat \<Rightarrow> nat \<Rightarrow> mem \<Rightarrow> mem) \<Rightarrow> nat \<Rightarrow> co_state vcpu \<Rightarrow> co_state vcpu option" where
  "resume env i s =
    (case co_pc (work s) i of
       Some (x, ev) \<Rightarrow> poll_submission (env i) 0 i x ev s
     | None \<Rightarrow>
        (case alloc_begin (co_event (work s) i) (co_usm (work s)) of
           None \<Rightarrow> Some (s\<lparr>ustate := (ustate s)(i := False)\<rparr>)
         | Some (x, ev, u) \<Rightarrow> poll_submission (env i) 0 i x ev
             (s\<lparr>work := (work s)\<lparr>co_usm := u, co_pc := (co_pc (work s))(i \<mapsto> (x, ev))\<rparr>\<rparr>)))"

text \<open>What a run of a user thread does, as steps.\<close>

definition runs :: "nat \<Rightarrow> co_state vcpu \<Rightarrow> co_state vcpu \<Rightarrow> bool" where
  "runs i s s' \<longleftrightarrow> (i < 32 \<longrightarrow> co_step\<^sup>*\<^sup>* (work s) (work s')) \<and> tempEvents s' = tempEvents s \<and> (\<forall>j. j \<noteq> i \<longrightarrow> ustate s' j = ustate s j)"

lemma runs_trans: "runs i s t \<Longrightarrow> runs i t s' \<Longrightarrow> runs i s s'"
  by (auto simp: runs_def intro: rtranclp_trans)

lemma runs_task: "runs i s (task_acts f s)"
  by (auto simp: runs_def intro: r_into_rtranclp co_task)

lemma poll_submission_runs:
  assumes "poll_submission env n i x ev s = Some s'" "co_pc (work s) i = Some (x, ev)"
  shows "runs i s s'"
proof -
  define P where "P env n i x ev s s' \<longleftrightarrow> (co_pc (work s) i = Some (x, ev) \<longrightarrow> runs i s s')"
    for env :: "nat \<Rightarrow> mem \<Rightarrow> mem" and n :: nat and i x ev s and s' :: "co_state vcpu"
  have "P env n i x ev s s'"
  proof (rule poll_submission.raw_induct [of P "(((((env, n), i), x), ev), s)" s', unfolded prod.case, OF _ assms(1)])
    fix ps env n i x ev s and r :: "co_state vcpu"
    assume ih: "\<And>env n i x ev s r. ps env n i x ev s = Some r \<Longrightarrow> P env n i x ev s r"
      and r: "(let s = task_acts (env n) s
       in if rd32 (umem (co_usm (work s))) (ev_usmmem ev) 4 = 2
          then if usm_yield s then Some s else ps env (Suc n) i x ev s
          else case alloc_end x ev (co_usm (work s)) of (r, ev, u) \<Rightarrow>
            Some (s\<lparr>work := (work s)\<lparr>co_usm := u, co_pc := (co_pc (work s))(i := None)\<rparr>, ustate := (ustate s)(i := False)\<rparr>)) = Some r"
    let ?s = "task_acts (env n) s"
    show "P env n i x ev s r" unfolding P_def
    proof
      assume pc: "co_pc (work s) i = Some (x, ev)"
      show "runs i s r"
      proof (cases "rd32 (umem (co_usm (work ?s))) (ev_usmmem ev) 4 = 2")
        case True
        then have "r = ?s \<or> ps env (Suc n) i x ev ?s = Some r" using r by (auto simp: Let_def split: if_splits)
        then have "r = ?s \<or> runs i ?s r" using ih [of env "Suc n" i x ev ?s r] pc by (auto simp: P_def)
        then show ?thesis using runs_task runs_trans by blast
      next
        case False
        obtain q ev' u where e: "alloc_end x ev (co_usm (work ?s)) = (q, ev', u)" by (rule prod_cases3)
        then have "r = ?s\<lparr>work := (work ?s)\<lparr>co_usm := u, co_pc := (co_pc (work ?s))(i := None)\<rparr>, ustate := (ustate ?s)(i := False)\<rparr>"
          using r False by (simp add: Let_def)
        then have "runs i ?s r" using co_end [OF _ _ False e, of i] pc by (auto simp: runs_def)
        then show ?thesis using runs_task runs_trans by blast
      qed
    qed
  qed
  then show ?thesis using assms(2) by (simp add: P_def)
qed

lemma resume_runs:
  assumes "resume env i s = Some s'"
  shows "runs i s s'"
proof (cases "co_pc (work s) i")
  case (Some p)
  then show ?thesis using assms poll_submission_runs by (cases p) (simp add: resume_def)
next
  case None
  show ?thesis
  proof (cases "alloc_begin (co_event (work s) i) (co_usm (work s))")
    case (Some p)
    obtain x ev u where p: "p = (x, ev, u)" by (rule prod_cases3)
    let ?s = "s\<lparr>work := (work s)\<lparr>co_usm := u, co_pc := (co_pc (work s))(i \<mapsto> (x, ev))\<rparr>\<rparr>"
    have "runs i s ?s" using co_begin [OF _ None Some [unfolded p]] by (auto simp: runs_def)
    moreover have "runs i ?s s'" by (rule poll_submission_runs) (use assms None Some p in \<open>simp_all add: resume_def\<close>)
    ultimately show ?thesis by (rule runs_trans)
  qed (use assms None in \<open>auto simp: resume_def runs_def\<close>)
qed

interpretation allocations: user_threads "resume env" for env
  by unfold_locales (use resume_runs in \<open>auto simp: runs_def\<close>)

lemma serve_list_runs:
  "serve_list (resume env) js s = Some s' \<Longrightarrow> \<forall>i \<in> set js. i < 32 \<Longrightarrow> co_step\<^sup>*\<^sup>* (work s) (work s')"
proof (induction js arbitrary: s)
  case (Cons i js)
  then obtain t where t: "serve_one (resume env) i s = Some t" "serve_list (resume env) js t = Some s'" by (auto simp: bind_eq_Some_conv)
  then obtain r where r: "resume env i (s\<lparr>current_uthread := i, ustate := (ustate s)(i := True)\<rparr>) = Some r" "work t = work r"
    by (auto simp: serve_one_def Let_def bind_eq_Some_conv)
  then have "co_step\<^sup>*\<^sup>* (work s) (work t)" using resume_runs [OF r(1)] Cons.prems(2) by (simp add: runs_def)
  then show ?case using Cons.IH [OF t(2)] Cons.prems(2) by (auto intro: rtranclp_trans)
qed simp

lemma serve_pass_runs: "serve_pass (resume env) todo s = Some s' \<Longrightarrow> co_step\<^sup>*\<^sup>* (work s) (work s')"
  using serve_list_runs [of env "pending todo" s s'] pending_less unfolding serve_pass_list by blast


section \<open>Concrete interleavings\<close>

definition co0 :: co_state where "co0 = \<lparr>co_usm = pool0, co_event = (\<lambda>_. ev0), co_pc = (\<lambda>_. None)\<rparr>"

lemma alloc_begin_Some:
  assumes "heap_lists (links u) L" "L freeList = Some (x # fs)"
  obtains ev' u' where "alloc_begin ev u = Some (x, ev', u')" "links u' = list_del x (links u)" "ev_usmmem ev' = ev_usmmem ev"
  using assms lists_empty_iff [OF assms] lists_first [OF assms] by (auto simp: alloc_begin_def Let_def page_of_def)


definition co_vcpu0 :: "co_state vcpu" where
  "co_vcpu0 = \<lparr>tempEvents = 0, current_uthread = 0, ustate = (\<lambda>_. False), work = co0\<rparr>"

text \<open>The task answers at once.\<close>

definition task3 :: "nat \<Rightarrow> nat \<Rightarrow> mem \<Rightarrow> mem" where "task3 i n m = wr32 m 4096 4 3"


end
