(* ===== verification/Hash_List.thy ===== *)
theory Hash_List
  imports Linked_List "HOL-Library.Monad_Syntax"
begin

text \<open>
  The lists with a single-pointer head of \<open>daemon/include/usm/list.h\<close> (\<open>hlist\<close>).  A node holds
  a \<open>next\<close> pointer and \<open>pprev\<close>, the address of the pointer that points to it.  \<open>next\<close> is the first
  field of a node and \<open>first\<close> the only one of a head, so the address of the pointer is that
  of the node or head; \<open>hh_cell\<close> holds these pointers and \<open>hh_pprev\<close> the way back.
  \<open>is_hlist h hp xs\<close> says that the head \<open>hp\<close> holds the nodes \<open>xs\<close>, and each operation is shown
  to implement that on HOL lists.
\<close>

section \<open>Operations\<close>

record hheap =
  hh_cell :: "addr \<Rightarrow> addr"
  hh_pprev :: "addr \<Rightarrow> addr"

definition set_cell :: "addr \<Rightarrow> addr \<Rightarrow> hheap \<Rightarrow> hheap" where
  "set_cell a v h = h\<lparr>hh_cell := (hh_cell h)(a := v)\<rparr>"

definition set_pprev :: "addr \<Rightarrow> addr \<Rightarrow> hheap \<Rightarrow> hheap" where
  "set_pprev a v h = h\<lparr>hh_pprev := (hh_pprev h)(a := v)\<rparr>"

definition INIT_HLIST_HEAD :: "addr \<Rightarrow> hheap \<Rightarrow> hheap" where
  "INIT_HLIST_HEAD ptr h = set_cell ptr 0 h"

definition INIT_HLIST_NODE :: "addr \<Rightarrow> hheap \<Rightarrow> hheap" where
  "INIT_HLIST_NODE ptr h = set_pprev ptr 0 (set_cell ptr 0 h)"

definition hlist_unhashed :: "addr \<Rightarrow> hheap \<Rightarrow> bool" where
  "hlist_unhashed n h \<longleftrightarrow> hh_pprev h n = 0"

definition hlist_empty :: "addr \<Rightarrow> hheap \<Rightarrow> bool" where
  "hlist_empty hp h \<longleftrightarrow> hh_cell h hp = 0"

definition hlist_unlink :: "addr \<Rightarrow> hheap \<Rightarrow> hheap" where
  "hlist_unlink n h =
    (let nxt = hh_cell h n;
         pprev = hh_pprev h n;
         h = set_cell pprev nxt h
     in if nxt \<noteq> 0 then set_pprev nxt pprev h else h)"

definition hlist_del :: "addr \<Rightarrow> hheap \<Rightarrow> hheap" where
  "hlist_del n h = set_pprev n LIST_POISON2 (set_cell n LIST_POISON1 (hlist_unlink n h))"

definition hlist_del_init :: "addr \<Rightarrow> hheap \<Rightarrow> hheap" where
  "hlist_del_init n h = (if hh_pprev h n \<noteq> 0 then INIT_HLIST_NODE n (hlist_unlink n h) else h)"

definition hlist_add_head :: "addr \<Rightarrow> addr \<Rightarrow> hheap \<Rightarrow> hheap" where
  "hlist_add_head n hp h =
    (let first = hh_cell h hp;
         h = set_cell n first h;
         h = (if first \<noteq> 0 then set_pprev first n h else h);
         h = set_cell hp n h
     in set_pprev n hp h)"

definition hlist_add_before :: "addr \<Rightarrow> addr \<Rightarrow> hheap \<Rightarrow> hheap" where
  "hlist_add_before n nxt h =
    (let h = set_pprev n (hh_pprev h nxt) h;
         h = set_cell n nxt h;
         h = set_pprev nxt n h
     in set_cell (hh_pprev h n) n h)"

definition hlist_add_after :: "addr \<Rightarrow> addr \<Rightarrow> hheap \<Rightarrow> hheap" where
  "hlist_add_after n nxt h =
    (let h = set_cell nxt (hh_cell h n) h;
         h = set_cell n nxt h;
         h = set_pprev nxt n h
     in if hh_cell h nxt \<noteq> 0 then set_pprev (hh_cell h nxt) nxt h else h)"

text \<open>\<open>hlist_for_each\<close> and \<open>hlist_for_each_safe\<close> over a body that does not change the list: the nodes
  in the order of the visits.  A list that runs into itself is never left.\<close>

partial_function (option) hlist_walk :: "hheap \<Rightarrow> addr \<Rightarrow> addr list option" where
  "hlist_walk h pos = (if pos = 0 then Some [] else do { ps \<leftarrow> hlist_walk h (hh_cell h pos); Some (pos # ps) })"

definition hlist_for_each :: "addr \<Rightarrow> hheap \<Rightarrow> addr list option" where
  "hlist_for_each hp h = hlist_walk h (hh_cell h hp)"

section \<open>Abstraction\<close>

primrec hpath :: "hheap \<Rightarrow> addr \<Rightarrow> addr list \<Rightarrow> bool" where
  "hpath h p [] \<longleftrightarrow> True"
| "hpath h p (x # xs) \<longleftrightarrow> hh_cell h p = x \<and> x \<noteq> 0 \<and> hh_pprev h x = p \<and> hpath h x xs"

definition is_hlist :: "hheap \<Rightarrow> addr \<Rightarrow> addr list \<Rightarrow> bool" where
  "is_hlist h hp xs \<longleftrightarrow> hpath h hp xs \<and> hh_cell h (last (hp # xs)) = 0 \<and> distinct (hp # xs) \<and> hp \<noteq> 0"

lemma heap_sel [simp]:
  "hh_cell (set_cell a v h) = (hh_cell h)(a := v)" "hh_pprev (set_cell a v h) = hh_pprev h"
  "hh_pprev (set_pprev a v h) = (hh_pprev h)(a := v)" "hh_cell (set_pprev a v h) = hh_cell h"
  by (simp_all add: set_cell_def set_pprev_def)

lemma hpath_append: "hpath h p (xs @ ys) \<longleftrightarrow> hpath h p xs \<and> hpath h (last (p # xs)) ys"
  by (induction xs arbitrary: p) auto

lemma hpath_frame:
  assumes "\<And>a. a \<in> set (butlast (p # xs)) \<Longrightarrow> hh_cell h' a = hh_cell h a" "\<And>x. x \<in> set xs \<Longrightarrow> hh_pprev h' x = hh_pprev h x"
  shows "hpath h' p xs \<longleftrightarrow> hpath h p xs"
  using assms by (induction xs arbitrary: p) auto

lemma hlist_walk_path:
  "hpath h p xs \<Longrightarrow> hh_cell h (last (p # xs)) = 0 \<Longrightarrow> hlist_walk h (hh_cell h p) = Some xs"
  by (induction xs arbitrary: p) (subst hlist_walk.simps, force)+

text \<open>A list around a position: the nodes before it, whose last or the head is the cell that points
  to it, and those after it.\<close>

lemma is_hlist_split:
  "is_hlist h hp (as @ bs) \<longleftrightarrow> hpath h hp as \<and> hpath h (last (hp # as)) bs \<and>
     hh_cell h (last (last (hp # as) # bs)) = 0 \<and> distinct (hp # as @ bs) \<and> hp \<noteq> 0"
  by (auto simp: is_hlist_def hpath_append)

lemma is_hlist_outside:
  assumes "is_hlist h hp xs" "n \<notin> set (hp # xs)"
  shows "is_hlist (set_pprev n v (set_cell n w h)) hp xs"
proof -
  have n: "a \<noteq> n" if "a \<in> set (hp # xs)" for a using that assms(2) by auto
  have "hpath (set_pprev n v (set_cell n w h)) hp xs \<longleftrightarrow> hpath h hp xs"
  proof (rule hpath_frame)
    show "hh_cell (set_pprev n v (set_cell n w h)) a = hh_cell h a" if "a \<in> set (butlast (hp # xs))" for a
      using n [OF in_set_butlastD [OF that]] by simp
  qed (use assms(2) in auto)
  moreover have "last (hp # xs) \<noteq> n" by (rule n) (rule last_in_set, simp)
  ultimately show ?thesis using assms(1) by (simp add: is_hlist_def)
qed

section \<open>What the operations do\<close>

text \<open>Insertion between a cell \<open>p\<close> and the nodes it leads to.\<close>

definition hlist_link :: "addr \<Rightarrow> addr \<Rightarrow> hheap \<Rightarrow> hheap" where
  "hlist_link n p h =
    (let nxt = hh_cell h p; h = h\<lparr>hh_cell := (hh_cell h)(n := nxt, p := n)\<rparr>
     in h\<lparr>hh_pprev := (if nxt = 0 then hh_pprev h else (hh_pprev h)(nxt := n))(n := p)\<rparr>)"

lemma add_is_link:
  "n \<noteq> hp \<Longrightarrow> hh_cell h hp \<noteq> n \<Longrightarrow> hlist_add_head n hp h = hlist_link n hp h"
  "nxt \<noteq> 0 \<Longrightarrow> nxt \<noteq> n \<Longrightarrow> hh_pprev h nxt \<noteq> n \<Longrightarrow> hh_cell h (hh_pprev h nxt) = nxt \<Longrightarrow>
     hlist_add_before n nxt h = hlist_link n (hh_pprev h nxt) h"
  "n \<noteq> p \<Longrightarrow> hh_cell h p \<noteq> n \<Longrightarrow> hlist_add_after p n h = hlist_link n p h"
  by (simp_all add: hlist_add_head_def hlist_add_before_def hlist_add_after_def hlist_link_def set_cell_def set_pprev_def Let_def fun_upd_twist)

lemma last_butlast_disjoint:
  "distinct (p # xs) \<Longrightarrow> a \<in> set (butlast (p # xs)) \<Longrightarrow> a \<noteq> last (p # xs)"
  by (metis append_butlast_last_id distinct_butlast list.distinct(1) not_distinct_conv_prefix snoc_eq_iff_butlast)

lemma link_correct:
  assumes "is_hlist h hp (as @ bs)" "n \<notin> set (hp # as @ bs)" "n \<noteq> 0"
  shows "is_hlist (hlist_link n (last (hp # as)) h) hp (as @ n # bs)"
proof -
  let ?p = "last (hp # as)" and ?h = "hlist_link n (last (hp # as)) h"
  have i: "hpath h hp as" "hpath h ?p bs" "hh_cell h (last (?p # bs)) = 0" "distinct (hp # as @ bs)" "hp \<noteq> 0"
    using assms(1) by (simp_all add: is_hlist_split)
  have m: "?p \<in> set (hp # as)" by (rule last_in_set) simp
  have b: "a \<noteq> ?p" "a \<noteq> n" if "a \<in> set (butlast (hp # as))" for a
    using last_butlast_disjoint [OF _ that] i(4) assms(2) in_set_butlastD [OF that] by auto
  have c: "hh_cell h ?p = (case bs of [] \<Rightarrow> 0 | y # _ \<Rightarrow> y)" using i(2,3) by (cases bs) auto
  have "hpath ?h hp as"
  proof (rule hpath_frame [THEN iffD2, OF _ _ i(1)])
    show "hh_cell ?h a = hh_cell h a" if "a \<in> set (butlast (hp # as))" for a using b [OF that] by (simp add: hlist_link_def Let_def)
    show "hh_pprev ?h x = hh_pprev h x" if "x \<in> set as" for x
      using that i(4) assms(2) c by (cases bs) (auto simp: hlist_link_def Let_def)
  qed
  moreover have "hpath ?h ?p (n # bs) \<and> hh_cell ?h (last (n # bs)) = 0"
  proof (cases bs)
    case Nil
    then show ?thesis using c assms(2,3) m by (auto simp: hlist_link_def Let_def)
  next
    case (Cons y ys)
    have y: "y \<noteq> 0" "hpath h y ys" using i(2) Cons by simp_all
    have d: "y \<notin> set ys" "?p \<notin> set (y # ys)" "n \<notin> set (y # ys)" "n \<noteq> ?p" using i(4) assms(2) m Cons by auto
    have "hpath ?h y ys"
    proof (rule hpath_frame [THEN iffD2, OF _ _ y(2)])
      show "hh_cell ?h a = hh_cell h a" if "a \<in> set (butlast (y # ys))" for a
        using in_set_butlastD [OF that] d by (auto simp: hlist_link_def Let_def)
      show "hh_pprev ?h x = hh_pprev h x" if "x \<in> set ys" for x using that d c Cons by (auto simp: hlist_link_def Let_def)
    qed
    moreover have "last (y # ys) \<notin> {n, ?p}" using d last_in_set [of "y # ys"] by (metis insertE list.distinct(1) singletonD)
    ultimately show ?thesis using c y d i(3) assms(3) Cons by (auto simp: hlist_link_def Let_def)
  qed
  ultimately show ?thesis using i(4,5) assms(2) by (auto simp: is_hlist_split)
qed

lemma unlink_correct:
  assumes "is_hlist h hp (as @ n # bs)"
  shows "is_hlist (hlist_unlink n h) hp (as @ bs)"
proof -
  let ?p = "last (hp # as)" and ?h = "hlist_unlink n h"
  have i: "hpath h hp as" "hh_cell h ?p = n" "n \<noteq> 0" "hh_pprev h n = ?p" "hpath h n bs" "hh_cell h (last (n # bs)) = 0"
    "distinct (hp # as @ n # bs)" "hp \<noteq> 0"
    using assms by (simp_all add: is_hlist_split)
  have m: "?p \<in> set (hp # as)" by (rule last_in_set) simp
  have c: "hh_cell h n = (case bs of [] \<Rightarrow> 0 | y # _ \<Rightarrow> y)" using i(5,6) by (cases bs) auto
  have "hpath ?h hp as"
  proof (rule hpath_frame [THEN iffD2, OF _ _ i(1)])
    show "hh_cell ?h a = hh_cell h a" if "a \<in> set (butlast (hp # as))" for a
      using last_butlast_disjoint [OF _ that] i(4,7) by (simp add: hlist_unlink_def Let_def)
    show "hh_pprev ?h x = hh_pprev h x" if "x \<in> set as" for x
      using that i(7) c by (cases bs) (auto simp: hlist_unlink_def Let_def)
  qed
  moreover have "hpath ?h ?p bs \<and> hh_cell ?h (last (?p # bs)) = 0"
  proof (cases bs)
    case Nil
    then show ?thesis using c i(4) by (simp add: hlist_unlink_def Let_def)
  next
    case (Cons y ys)
    have y: "y \<noteq> 0" "hpath h y ys" using i(5) Cons by simp_all
    have d: "y \<notin> set ys" "?p \<notin> set (y # ys)" using i(7) m Cons by auto
    have "hpath ?h y ys"
    proof (rule hpath_frame [THEN iffD2, OF _ _ y(2)])
      show "hh_cell ?h a = hh_cell h a" if "a \<in> set (butlast (y # ys))" for a
        using in_set_butlastD [OF that] d i(4) by (auto simp: hlist_unlink_def Let_def)
      show "hh_pprev ?h x = hh_pprev h x" if "x \<in> set ys" for x using that d c Cons by (auto simp: hlist_unlink_def Let_def)
    qed
    moreover have "last (y # ys) \<noteq> ?p" using d last_in_set [of "y # ys"] by (metis list.distinct(1))
    ultimately show ?thesis using c y i(4,6) Cons by (auto simp: hlist_unlink_def Let_def)
  qed
  ultimately show ?thesis using i(7,8) by (auto simp: is_hlist_split)
qed

lemma del_correct:
  assumes "is_hlist h hp (as @ n # bs)"
  shows "is_hlist (hlist_del n h) hp (as @ bs)" "is_hlist (hlist_del_init n h) hp (as @ bs)" "hlist_unhashed n (hlist_del_init n h)"
proof -
  have u: "is_hlist (hlist_unlink n h) hp (as @ bs)" by (rule unlink_correct [OF assms])
  have n: "n \<notin> set (hp # as @ bs)" using assms by (auto simp: is_hlist_def)
  have "last (hp # as) \<noteq> 0" using assms by (cases as rule: rev_cases) (auto simp: is_hlist_def hpath_append)
  then have "hh_pprev h n \<noteq> 0" using assms by (simp add: is_hlist_split)
  then show "is_hlist (hlist_del_init n h) hp (as @ bs)" "hlist_unhashed n (hlist_del_init n h)"
    using is_hlist_outside [OF u n] by (simp_all add: hlist_del_init_def INIT_HLIST_NODE_def hlist_unhashed_def)
  show "is_hlist (hlist_del n h) hp (as @ bs)" using is_hlist_outside [OF u n] by (simp add: hlist_del_def)
qed

lemma add_correct:
  assumes "is_hlist h hp (as @ bs)" "n \<notin> set (hp # as @ bs)" "n \<noteq> 0"
  shows "(if as = [] then hlist_add_head n hp h else hlist_add_after (last as) n h) = hlist_link n (last (hp # as)) h"
    "bs \<noteq> [] \<Longrightarrow> hlist_add_before n (hd bs) h = hlist_link n (last (hp # as)) h"
proof -
  let ?p = "last (hp # as)"
  have i: "hpath h ?p bs" "hh_cell h (last (?p # bs)) = 0" using assms(1) by (simp_all add: is_hlist_split)
  have p: "n \<noteq> ?p" using assms(2) last_in_set [of "hp # as"] by auto
  have c: "hh_cell h ?p \<noteq> n" using i assms(2,3) by (cases bs) auto
  show "(if as = [] then hlist_add_head n hp h else hlist_add_after (last as) n h) = hlist_link n ?p h"
    using add_is_link(1,3) p c by auto
  show "hlist_add_before n (hd bs) h = hlist_link n ?p h" if "bs \<noteq> []"
    using that i p assms(2) add_is_link(2) [of "hd bs" n h] by (cases bs) auto
qed

text \<open>C32: insertion and removal in the lists with a single-pointer head.  A node is entered at any
  position of a list, at the head or behind its predecessor, or, to the same effect,
  before its successor; a traversal then visits it exactly there, and deleting it gives
  the list back and leaves the node marked as in no list.\<close>

theorem hlist_add_del:
  assumes "is_hlist h hp (as @ bs)" "n \<notin> set (hp # as @ bs)" "n \<noteq> 0"
  shows "let h' = (if as = [] then hlist_add_head n hp h else hlist_add_after (last as) n h)
    in (bs \<noteq> [] \<longrightarrow> hlist_add_before n (hd bs) h = h') \<and> hlist_for_each hp h' = Some (as @ n # bs) \<and>
       hlist_for_each hp (hlist_del n h') = Some (as @ bs) \<and>
       is_hlist (hlist_del_init n h') hp (as @ bs) \<and> hlist_unhashed n (hlist_del_init n h')"
proof -
  have l: "is_hlist (hlist_link n (last (hp # as)) h) hp (as @ n # bs)" by (rule link_correct [OF assms])
  have w: "hlist_for_each hp h' = Some xs" if "is_hlist h' hp xs" for h' xs
    using that hlist_walk_path [of h' hp xs] by (simp add: is_hlist_def hlist_for_each_def)
  show ?thesis using add_correct [OF assms] w [OF l] del_correct [OF l] w [OF del_correct(1) [OF l]] by (simp add: Let_def)
qed

text \<open>A list with the nodes 16 and 32, and a node between them.\<close>

definition hheap0 :: hheap where
  "hheap0 = hlist_add_head 16 8 (hlist_add_head 32 8 (INIT_HLIST_HEAD 8 \<lparr>hh_cell = (\<lambda>_. 1), hh_pprev = (\<lambda>_. 1)\<rparr>))"

theorem hlist_add_del_witness:
  "hlist_for_each 8 (hlist_add_after 16 24 hheap0) = Some [16, 24, 32] \<and>
     hlist_for_each 8 (hlist_del 24 (hlist_add_after 16 24 hheap0)) = Some [16, 32] \<and>
     hlist_add_before 24 32 hheap0 = hlist_add_after 16 24 hheap0"
proof -
  have "is_hlist hheap0 8 ([16] @ [32])"
    by (simp add: is_hlist_def hheap0_def hlist_add_head_def INIT_HLIST_HEAD_def Let_def)
  from hlist_add_del [OF this, of 24] show ?thesis by (simp add: Let_def)
qed

end
