(* ===== verification/Csv_Text.thy ===== *)
theory Csv_Text
  imports Usm_Prelude
begin

text \<open>
  Text as the timing programs exchange it: decimal numbers as \<open>printf\<close> and Python's \<open>str\<close>
  print them and as \<open>int\<close> reads them, \<open>str.split\<close>, and the rows of \<open>csv.reader\<close> for text
  without quotes.  All of it is the standard library of C and Python; the lemmas are the
  round trips the programs rely on.
\<close>

section \<open>Decimal numbers\<close>

definition is_digit :: "char \<Rightarrow> bool" where
  "is_digit c \<longleftrightarrow> 48 \<le> (of_char c :: nat) \<and> (of_char c :: nat) \<le> 57"

definition digit_val :: "char \<Rightarrow> nat" where "digit_val c = of_char c - 48"

definition digit :: "nat \<Rightarrow> char" where "digit n = char_of (48 + n)"

fun decimal :: "nat \<Rightarrow> string" where
  "decimal n = (if n < 10 then [digit n] else decimal (n div 10) @ [digit (n mod 10)])"

declare decimal.simps [simp del]

definition str_int :: "int \<Rightarrow> string" where
  "str_int i = (if i < 0 then CHR ''-'' # decimal (nat (- i)) else decimal (nat i))"

text \<open>The number a string of digits stands for.\<close>

definition value_from :: "nat \<Rightarrow> string \<Rightarrow> nat" where
  "value_from n cs = foldl (\<lambda>n c. 10 * n + digit_val c) n cs"

lemma digit_digit [simp]: "n < 10 \<Longrightarrow> is_digit (digit n)" "n < 10 \<Longrightarrow> digit_val (digit n) = n"
  by (simp_all add: is_digit_def digit_val_def digit_def)

lemma decimal_digits: "c \<in> set (decimal n) \<Longrightarrow> is_digit c"
proof (induction n rule: decimal.induct)
  case (1 n)
  then show ?case by (subst (asm) (2) decimal.simps) (auto split: if_splits)
qed

lemma decimal_nonempty [simp]: "decimal n \<noteq> []"
  by (subst decimal.simps) simp

lemma value_decimal [simp]: "value_from 0 (decimal n) = n"
proof (induction n rule: decimal.induct)
  case (1 n)
  then show ?case by (subst decimal.simps) (simp add: value_from_def)
qed

section \<open>Python's int\<close>

definition py_space :: "char \<Rightarrow> bool" where
  "py_space c \<longleftrightarrow> (of_char c :: nat) \<in> {9, 10, 11, 12, 13, 28, 29, 30, 31, 32}"

fun py_digits :: "nat \<Rightarrow> string \<Rightarrow> nat option" where
  "py_digits n [] = Some n"
| "py_digits n (c # cs) =
    (if is_digit c then py_digits (10 * n + digit_val c) cs
     else if c = CHR ''_'' then (case cs of d # _ \<Rightarrow> if is_digit d then py_digits n cs else None | [] \<Rightarrow> None)
     else None)"

definition py_unsigned :: "string \<Rightarrow> nat option" where
  "py_unsigned cs = (case cs of c # _ \<Rightarrow> if is_digit c then py_digits 0 cs else None | [] \<Rightarrow> None)"

definition py_int :: "string \<Rightarrow> int option" where
  "py_int cs =
    (let cs = rev (dropWhile py_space (rev (dropWhile py_space cs)))
     in case cs of
          c # ds \<Rightarrow> if c = CHR ''-'' then map_option (\<lambda>n. - int n) (py_unsigned ds)
                    else if c = CHR ''+'' then map_option int (py_unsigned ds)
                    else map_option int (py_unsigned cs)
        | [] \<Rightarrow> None)"

lemma py_digits_value: "(\<And>c. c \<in> set cs \<Longrightarrow> is_digit c) \<Longrightarrow> py_digits n cs = Some (value_from n cs)"
  by (induction cs arbitrary: n) (simp_all add: value_from_def)

lemma digit_plain: "is_digit c \<Longrightarrow> \<not> py_space c \<and> c \<noteq> CHR ''-'' \<and> c \<noteq> CHR ''+'' \<and> c \<noteq> CHR '','' \<and> c \<noteq> CHR 0x0A"
  by (auto simp: is_digit_def py_space_def)

lemma dropWhile_plain: "(\<And>c. c \<in> set cs \<Longrightarrow> \<not> P c) \<Longrightarrow> dropWhile P cs = cs"
  by (cases cs) simp_all

lemma py_int_decimal [simp]: "py_int (decimal n) = Some (int n)"
proof -
  have d: "is_digit c" if "c \<in> set (decimal n)" for c using decimal_digits that by blast
  have s: "rev (dropWhile py_space (rev (dropWhile py_space (decimal n)))) = decimal n"
    using d digit_plain dropWhile_plain [of "decimal n" py_space] dropWhile_plain [of "rev (decimal n)" py_space] by simp
  obtain c cs where c: "decimal n = c # cs" by (meson decimal_nonempty neq_Nil_conv)
  then have "is_digit c" using d by simp
  moreover have "py_digits 0 (c # cs) = Some n" using py_digits_value [of "decimal n" 0] value_decimal [of n] d by (simp only: c)
  ultimately have "py_unsigned (c # cs) = Some n" by (simp add: py_unsigned_def)
  then show ?thesis using \<open>is_digit c\<close> digit_plain [of c] by (simp only: py_int_def s Let_def) (simp add: c)
qed

lemma py_int_str: "0 \<le> i \<Longrightarrow> py_int (str_int i) = Some i"
  by (simp add: str_int_def)

section \<open>Splitting and joining\<close>

fun split_on :: "char \<Rightarrow> string \<Rightarrow> string list" where
  "split_on c [] = [[]]"
| "split_on c (x # xs) =
    (if x = c then [] # split_on c xs else (case split_on c xs of w # ws \<Rightarrow> (x # w) # ws | [] \<Rightarrow> [[x]]))"

fun join :: "char \<Rightarrow> string list \<Rightarrow> string" where
  "join c [] = []"
| "join c [w] = w"
| "join c (w # v # ws) = w @ c # join c (v # ws)"

lemma split_on_word: "c \<notin> set w \<Longrightarrow> split_on c w = [w]"
  by (induction w) auto

lemma split_on_append: "c \<notin> set w \<Longrightarrow> split_on c (w @ c # xs) = w # split_on c xs"
  by (induction w) auto

lemma split_on_join: "ws \<noteq> [] \<Longrightarrow> (\<And>w. w \<in> set ws \<Longrightarrow> c \<notin> set w) \<Longrightarrow> split_on c (join c ws) = ws"
  by (induction c ws rule: join.induct) (simp_all add: split_on_word split_on_append)

lemma join_concat: "join c (w # ws) = w @ concat (map (\<lambda>v. c # v) ws)"
  by (induction ws arbitrary: w) simp_all

lemma set_join: "x \<in> set (join c ws) \<Longrightarrow> x = c \<or> (\<exists>w \<in> set ws. x \<in> set w)"
  by (induction c ws rule: join.induct) auto

section \<open>Rows\<close>

definition text_lines :: "string \<Rightarrow> string list" where
  "text_lines t = (let ls = split_on (CHR 0x0A) t in if last ls = [] then butlast ls else ls)"

definition csv_reader :: "string \<Rightarrow> string list list" where
  "csv_reader t = map (\<lambda>l. if l = [] then [] else split_on (CHR '','') l) (text_lines t)"

abbreviation csv_line :: "string list \<Rightarrow> string" where
  "csv_line r \<equiv> join (CHR '','') r @ [CHR 0x0A]"

text \<open>Fields that need no quotes.\<close>

definition plain_row :: "string list \<Rightarrow> bool" where
  "plain_row r \<longleftrightarrow> r \<noteq> [] \<and> r \<noteq> [[]] \<and> (\<forall>w \<in> set r. CHR '','' \<notin> set w \<and> CHR 0x0A \<notin> set w)"

lemma split_on_lines: "(\<And>l. l \<in> set ls \<Longrightarrow> c \<notin> set l) \<Longrightarrow> split_on c (concat (map (\<lambda>l. l @ [c]) ls)) = ls @ [[]]"
  by (induction ls) (simp_all add: split_on_append)

lemma csv_reader_lines:
  assumes "\<And>r. r \<in> set rows \<Longrightarrow> plain_row r"
  shows "csv_reader (concat (map csv_line rows)) = rows"
proof -
  have nl: "CHR 0x0A \<notin> set (join (CHR '','') r)" if "r \<in> set rows" for r
    using set_join [of "CHR 0x0A" "CHR '',''" r] assms [OF that] by (auto simp: plain_row_def)
  have "split_on (CHR 0x0A) (concat (map csv_line rows)) = map (join (CHR '','')) rows @ [[]]"
    using split_on_lines [of "map (join (CHR '','')) rows" "CHR 0x0A"] nl by (auto simp: comp_def)
  then have t: "text_lines (concat (map csv_line rows)) = map (join (CHR '','')) rows" by (simp add: text_lines_def)
  have "(if join (CHR '','') r = [] then [] else split_on (CHR '','') (join (CHR '','') r)) = r" if "r \<in> set rows" for r
  proof -
    have s: "split_on (CHR '','') (join (CHR '','') r) = r"
      by (rule split_on_join) (use assms [OF that] in \<open>auto simp: plain_row_def\<close>)
    then have "join (CHR '','') r \<noteq> []" using assms [OF that] by (auto simp: plain_row_def)
    then show ?thesis using s by simp
  qed
  then show ?thesis unfolding csv_reader_def t by (simp add: map_idI)
qed

end
