(* ===== verification/Collect_Timings.thy ===== *)
theory Collect_Timings
  imports Csv_Text "HOL-Library.Monad_Syntax"
begin

text \<open>
  The program that collects page-fault timings (\<open>collect-page-fault-timings.c\<close>): its
  options, the tracepoints it finds, and the table it prints, a header and a row of delays
  in cycles for every page it touches.  The clock, the kernel's tracepoint files, the page
  size and the success of the system calls are parameters; \<open>sysconf\<close> succeeds.  \<open>None\<close> is a run that does not return or
  whose behaviour C leaves undefined.
\<close>

section \<open>Reading numbers\<close>

fun parse_digits :: "string \<Rightarrow> u64 \<Rightarrow> string \<times> u64" where
  "parse_digits [] out = ([], out)"
| "parse_digits (c # cs) out =
    (if is_digit c then parse_digits cs (out * 10 + of_nat (digit_val c)) else (c # cs, out))"

text \<open>The rest of the buffer and the number; \<open>None\<close> for \<open>false\<close>.\<close>

definition parse_uint64_t :: "string \<Rightarrow> (string \<times> u64) option" where
  "parse_uint64_t buf =
    (case buf of [] \<Rightarrow> None | c # _ \<Rightarrow> if \<not> is_digit c then None else Some (parse_digits buf 0))"

text \<open>\<open>file name\<close> is the content of the tracepoint's file, \<open>None\<close> when it cannot be opened or
  read.\<close>

definition read_fast_tracepoint :: "(string \<Rightarrow> string option) \<Rightarrow> string \<Rightarrow> u64 option" where
  "read_fast_tracepoint file name = do {
     buf \<leftarrow> file name;
     (cursor, out) \<leftarrow> parse_uint64_t (take 21 buf);
     Some out
   }"

section \<open>The tracepoints\<close>

definition MAX_FAST_TRACEPOINTS :: nat where "MAX_FAST_TRACEPOINTS = 32"

definition DT_REG :: u8 where "DT_REG = 8"

text \<open>The names found so far; when there are too many, which of the copies are freed.\<close>

datatype tracepoints = Listed "string list" | Too_many "nat list"

fun list_loop :: "(string \<times> u8) list \<Rightarrow> string list \<Rightarrow> tracepoints" where
  "list_loop [] fast_tracepoints = Listed fast_tracepoints"
| "list_loop ((d_name, d_type) # entries) fast_tracepoints =
    (if d_type AND DT_REG \<noteq> 0
     then if length fast_tracepoints = MAX_FAST_TRACEPOINTS
          then Too_many (rev [1 ..< length fast_tracepoints])
          else list_loop entries (fast_tracepoints @ [d_name])
     else list_loop entries fast_tracepoints)"

definition list_fast_tracepoints :: "(string \<times> u8) list \<Rightarrow> tracepoints" where
  "list_fast_tracepoints entries = list_loop entries []"

section \<open>The table\<close>

text \<open>\<open>dir_open\<close>: whether \<open>fast_tracepoints_dir_fd\<close> is not -1.\<close>

record collector =
  no_msg_received :: bool
  dir_open :: bool
  fast_tracepoints :: "string list"

definition print_columns :: "collector \<Rightarrow> string" where
  "print_columns c =
     ''end'' @ (if \<not> no_msg_received c then '',msg_received'' else []) @
     (if dir_open c then '',isr_entry,iret'' @ concat (map (\<lambda>name. CHR '','' # name) (fast_tracepoints c)) else []) @
     [CHR 0x0A]"

text \<open>The time stamps of one access, the time the message was received as the row is
  printed, and the tracepoint files at that time.\<close>

record sample =
  timestamp_page_fault :: u64
  timestamp_isr_entry :: u64
  timestamp_iret :: u64
  timestamp_end :: u64
  timestamp_msg_received :: u64
  tracepoint_file :: "string \<Rightarrow> string option"

abbreviation PRIu64 :: "u64 \<Rightarrow> string" where "PRIu64 v \<equiv> decimal (unat v)"

text \<open>Printed text and whether the program goes on.\<close>

fun print_tracepoints :: "sample \<Rightarrow> string list \<Rightarrow> string \<times> bool" where
  "print_tracepoints s [] = ([], True)"
| "print_tracepoints s (name # names) =
    (case read_fast_tracepoint (tracepoint_file s) name of
       None \<Rightarrow> ([], False)
     | Some timestamp \<Rightarrow>
         let out = (if timestamp > timestamp_page_fault s then CHR '','' # PRIu64 (timestamp - timestamp_page_fault s)
                    else [CHR '','']);
             (rest, ok) = print_tracepoints s names
         in (out @ rest, ok))"

definition print_sample :: "collector \<Rightarrow> sample \<Rightarrow> string \<times> bool" where
  "print_sample c s =
    (let start = timestamp_page_fault s;
         out = PRIu64 (timestamp_end s - start);
         out = out @
           (if \<not> no_msg_received c
            then if timestamp_msg_received s > start then CHR '','' # PRIu64 (timestamp_msg_received s - start) else [CHR '','']
            else [])
     in if \<not> dir_open c then (out @ [CHR 0x0A], True)
        else
          let out = out @ CHR '','' # PRIu64 (timestamp_isr_entry s - start) @ CHR '','' # PRIu64 (timestamp_iret s - start);
              (rest, ok) = print_tracepoints s (fast_tracepoints c)
          in if ok then (out @ rest @ [CHR 0x0A], True) else (out @ rest, False))"

text \<open>The loop over the bytes; \<open>smp off\<close> is the access to the byte at that offset.\<close>

partial_function (option) page_loop ::
  "collector \<Rightarrow> u64 \<Rightarrow> u64 \<Rightarrow> (u64 \<Rightarrow> sample) \<Rightarrow> u64 \<Rightarrow> (string \<times> bool) option" where
  "page_loop c len page_size smp off =
    (if off < len
     then let (out, ok) = print_sample c (smp off)
          in if ok
             then Option.bind (page_loop c len page_size smp (off + page_size)) (\<lambda>(rest, ok). Some (out @ rest, ok))
             else Some (out, False)
     else Some ([], True))"

text \<open>\<open>calls\<close>: whether \<open>mmap\<close>, \<open>madvise\<close> and the registration succeed.\<close>

definition do_iteration ::
  "collector \<Rightarrow> bool \<times> bool \<times> bool \<Rightarrow> u64 \<Rightarrow> bool \<Rightarrow> u64 \<Rightarrow> (u64 \<Rightarrow> sample) \<Rightarrow> (string \<times> bool) option" where
  "do_iteration c calls len with_userfaultfd page_size smp =
    (case calls of (mmap, madvise, register) \<Rightarrow>
       let out = print_columns c
       in if \<not> mmap then Some (out, False)
          else if \<not> madvise then Some (out, False)
          else if with_userfaultfd \<and> \<not> register then Some (out, False)
          else Option.bind (page_loop c len page_size smp 0) (\<lambda>(rest, ok). Some (out @ rest, ok)))"

section \<open>Options\<close>

text \<open>An argument as \<open>getopt_long\<close> takes it apart: a letter or a name, and what follows.\<close>

datatype arg = Short char string | Long string string

definition short_options :: string where "short_options = ''s:l:i:t:a:uch''"

definition long_options :: "(string \<times> char) list" where
  "long_options =
    [(''length'', CHR ''l''), (''iterations'', CHR ''i''), (''type'', CHR ''t''), (''access'', CHR ''a''),
     (''userfaultfd'', CHR ''u''), (''userfaultfd-same-cpus'', CHR ''c''), (''no-msg_received'', CHR ''n''), (''help'', CHR ''h'')]"

fun getopt_long :: "arg \<Rightarrow> char \<times> string" where
  "getopt_long (Short c optarg) = (if c \<noteq> CHR '':'' \<and> c \<in> set short_options then (c, optarg) else (CHR ''?'', optarg))"
| "getopt_long (Long name optarg) =
    (case map_of long_options name of Some c \<Rightarrow> (c, optarg) | None \<Rightarrow> (CHR ''?'', optarg))"

datatype access_type = PROT_READ | PROT_WRITE | PROT_READ_WRITE

record options =
  op_length :: u64
  iteration_count :: u64
  do_major_faults :: bool
  access :: access_type
  with_userfaultfd :: bool
  userfaultfd_same_cpus :: bool
  op_no_msg_received :: bool

definition default_options :: options where
  "default_options = \<lparr>op_length = 1, iteration_count = 1, do_major_faults = False, access = PROT_READ,
     with_userfaultfd = False, userfaultfd_same_cpus = True, op_no_msg_received = False\<rparr>"

text \<open>A number that is the whole argument.\<close>

definition whole_number :: "string \<Rightarrow> u64 option" where
  "whole_number optarg = (case parse_uint64_t optarg of Some ([], v) \<Rightarrow> Some v | _ \<Rightarrow> None)"

text \<open>One turn of the \<open>switch\<close>; \<open>None\<close> is the jump to \<open>out\<close> with \<open>EXIT_FAILURE\<close>, also for
  \<open>-h\<close>.  The usage text is left out.\<close>

definition apply_option :: "char \<Rightarrow> string \<Rightarrow> options \<Rightarrow> options option" where
  "apply_option opt optarg o' =
    (if opt = CHR ''l'' then map_option (\<lambda>v. o'\<lparr>op_length := v\<rparr>) (whole_number optarg)
     else if opt = CHR ''i'' then map_option (\<lambda>v. o'\<lparr>iteration_count := v\<rparr>) (whole_number optarg)
     else if opt = CHR ''t''
          then if optarg = ''minor'' then Some (o'\<lparr>do_major_faults := False\<rparr>)
               else if optarg = ''major'' then Some (o'\<lparr>do_major_faults := True\<rparr>)
               else None
     else if opt = CHR ''a''
          then if optarg = ''read'' then Some (o'\<lparr>access := PROT_READ\<rparr>)
               else if optarg = ''write'' then Some (o'\<lparr>access := PROT_WRITE\<rparr>)
               else if optarg = ''rw'' then Some (o'\<lparr>access := PROT_READ_WRITE\<rparr>)
               else None
     else if opt = CHR ''u'' then Some (o'\<lparr>with_userfaultfd := True\<rparr>)
     else if opt = CHR ''c'' then Some (o'\<lparr>userfaultfd_same_cpus := True\<rparr>)
     else if opt = CHR ''n'' then Some (o'\<lparr>op_no_msg_received := True\<rparr>)
     else None)"

fun parse_options :: "arg list \<Rightarrow> options \<Rightarrow> options option" where
  "parse_options [] o' = Some o'"
| "parse_options (a # as) o' =
    (case getopt_long a of (opt, optarg) \<Rightarrow> Option.bind (apply_option opt optarg o') (parse_options as))"

section \<open>The program\<close>

datatype dir_result = No_dir | Dir_error | Dir "(string \<times> u8) list"

record collect_env =
  en_dir :: dir_result
  en_page_size :: u64
  en_userfaultfd :: bool
  en_calls :: "nat \<Rightarrow> bool \<times> bool \<times> bool"
  en_sample :: "nat \<Rightarrow> u64 \<Rightarrow> sample"

definition round_length :: "u64 \<Rightarrow> u64 \<Rightarrow> u64" where
  "round_length len page_size = (len + page_size - 1) AND NOT (page_size - 1)"

fun iterations :: "(nat \<Rightarrow> (string \<times> bool) option) \<Rightarrow> nat \<Rightarrow> string option" where
  "iterations it 0 = Some []"
| "iterations it (Suc n) = do {
     out \<leftarrow> iterations it n;
     (more, _) \<leftarrow> it n;
     Some (out @ more)
   }"

text \<open>Exit status 0 or not, and what is printed.  The counter of the loop is an \<open>int\<close>: more
  than \<open>2 ^ 31 - 1\<close> iterations are undefined behaviour.\<close>

definition run_iterations :: "collect_env \<Rightarrow> options \<Rightarrow> collector \<Rightarrow> (bool \<times> string) option" where
  "run_iterations e o' c =
    (let len = round_length (op_length o') (en_page_size e)
     in if unat (iteration_count o') > 2 ^ 31 - 1 then None
        else Option.bind
          (iterations (\<lambda>i. do_iteration c (en_calls e i) len (with_userfaultfd o') (en_page_size e) (en_sample e i))
             (unat (iteration_count o')))
          (\<lambda>out. Some (True, out)))"

definition collect_main :: "collect_env \<Rightarrow> arg list \<Rightarrow> (bool \<times> string) option" where
  "collect_main e as =
    (case parse_options as default_options of
       None \<Rightarrow> Some (False, [])
     | Some o' \<Rightarrow>
        if with_userfaultfd o' \<and> do_major_faults o' then Some (False, [])
        else
          let no_msg = op_no_msg_received o' \<or> \<not> with_userfaultfd o';
              go = (\<lambda>c. if with_userfaultfd o' \<and> \<not> en_userfaultfd e then Some (False, []) else run_iterations e o' c)
          in case en_dir e of
               Dir_error \<Rightarrow> Some (False, [])
             | No_dir \<Rightarrow> go \<lparr>no_msg_received = no_msg, dir_open = False, fast_tracepoints = []\<rparr>
             | Dir entries \<Rightarrow>
                (case list_fast_tracepoints entries of
                   Too_many _ \<Rightarrow> Some (False, [])
                 | Listed names \<Rightarrow> go \<lparr>no_msg_received = no_msg, dir_open = True, fast_tracepoints = names\<rparr>))"

section \<open>Numbers\<close>

lemma parse_digits_value:
  "(\<And>c. c \<in> set ds \<Longrightarrow> is_digit c) \<Longrightarrow> rest = [] \<or> \<not> is_digit (hd rest) \<Longrightarrow>
   parse_digits (ds @ rest) (of_nat n) = (rest, of_nat (value_from n ds))"
proof (induction ds arbitrary: n)
  case Nil
  then show ?case by (cases rest) (simp_all add: value_from_def)
next
  case (Cons c ds)
  have "(of_nat n * 10 + of_nat (digit_val c) :: u64) = of_nat (10 * n + digit_val c)" by (simp add: mult.commute)
  then have "parse_digits ((c # ds) @ rest) (of_nat n) = parse_digits (ds @ rest) (of_nat (10 * n + digit_val c))"
    using Cons.prems(1) by (simp del: of_nat_add of_nat_mult)
  then show ?case using Cons.IH [of "10 * n + digit_val c"] Cons.prems by (simp add: value_from_def del: of_nat_add of_nat_mult)
qed

text \<open>\<open>parse_uint64_t\<close> reads the longest run of digits as a decimal number modulo \<open>2 ^ 64\<close>,
  so it reads back every 64-bit number that was printed; without a digit in front it fails.\<close>

theorem parse_uint64_t_value:
  assumes "\<forall>c \<in> set ds. is_digit c" "rest = [] \<or> \<not> is_digit (hd rest)"
  shows "parse_uint64_t (ds @ rest) = (if ds = [] then None else Some (rest, of_nat (value_from 0 ds))) \<and>
    parse_uint64_t (PRIu64 v @ rest) = Some (rest, v)"
proof -
  have p: "parse_uint64_t (es @ rest) = (if es = [] then None else Some (rest, of_nat (value_from 0 es)))"
    if "\<forall>c \<in> set es. is_digit c" for es
    using parse_digits_value [of es rest 0] that assms(2)
    by (cases es; cases rest) (auto simp: parse_uint64_t_def)
  show ?thesis using p [OF assms(1)] p [of "PRIu64 v"] decimal_digits [of _ "unat v"] by simp
qed

section \<open>The tracepoints found\<close>

text \<open>The tracepoints are the directory entries whose type has the bit of regular files, in
  order, when there are at most 32 of them; otherwise the program fails and the copy of the
  first name is never freed.\<close>

theorem list_fast_tracepoints_entries:
  "list_fast_tracepoints entries =
    (let names = [d_name. (d_name, d_type) \<leftarrow> entries, d_type AND DT_REG \<noteq> 0]
     in if length names \<le> 32 then Listed names else Too_many (rev [1..<32]))"
proof -
  have "list_loop entries acc =
    (let names = acc @ [d_name. (d_name, d_type) \<leftarrow> entries, d_type AND DT_REG \<noteq> 0]
     in if length names \<le> 32 then Listed names else Too_many (rev [1..<32]))" if "length acc \<le> 32" for acc
    using that
  proof (induction entries acc rule: list_loop.induct)
    case (2 d_name d_type entries acc)
    then show ?case by (cases "length acc = MAX_FAST_TRACEPOINTS") (auto simp: MAX_FAST_TRACEPOINTS_def Let_def)
  qed (simp add: Let_def)
  from this [of "[]"] show ?thesis by (simp add: list_fast_tracepoints_def)
qed

section \<open>The length\<close>

lemma and_not_mask: "(x :: u64) AND NOT (mask k) = push_bit k (drop_bit k x)"
  by (rule bit_eqI) (auto simp: bit_and_iff bit_not_iff bit_mask_iff bit_push_bit_iff bit_drop_bit_eq possible_bit_def dest: bit_imp_le_length)

text \<open>For a page size that is a power of two the length is rounded up to the next multiple of
  the page size, except within a page of \<open>2 ^ 64\<close>, where it wraps around to 0 and no page is
  touched.\<close>

theorem round_length_rounds:
  assumes "k < 64"
  shows "unat (round_length len (2 ^ k)) =
    (if unat len + 2 ^ k - 1 < 2 ^ 64 then 2 ^ k * ((unat len + 2 ^ k - 1) div 2 ^ k) else 0)"
proof -
  have m: "(2 ^ k :: u64) - 1 = mask k" by (simp add: mask_eq_decr_exp)
  have p: "(2 :: nat) ^ k \<le> 2 ^ 63" using assms by (intro power_increasing) simp_all
  let ?s = "len + 2 ^ k - 1 :: u64"
  have r: "unat (round_length len (2 ^ k)) = 2 ^ k * (unat ?s div 2 ^ k)"
  proof -
    have "unat (push_bit k (drop_bit k ?s)) = 2 ^ k * (unat ?s div 2 ^ k) mod 2 ^ 64"
      unfolding unsigned_push_bit_eq unat_drop_bit_eq by (simp add: push_bit_eq_mult drop_bit_eq_div take_bit_eq_mod mult.commute)
    moreover have "2 ^ k * (unat ?s div 2 ^ k) < 2 ^ 64" by (rule le_less_trans [OF times_div_less_eq_dividend]) (use unsigned_less [of ?s] in simp)
    ultimately show ?thesis by (simp add: round_length_def m and_not_mask)
  qed
  have s: "unat ?s = (unat len + (2 ^ k - 1)) mod 2 ^ 64"
  proof -
    have "(of_nat (2 ^ k - 1) :: u64) = 2 ^ k - 1" by (subst of_nat_diff) simp_all
    then have "?s = of_nat (unat len + (2 ^ k - 1))" by (simp only: of_nat_add of_nat_unat ucast_id add_diff_eq)
    then show ?thesis by (simp only: unat_of_nat) simp
  qed
  show ?thesis
  proof (cases "unat len + 2 ^ k - 1 < 2 ^ 64")
    case True
    then show ?thesis using r s one_le_power [of "2 :: nat" k] by (simp add: Nat.add_diff_assoc)
  next
    case False
    have "unat len < 2 ^ 64" using unsigned_less [of len] by simp
    then have "(unat len + (2 ^ k - 1)) mod 2 ^ 64 = unat len + (2 ^ k - 1) - 2 ^ 64"
      using False p one_le_power [of "2 :: nat" k] by (simp add: le_mod_geq)
    then have "unat ?s < 2 ^ k" using s \<open>unat len < 2 ^ 64\<close> one_le_power [of "2 :: nat" k] by linarith
    then show ?thesis using r False by simp
  qed
qed

section \<open>The rows\<close>

text \<open>The columns and the fields of a row, as lists.\<close>

definition header_row :: "collector \<Rightarrow> string list" where
  "header_row c = ''end'' # (if no_msg_received c then [] else [''msg_received'']) @
     (if dir_open c then ''isr_entry'' # ''iret'' # fast_tracepoints c else [])"

definition delay_field :: "sample \<Rightarrow> u64 \<Rightarrow> string" where
  "delay_field s t = (if t > timestamp_page_fault s then PRIu64 (t - timestamp_page_fault s) else [])"

definition tracepoint_time :: "sample \<Rightarrow> string \<Rightarrow> u64" where
  "tracepoint_time s name = the (read_fast_tracepoint (tracepoint_file s) name)"

definition data_row :: "collector \<Rightarrow> sample \<Rightarrow> string list" where
  "data_row c s = PRIu64 (timestamp_end s - timestamp_page_fault s) #
     (if no_msg_received c then [] else [delay_field s (timestamp_msg_received s)]) @
     (if dir_open c
      then PRIu64 (timestamp_isr_entry s - timestamp_page_fault s) # PRIu64 (timestamp_iret s - timestamp_page_fault s) #
        map (\<lambda>n. delay_field s (tracepoint_time s n)) (fast_tracepoints c)
      else [])"

definition readable :: "collector \<Rightarrow> sample \<Rightarrow> bool" where
  "readable c s \<longleftrightarrow> (dir_open c \<longrightarrow> (\<forall>n \<in> set (fast_tracepoints c). read_fast_tracepoint (tracepoint_file s) n \<noteq> None))"

lemma length_data_row: "length (data_row c s) = length (header_row c)"
  by (simp add: data_row_def header_row_def)

lemma print_columns_line: "print_columns c = csv_line (header_row c)"
  unfolding print_columns_def header_row_def join_concat by simp

lemma print_tracepoints_fields:
  "\<forall>n \<in> set names. read_fast_tracepoint (tracepoint_file s) n \<noteq> None \<Longrightarrow>
   print_tracepoints s names = (concat (map (\<lambda>n. CHR '','' # delay_field s (tracepoint_time s n)) names), True)"
  by (induction names) (auto simp: delay_field_def tracepoint_time_def)

lemma print_sample_line: "readable c s \<Longrightarrow> print_sample c s = (csv_line (data_row c s), True)"
  unfolding print_sample_def data_row_def join_concat readable_def
  by (auto simp: print_tracepoints_fields delay_field_def Let_def comp_def)

lemma page_loop_rows:
  assumes "0 < p" "n * p < 2 ^ 64" "\<And>j. j < n \<Longrightarrow> readable c (smp (of_nat (j * p)))"
  shows "k \<le> n \<Longrightarrow> page_loop c (of_nat (n * p)) (of_nat p) smp (of_nat (k * p)) =
    Some (concat (map (\<lambda>j. csv_line (data_row c (smp (of_nat (j * p))))) [k..<n]), True)"
proof (induction "n - k" arbitrary: k)
  case 0
  then show ?case by (subst page_loop.simps) simp
next
  case (Suc d)
  have kn: "k * p < n * p" using Suc assms(1) by simp
  have "take_bit 64 (k * p) = k * p" "take_bit 64 (n * p) = n * p"
    using less_trans [OF kn assms(2)] assms(2) by (simp_all only: take_bit_nat_eq_self)
  then have l: "(of_nat (k * p) :: u64) < of_nat (n * p)" using kn by (simp add: word_of_nat_less_iff del: of_nat_mult)
  have s: "(of_nat (k * p) + of_nat p :: u64) = of_nat (Suc k * p)" by simp
  have r: "print_sample c (smp (of_nat (k * p))) = (csv_line (data_row c (smp (of_nat (k * p)))), True)"
    using assms(3) [of k] Suc by (intro print_sample_line) simp
  have "page_loop c (of_nat (n * p)) (of_nat p) smp (of_nat (Suc k * p)) =
      Some (concat (map (\<lambda>j. csv_line (data_row c (smp (of_nat (j * p))))) [Suc k..<n]), True)"
    by (rule Suc.hyps(1)) (use Suc in simp_all)
  then show ?case
    using Suc.hyps(2) by (subst page_loop.simps) (simp add: l s r upt_conv_Cons del: of_nat_mult of_nat_add)
qed

text \<open>The table of an iteration whose calls succeed.\<close>

lemma do_iteration_rows:
  assumes "0 < p" "n * p < 2 ^ 64" "\<And>j. j < n \<Longrightarrow> readable c (smp (of_nat (j * p)))"
  shows "do_iteration c (True, True, True) (of_nat (n * p)) u (of_nat p) smp =
    Some (concat (map csv_line (header_row c # map (\<lambda>j. data_row c (smp (of_nat (j * p)))) [0..<n])), True)"
  using page_loop_rows [where smp = smp and c = c, OF assms, of 0] by (simp add: do_iteration_def print_columns_line comp_def)

section \<open>Documented options\<close>

text \<open>The options \<open>-f\<close>, \<open>-s\<close>, \<open>-n\<close>, \<open>--file\<close>, \<open>--start\<close> and \<open>--no-msg-received\<close> of the
  usage text are refused wherever they occur: the program exits with a failure and prints no
  table.  So does \<open>--help\<close>, after the usage text.\<close>

theorem documented_options_refused:
  assumes "a \<in> set as"
    "a \<in> {Short (CHR ''f'') x, Short (CHR ''s'') x, Short (CHR ''n'') x, Short (CHR ''h'') x,
      Long ''file'' x, Long ''start'' x, Long ''no-msg-received'' x, Long ''help'' x}"
  shows "collect_main e as = Some (False, [])"
proof -
  have "fst (getopt_long a) = CHR ''?'' \<or> fst (getopt_long a) = CHR ''s'' \<or> fst (getopt_long a) = CHR ''h''"
    using assms(2) unfolding insert_iff empty_iff
    by (elim disjE) (simp_all add: short_options_def long_options_def)
  then have n: "apply_option (fst (getopt_long a)) y o' = None" for y o' by (elim disjE) (simp_all add: apply_option_def)
  have "parse_options as o' = None" for o'
    using assms(1)
  proof (induction as arbitrary: o')
    case (Cons b as)
    obtain opt optarg where b: "getopt_long b = (opt, optarg)" by (cases "getopt_long b")
    show ?case
    proof (cases "b = a")
      case True
      then show ?thesis using n [of optarg o'] b by simp
    next
      case False
      then show ?thesis using Cons b by (cases "apply_option opt optarg o'") auto
    qed
  qed simp
  then show ?thesis by (simp add: collect_main_def)
qed

theorem documented_options_refused_witness:
  "\<forall>e. collect_main e [Short (CHR ''l'') ''8192'', Short (CHR ''n'') []] = Some (False, [])"
  using documented_options_refused [of "Short (CHR ''n'') []" "[Short (CHR ''l'') ''8192'', Short (CHR ''n'') []]" "[]"]
  by simp

theorem parse_uint64_t_value_witness:
  "parse_uint64_t ''18446744073709551617;'' = Some ('';'', 1) \<and> parse_uint64_t (PRIu64 (- 1) @ '';'') = Some ('';'', - 1)"
proof -
  have "\<forall>c \<in> set ''18446744073709551617''. is_digit c" "'';'' = [] \<or> \<not> is_digit (hd '';'')" by (simp_all add: is_digit_def)
  note t = parse_uint64_t_value [OF this, of "- 1"]
  have "value_from 0 ''18446744073709551617'' = 18446744073709551617" by (simp add: value_from_def digit_val_def)
  then show ?thesis using t by simp
qed

theorem round_length_rounds_witness:
  "unat (round_length 4097 (2 ^ 12)) = 8192 \<and> unat (round_length (- 4095) (2 ^ 12)) = 0"
  using round_length_rounds [of 12 4097] round_length_rounds [of 12 "- 4095"] by simp

end
