(* ===== verification/Chart.thy ===== *)
theory Chart
  imports Collect_Timings
begin

text \<open>
  The scripts that turn collected timings into charts:
  \<open>convert-timeline-to-stacked-area-chart.py\<close>, which finds the most common order of the
  tracepoints and prints the delays between them, and \<open>sum-and-remap-columns.py\<close>, which adds
  columns up.  An exception is a value of \<open>py_error\<close>; what was printed before it is left out.
\<close>

section \<open>Exceptions\<close>

datatype py_error = ValueError | IndexError | RuntimeError | StopIteration

fun traverse :: "('a \<Rightarrow> 'e + 'b) \<Rightarrow> 'a list \<Rightarrow> 'e + 'b list" where
  "traverse f [] = Inr []"
| "traverse f (x # xs) =
    (case f x of Inl e \<Rightarrow> Inl e | Inr y \<Rightarrow> (case traverse f xs of Inl e \<Rightarrow> Inl e | Inr ys \<Rightarrow> Inr (y # ys)))"

lemma traverse_Inr: "(\<And>x. x \<in> set xs \<Longrightarrow> f x = Inr (g x)) \<Longrightarrow> traverse f xs = Inr (map g xs)"
  by (induction xs) simp_all

lemma traverse_InrD: "traverse f xs = Inr ys \<Longrightarrow> map f xs = map Inr ys"
  by (induction xs arbitrary: ys) (auto split: sum.splits)

definition py_nth :: "'a list \<Rightarrow> nat \<Rightarrow> py_error + 'a" where
  "py_nth xs i = (if i < length xs then Inr (xs ! i) else Inl IndexError)"

definition py_int_of :: "string \<Rightarrow> py_error + int" where
  "py_int_of t = (case py_int t of None \<Rightarrow> Inl ValueError | Some v \<Rightarrow> Inr v)"

section \<open>The order of the tracepoints\<close>

fun hit_tracepoints :: "nat \<Rightarrow> string list \<Rightarrow> py_error + (nat \<times> int) list" where
  "hit_tracepoints i [] = Inr []"
| "hit_tracepoints i (timestamp # row) =
    (if timestamp \<noteq> []
     then (case py_int_of timestamp of
             Inl e \<Rightarrow> Inl e
           | Inr v \<Rightarrow> (case hit_tracepoints (Suc i) row of Inl e \<Rightarrow> Inl e | Inr hs \<Rightarrow> Inr ((i, v) # hs)))
     else hit_tracepoints (Suc i) row)"

definition row_order :: "string list \<Rightarrow> py_error + nat list" where
  "row_order row = (case hit_tracepoints 0 row of Inl e \<Rightarrow> Inl e | Inr hs \<Rightarrow> Inr (map fst (sort_key snd hs)))"

text \<open>\<open>next(reader)\<close> on an empty file ends a generator with an exception.\<close>

definition get_order_of_tracepoints :: "string list list \<Rightarrow> py_error + nat list list" where
  "get_order_of_tracepoints reader =
    (case reader of [] \<Rightarrow> Inl RuntimeError | _ # rows \<Rightarrow> traverse row_order rows)"

text \<open>\<open>Counter\<close> keeps the items in the order of their first occurrence;
  \<open>most_common(1)\<close> is the first item with the largest count.\<close>

fun tally :: "'a \<Rightarrow> ('a \<times> nat) list \<Rightarrow> ('a \<times> nat) list" where
  "tally x [] = [(x, 1)]"
| "tally x ((y, n) # c) = (if x = y then (y, Suc n) # c else (y, n) # tally x c)"

definition Counter :: "'a list \<Rightarrow> ('a \<times> nat) list" where
  "Counter xs = fold tally xs []"

fun first_max :: "'a \<times> nat \<Rightarrow> ('a \<times> nat) list \<Rightarrow> 'a \<times> nat" where
  "first_max p [] = p"
| "first_max p (q # c) = (if snd p < snd q then first_max q c else first_max p c)"

definition most_common :: "('a \<times> nat) list \<Rightarrow> py_error + 'a" where
  "most_common c = (case c of [] \<Rightarrow> Inl IndexError | p # c \<Rightarrow> Inr (fst (first_max p c)))"

section \<open>The chart\<close>

fun reorder_timestamps_and_convert_to_delays :: "string list \<Rightarrow> int \<Rightarrow> nat list \<Rightarrow> py_error + int list option" where
  "reorder_timestamps_and_convert_to_delays timestamps previous_timestamp [] = Inr (Some [])"
| "reorder_timestamps_and_convert_to_delays timestamps previous_timestamp (i # order) =
    (case py_nth timestamps i of
       Inl e \<Rightarrow> Inl e
     | Inr timestamp \<Rightarrow>
        if timestamp = [] then Inr None
        else case py_int_of timestamp of
          Inl e \<Rightarrow> Inl e
        | Inr t \<Rightarrow>
            if t < previous_timestamp then Inr None
            else case reorder_timestamps_and_convert_to_delays timestamps t order of
              Inr (Some reordered) \<Rightarrow> Inr (Some ((t - previous_timestamp) # reordered))
            | r \<Rightarrow> r)"

fun chart_loop :: "string list list \<Rightarrow> nat list \<Rightarrow> int option \<Rightarrow> int \<Rightarrow> py_error + string" where
  "chart_loop [] order max_lines ls = Inr []"
| "chart_loop (row # rows) order max_lines ls =
    (case reorder_timestamps_and_convert_to_delays row 0 order of
       Inl e \<Rightarrow> Inl e
     | Inr None \<Rightarrow> chart_loop rows order max_lines ls
     | Inr (Some reordered) \<Rightarrow>
         let out = csv_line (map str_int reordered); ls = ls + 1
         in if max_lines = Some ls then Inr out
            else (case chart_loop rows order max_lines ls of Inl e \<Rightarrow> Inl e | Inr rest \<Rightarrow> Inr (out @ rest)))"

definition print_stacked_chart :: "string list list \<Rightarrow> nat list \<Rightarrow> int option \<Rightarrow> py_error + string" where
  "print_stacked_chart reader order max_lines =
    (case reader of
       [] \<Rightarrow> Inl StopIteration
     | cols # rows \<Rightarrow>
        (case traverse (py_nth cols) order of
           Inl e \<Rightarrow> Inl e
         | Inr cs \<Rightarrow>
            (case chart_loop rows order max_lines 0 of Inl e \<Rightarrow> Inl e | Inr rest \<Rightarrow> Inr (csv_line cs @ rest))))"

definition stacked_chart :: "string \<Rightarrow> int option \<Rightarrow> py_error + string" where
  "stacked_chart f max_lines =
    (case get_order_of_tracepoints (csv_reader f) of
       Inl e \<Rightarrow> Inl e
     | Inr orders \<Rightarrow>
        (case most_common (Counter orders) of
           Inl e \<Rightarrow> Inl e
         | Inr most_common_order \<Rightarrow> print_stacked_chart (csv_reader f) most_common_order max_lines))"

section \<open>Sums of columns\<close>

definition py_index :: "string list \<Rightarrow> string \<Rightarrow> py_error + nat" where
  "py_index xs x = (if x \<in> set xs then Inr (length (takeWhile (\<lambda>y. y \<noteq> x) xs)) else Inl ValueError)"

text \<open>\<open>s.split('=', 2)\<close> gives two parts, as the assignment needs, for exactly one equals sign.\<close>

definition parse_column :: "string \<Rightarrow> string list \<Rightarrow> py_error + string \<times> nat list" where
  "parse_column s source_columns =
    (case split_on (CHR ''='') s of
       [new_name, columns_to_sum] \<Rightarrow>
         (case traverse (py_index source_columns) (split_on (CHR ''+'') columns_to_sum) of
            Inl e \<Rightarrow> Inl e
          | Inr is' \<Rightarrow> Inr (new_name, is'))
     | _ \<Rightarrow> Inl ValueError)"

definition transform_row :: "int list \<Rightarrow> (string \<times> nat list) list \<Rightarrow> py_error + int list" where
  "transform_row row new_columns =
    traverse (\<lambda>(_, columns_to_sum).
      case traverse (py_nth row) columns_to_sum of Inl e \<Rightarrow> Inl e | Inr vs \<Rightarrow> Inr (sum_list vs)) new_columns"

definition sum_row :: "(string \<times> nat list) list \<Rightarrow> string list \<Rightarrow> py_error + string" where
  "sum_row new_columns row =
    (case traverse py_int_of row of
       Inl e \<Rightarrow> Inl e
     | Inr vs \<Rightarrow> (case transform_row vs new_columns of Inl e \<Rightarrow> Inl e | Inr out \<Rightarrow> Inr (csv_line (map str_int out))))"

definition sum_and_remap :: "string \<Rightarrow> string list \<Rightarrow> py_error + string" where
  "sum_and_remap f new_columns =
    (case csv_reader f of
       [] \<Rightarrow> Inl StopIteration
     | source_columns # rows \<Rightarrow>
        (case traverse (\<lambda>s. parse_column s source_columns) new_columns of
           Inl e \<Rightarrow> Inl e
         | Inr cs \<Rightarrow>
            (case traverse (sum_row cs) rows of
               Inl e \<Rightarrow> Inl e
             | Inr outs \<Rightarrow> Inr (csv_line (map fst cs) @ concat outs))))"

section \<open>The most common order\<close>

lemma tally_count: "distinct (map fst c) \<Longrightarrow> distinct (map fst (tally x c)) \<and> fst ` set (tally x c) = insert x (fst ` set c) \<and>
    (\<forall>y n. (y, n) \<in> set (tally x c) \<longleftrightarrow> (if y = x then n = Suc (case map_of c x of Some k \<Rightarrow> k | None \<Rightarrow> 0) else (y, n) \<in> set c))"
  by (induction x c rule: tally.induct) (auto simp: image_iff rev_image_eqI split: option.splits if_splits dest: map_of_SomeD)

lemma Counter_counts:
  "distinct (map fst (Counter xs)) \<and> fst ` set (Counter xs) = set xs \<and> (\<forall>y n. (y, n) \<in> set (Counter xs) \<longrightarrow> n = count_list xs y)"
proof (induction xs rule: rev_induct)
  case Nil
  then show ?case by (simp add: Counter_def)
next
  case (snoc x xs)
  have c: "Counter (xs @ [x]) = tally x (Counter xs)" by (simp add: Counter_def)
  have "(case map_of (Counter xs) x of Some k \<Rightarrow> k | None \<Rightarrow> 0) = count_list xs x"
  proof (cases "map_of (Counter xs) x")
    case None
    then have "x \<notin> set xs" using snoc by (metis map_of_eq_None_iff)
    then show ?thesis using None by simp
  next
    case (Some k)
    then show ?thesis using snoc map_of_SomeD [OF Some] by simp
  qed
  then show ?case using snoc tally_count [of "Counter xs" x] unfolding c by auto
qed

lemma first_max_max: "first_max p c \<in> set (p # c) \<and> (\<forall>q \<in> set (p # c). snd q \<le> snd (first_max p c))"
  by (induction p c rule: first_max.induct) (auto intro: order_trans less_imp_le)

lemma most_common_max:
  assumes "xs \<noteq> []"
  obtains x where "most_common (Counter xs) = Inr x" "x \<in> set xs" "\<And>y. count_list xs y \<le> count_list xs x"
proof -
  note C = Counter_counts [of xs]
  obtain p c where p: "Counter xs = p # c" using C assms by (cases "Counter xs") auto
  let ?m = "first_max p c"
  have m: "?m \<in> set (Counter xs)" "\<And>q. q \<in> set (Counter xs) \<Longrightarrow> snd q \<le> snd ?m" using first_max_max [of p c] p by auto
  have k: "snd ?m = count_list xs (fst ?m)" using C m(1) by (metis prod.collapse)
  have "count_list xs y \<le> count_list xs (fst ?m)" for y
  proof (cases "y \<in> set xs")
    case True
    then obtain n where "(y, n) \<in> set (Counter xs)" using C by (metis (no_types, lifting) imageE prod.collapse)
    then show ?thesis using C m(2) k by fastforce
  qed simp
  moreover have "fst ?m \<in> set xs" using C m(1) by (metis image_eqI)
  moreover have "most_common (Counter xs) = Inr (fst ?m)" by (simp add: most_common_def p)
  ultimately show ?thesis using that by blast
qed

section \<open>Delays\<close>

lemma delays_sum:
  assumes "reorder_timestamps_and_convert_to_delays timestamps t order = Inr (Some ds)"
  shows "length ds = length order \<and> (\<forall>d \<in> set ds. 0 \<le> d) \<and>
    (\<forall>k < length order. py_int (timestamps ! (order ! k)) = Some (t + sum_list (take (Suc k) ds)))"
  using assms
proof (induction order arbitrary: t ds)
  case (Cons i order)
  obtain v es where v: "py_int (timestamps ! i) = Some v" "t \<le> v" "ds = (v - t) # es"
    and es: "reorder_timestamps_and_convert_to_delays timestamps v order = Inr (Some es)"
    using Cons.prems by (auto simp: py_nth_def py_int_of_def split: if_splits option.splits sum.splits)
  have "py_int (timestamps ! ((i # order) ! k)) = Some (t + sum_list (take (Suc k) ds))" if "k < length (i # order)" for k
    using Cons.IH [OF es] v that by (cases k) auto
  then show ?case using Cons.IH [OF es] v by simp
qed simp

text \<open>C35: when a row is charted, its delays are not negative, one for each tracepoint of the
  order, and adding them up from the left gives back the time stamps of the row.\<close>

theorem delays_sum_up:
  assumes "reorder_timestamps_and_convert_to_delays timestamps t order = Inr (Some ds)"
  shows "length ds = length order \<and> (\<forall>d \<in> set ds. 0 \<le> d) \<and>
    (\<forall>k < length order. py_int (timestamps ! (order ! k)) = Some (t + sum_list (take (Suc k) ds)))"
  by (rule delays_sum [OF assms])

text \<open>Fields that a table of time stamps may have.\<close>

definition timing_field :: "string \<Rightarrow> bool" where
  "timing_field w \<longleftrightarrow> w = [] \<or> (\<exists>v \<ge> 0. py_int w = Some v)"

definition hit_of :: "nat \<Rightarrow> string list \<Rightarrow> nat \<times> int \<Rightarrow> bool" where
  "hit_of i row = (\<lambda>(j, v). i \<le> j \<and> j < i + length row \<and> row ! (j - i) \<noteq> [] \<and> py_int (row ! (j - i)) = Some v \<and> 0 \<le> v)"

lemma hit_of_later: "hit_of (Suc i) row p \<Longrightarrow> hit_of i (w # row) p"
  by (auto simp: hit_of_def nth_Cons')

lemma hit_tracepoints_fields:
  assumes "\<And>w. w \<in> set row \<Longrightarrow> timing_field w"
  shows "\<exists>hs. hit_tracepoints i row = Inr hs \<and> (\<forall>p \<in> set hs. hit_of i row p)"
  using assms
proof (induction row arbitrary: i)
  case (Cons w row)
  then obtain hs where h: "hit_tracepoints (Suc i) row = Inr hs" "\<forall>p \<in> set hs. hit_of (Suc i) row p"
    by (metis list.set_intros(2))
  then have l: "\<forall>p \<in> set hs. hit_of i (w # row) p" using hit_of_later by blast
  show ?case
  proof (cases "w = []")
    case False
    then obtain v where v: "py_int w = Some v" "0 \<le> v" using Cons.prems [of w] by (auto simp: timing_field_def)
    then have "hit_of i (w # row) (i, v)" using False by (simp add: hit_of_def)
    then show ?thesis using h(1) l v False by (simp add: py_int_of_def)
  qed (use h l in simp)
qed simp

lemma reorder_sorted:
  assumes "sorted (map snd ps)" "\<And>j v. (j, v) \<in> set ps \<Longrightarrow> t \<le> v \<and> j < length row \<and> row ! j \<noteq> [] \<and> py_int (row ! j) = Some v"
  shows "\<exists>ds. reorder_timestamps_and_convert_to_delays row t (map fst ps) = Inr (Some ds)"
  using assms
proof (induction ps arbitrary: t)
  case (Cons p ps)
  obtain j v where p: "p = (j, v)" by fastforce
  then obtain ds where "reorder_timestamps_and_convert_to_delays row v (map fst ps) = Inr (Some ds)"
    using Cons.IH [of v] Cons.prems by fastforce
  then show ?case using Cons.prems(2) [of j v] p by (simp add: py_nth_def py_int_of_def)
qed simp

text \<open>A row with an order of its own is charted under that order.\<close>

lemma own_order_charted:
  assumes "\<And>w. w \<in> set row \<Longrightarrow> timing_field w"
  obtains order ds where "row_order row = Inr order" "\<And>i. i \<in> set order \<Longrightarrow> i < length row \<and> row ! i \<noteq> []"
    "reorder_timestamps_and_convert_to_delays row 0 order = Inr (Some ds)"
proof -
  obtain hs where h: "hit_tracepoints 0 row = Inr hs"
    "\<forall>(j, v) \<in> set hs. j < length row \<and> row ! j \<noteq> [] \<and> py_int (row ! j) = Some v \<and> 0 \<le> v"
    using hit_tracepoints_fields [OF assms, of row 0] by (auto simp: hit_of_def)
  let ?ps = "sort_key snd hs"
  obtain ds where "reorder_timestamps_and_convert_to_delays row 0 (map fst ?ps) = Inr (Some ds)"
    using reorder_sorted [of ?ps 0 row] h(2) by fastforce
  then show ?thesis using that [of "map fst ?ps"] h by (fastforce simp: row_order_def)
qed

text \<open>With any order of existing columns, a row is charted or skipped.\<close>

lemma reorder_total:
  assumes "\<And>w. w \<in> set row \<Longrightarrow> timing_field w" "\<And>i. i \<in> set order \<Longrightarrow> i < length row"
  shows "\<exists>r. reorder_timestamps_and_convert_to_delays row t order = Inr r"
  using assms(2)
proof (induction order arbitrary: t)
  case (Cons i order)
  have f: "timing_field (row ! i)" and i: "i < length row" using assms(1) Cons.prems by simp_all
  have ih: "\<exists>r. reorder_timestamps_and_convert_to_delays row v order = Inr r" for v using Cons by simp
  show ?case
  proof (cases "row ! i = []")
    case False
    then obtain v where v: "py_int (row ! i) = Some v" using f by (auto simp: timing_field_def)
    obtain r where "reorder_timestamps_and_convert_to_delays row v order = Inr r" using ih by blast
    then show ?thesis using v i False by (cases r) (simp_all add: py_nth_def py_int_of_def)
  qed (simp add: py_nth_def i)
qed simp

section \<open>The whole chart\<close>

definition delays_of :: "nat list \<Rightarrow> string list \<Rightarrow> int list option" where
  "delays_of order row = (case reorder_timestamps_and_convert_to_delays row 0 order of Inr r \<Rightarrow> r | Inl _ \<Rightarrow> None)"

definition charted :: "nat list \<Rightarrow> string list list \<Rightarrow> int list list" where
  "charted order rows = List.map_filter (delays_of order) rows"

lemma chart_loop_charted:
  assumes "\<And>row. row \<in> set rows \<Longrightarrow> \<exists>r. reorder_timestamps_and_convert_to_delays row 0 order = Inr r"
  shows "chart_loop rows order None k = Inr (concat (map (\<lambda>ds. csv_line (map str_int ds)) (charted order rows)))"
  using assms
proof (induction rows arbitrary: k)
  case Nil
  then show ?case by (simp add: charted_def map_filter_simps)
next
  case (Cons row rows)
  then obtain r where r: "reorder_timestamps_and_convert_to_delays row 0 order = Inr r" by auto
  have ih: "chart_loop rows order None j = Inr (concat (map (\<lambda>ds. csv_line (map str_int ds)) (charted order rows)))" for j
    using Cons by simp
  show ?case using r ih by (cases r) (simp_all add: charted_def delays_of_def map_filter_simps Let_def)
qed

lemma charted_count:
  assumes "\<And>row. row \<in> set rows \<Longrightarrow> row_order row = Inr order \<Longrightarrow> delays_of order row \<noteq> None"
    and "map row_order rows = map Inr orders"
  shows "count_list orders order \<le> length (charted order rows)"
  using assms
proof (induction rows arbitrary: orders)
  case (Cons row rows)
  then obtain o' os where o: "orders = o' # os" "row_order row = Inr o'" "map row_order rows = map Inr os" by (cases orders) auto
  have "count_list os order \<le> length (charted order rows)" using Cons o by simp
  moreover have "delays_of order row \<noteq> None" if "o' = order" using Cons.prems(1) [of row] o(2) that by simp
  ultimately show ?case using o(1) by (auto simp: charted_def map_filter_simps split: option.splits)
qed simp

text \<open>A table of time stamps: rows as long as the header, with fields that are empty or
  numbers.\<close>

definition timing_table :: "string list \<Rightarrow> string list list \<Rightarrow> bool" where
  "timing_table cols rows \<longleftrightarrow> (\<forall>row \<in> set rows. length row = length cols \<and> (\<forall>w \<in> set row. timing_field w))"

lemma most_common_charted:
  assumes f: "csv_reader f = cols # rows" and t: "timing_table cols rows" and ne: "rows \<noteq> []"
  shows "\<exists>orders order. map row_order rows = map Inr orders \<and> order \<in> set orders \<and>
    (\<forall>o'. count_list orders o' \<le> count_list orders order) \<and>
    stacked_chart f None = Inr (csv_line (map ((!) cols) order) @ concat (map (\<lambda>ds. csv_line (map str_int ds)) (charted order rows))) \<and>
    0 < count_list orders order \<and> count_list orders order \<le> length (charted order rows)"
proof -
  have own: "\<exists>order. row_order row = Inr order \<and> (\<forall>i \<in> set order. i < length cols) \<and> delays_of order row \<noteq> None"
    if "row \<in> set rows" for row
  proof -
    have w: "\<And>w. w \<in> set row \<Longrightarrow> timing_field w" and l: "length row = length cols" using t that by (auto simp: timing_table_def)
    show ?thesis by (rule own_order_charted [OF w]) (use l in \<open>auto simp: delays_of_def\<close>)
  qed
  define ord where "ord row = projr (row_order row)" for row
  have o: "row_order row = Inr (ord row)" "\<And>i. i \<in> set (ord row) \<Longrightarrow> i < length cols" "delays_of (ord row) row \<noteq> None"
    if "row \<in> set rows" for row using own [OF that] by (auto simp: ord_def)
  let ?orders = "map ord rows"
  have "?orders \<noteq> []" using ne by simp
  then obtain order where m: "most_common (Counter ?orders) = Inr order" "order \<in> set ?orders"
    "\<And>y. count_list ?orders y \<le> count_list ?orders order"
    using most_common_max [of ?orders] by blast
  have i: "i < length cols" if "i \<in> set order" for i using m(2) o(2) that by auto
  have "\<exists>r. reorder_timestamps_and_convert_to_delays row 0 order = Inr r" if "row \<in> set rows" for row
    by (rule reorder_total) (use t that i in \<open>auto simp: timing_table_def\<close>)
  note c = chart_loop_charted [OF this]
  have "traverse (py_nth cols) order = Inr (map ((!) cols) order)" by (rule traverse_Inr) (use i in \<open>simp add: py_nth_def\<close>)
  moreover have "traverse row_order rows = Inr ?orders" by (rule traverse_Inr) (use o in simp)
  ultimately have s: "stacked_chart f None = Inr (csv_line (map ((!) cols) order) @ concat (map (\<lambda>ds. csv_line (map str_int ds)) (charted order rows)))"
    using m(1) c by (simp add: stacked_chart_def get_order_of_tracepoints_def print_stacked_chart_def f)
  have r: "map row_order rows = map Inr ?orders" using o(1) by simp
  have k: "count_list ?orders order \<le> length (charted order rows)"
    by (rule charted_count [OF _ r]) (use o in fastforce)
  have "0 < count_list ?orders order" using m(2) by (simp add: count_list_0_iff flip: neq0_conv)
  then show ?thesis using r m s k by blast
qed

text \<open>C34: a table of time stamps with at least one row is charted without an exception.  The
  columns are those of an order that no other order of the rows exceeds in number; the rows
  are the delays of all rows that have that order's tracepoints in that order, in the
  sequence of the table, at least as many as the rows of exactly that order, so at least one.\<close>

theorem stacked_chart_most_common:
  assumes f: "csv_reader f = cols # rows" and t: "timing_table cols rows" and ne: "rows \<noteq> []"
  shows "\<exists>orders order. map row_order rows = map Inr orders \<and> order \<in> set orders \<and>
    (\<forall>o'. count_list orders o' \<le> count_list orders order) \<and>
    stacked_chart f None = Inr (csv_line (map ((!) cols) order) @ concat (map (\<lambda>ds. csv_line (map str_int ds)) (charted order rows))) \<and>
    0 < count_list orders order \<and> count_list orders order \<le> length (charted order rows)"
  by (rule most_common_charted [OF assms])

section \<open>From the collector to the chart\<close>

lemma decimal_field: "timing_field (decimal n) \<and> CHR '','' \<notin> set (decimal n) \<and> CHR 0x0A \<notin> set (decimal n)"
  using decimal_digits digit_plain by (fastforce simp: timing_field_def)

lemma data_row_field: "w \<in> set (data_row c s) \<Longrightarrow> timing_field w \<and> CHR '','' \<notin> set w \<and> CHR 0x0A \<notin> set w"
  using decimal_field by (auto simp: data_row_def delay_field_def timing_field_def split: if_splits)

lemma data_row_Cons: "\<exists>w ws. data_row c s = w # ws \<and> w \<noteq> []"
  by (simp add: data_row_def)

lemma data_row_plain: "plain_row (data_row c s)"
  using data_row_field [of _ c s] data_row_Cons [of c s] by (auto simp: plain_row_def)

definition plain_names :: "collector \<Rightarrow> bool" where
  "plain_names c \<longleftrightarrow> (\<forall>n \<in> set (fast_tracepoints c). CHR '','' \<notin> set n \<and> CHR 0x0A \<notin> set n)"

lemma header_row_plain: "plain_names c \<Longrightarrow> plain_row (header_row c)"
  by (auto simp: plain_row_def plain_names_def header_row_def)

lemma collected_rows_read:
  "plain_names c \<Longrightarrow> csv_reader (concat (map csv_line (header_row c # map (data_row c) ss))) = header_row c # map (data_row c) ss"
  by (rule csv_reader_lines) (auto simp: header_row_plain data_row_plain)

lemma first_hit: "row_order (w # ws) = Inr order \<Longrightarrow> w \<noteq> [] \<Longrightarrow> 0 \<in> set order"
  by (auto simp: row_order_def set_insort_key split: sum.splits if_splits)

lemma charted_row_plain:
  assumes "ds \<in> set (charted order rows)" "order \<noteq> []"
  shows "plain_row (map str_int ds)"
proof -
  obtain row where "reorder_timestamps_and_convert_to_delays row 0 order = Inr (Some ds)"
    using assms(1) by (auto simp: charted_def map_filter_def delays_of_def split: sum.splits)
  note d = delays_sum [OF this]
  have "str_int x = decimal (nat x)" if "x \<in> set ds" for x using d that by (simp add: str_int_def leD)
  then show ?thesis using d assms(2) decimal_field by (cases ds) (auto simp: plain_row_def)
qed

lemma charted_rows_plain: "order \<noteq> [] \<Longrightarrow> r \<in> set (map (map str_int) (charted order rows)) \<Longrightarrow> plain_row r"
  using charted_row_plain by auto

text \<open>C33: what the collector prints in one iteration over at least one page, when its calls
  succeed and the tracepoint files can be read, is charted by the script: the chart has the
  column \<open>end\<close> and between one row and as many rows as there are pages.\<close>

theorem collected_table_charts:
  assumes "plain_names c" "0 < p" "0 < n" "n * p < 2 ^ 64" "\<And>j. j < n \<Longrightarrow> readable c (smp (of_nat (j * p)))"
  shows "\<exists>t out cols rows. do_iteration c (True, True, True) (of_nat (n * p)) u (of_nat p) smp = Some (t, True) \<and>
    stacked_chart t None = Inr out \<and> csv_reader out = cols # rows \<and> ''end'' \<in> set cols \<and> 0 < length rows \<and> length rows \<le> n"
proof -
  let ?rows = "map (data_row c) (map (\<lambda>j. smp (of_nat (j * p))) [0..<n])"
  let ?t = "concat (map csv_line (header_row c # ?rows))"
  have i: "do_iteration c (True, True, True) (of_nat (n * p)) u (of_nat p) smp = Some (?t, True)"
    using do_iteration_rows [where smp = smp and c = c, OF assms(2,4,5)] by (simp add: comp_def)
  have "timing_table (header_row c) ?rows" using data_row_field by (auto simp: timing_table_def length_data_row)
  with collected_rows_read [OF assms(1)] obtain orders order where o: "map row_order ?rows = map Inr orders" "order \<in> set orders"
    "stacked_chart ?t None = Inr (csv_line (map ((!) (header_row c)) order) @ concat (map (\<lambda>ds. csv_line (map str_int ds)) (charted order ?rows)))"
    "0 < length (charted order ?rows)"
    using most_common_charted [of ?t "header_row c" ?rows] assms(3) by fastforce
  have "Inr order \<in> set (map row_order ?rows)" unfolding o(1) using o(2) by simp
  then obtain s where s: "row_order (data_row c s) = Inr order" by auto
  have z: "0 \<in> set order" using s(1) first_hit data_row_Cons [of c s] by metis
  let ?cols = "map ((!) (header_row c)) order" and ?ds = "map (map str_int) (charted order ?rows)"
  have e: "''end'' \<in> set ?cols" using z by (force simp: header_row_def)
  have l: "i < length (header_row c)" if "i \<in> set order" for i
    by (rule own_order_charted [of "data_row c s"]) (use s that data_row_field in \<open>auto simp: length_data_row\<close>)
  have "plain_row ?cols" using header_row_plain [OF assms(1)] l e by (auto simp: plain_row_def)
  moreover have "plain_row r" if "r \<in> set ?ds" for r by (rule charted_rows_plain [OF _ that]) (use z in auto)
  ultimately have "csv_reader (concat (map csv_line (?cols # ?ds))) = ?cols # ?ds" by (intro csv_reader_lines) auto
  moreover have "length ?ds \<le> n" by (simp add: charted_def map_filter_def) (rule le_trans [OF length_filter_le], simp)
  ultimately show ?thesis using i o(3,4) e by (intro exI [of _ ?t] exI conjI) (auto simp: comp_def)
qed

section \<open>More than one iteration\<close>

lemma hit_tracepoints_ValueError: "hit_tracepoints i row = Inl e \<Longrightarrow> e = ValueError"
  by (induction row arbitrary: i e) (auto simp: py_int_of_def split: if_splits option.splits sum.splits)

lemma traverse_fails:
  assumes "\<exists>x \<in> set xs. f x = Inl e" "\<And>x e'. f x = Inl e' \<Longrightarrow> e' = e"
  shows "traverse f xs = Inl e"
  using assms(1)
proof (induction xs)
  case (Cons x xs)
  then show ?case
  proof (cases "f x")
    case (Inl e')
    then show ?thesis using assms(2) by simp
  next
    case (Inr y)
    then have "traverse f xs = Inl e" using Cons by auto
    then show ?thesis using Inr by simp
  qed
qed simp

lemma header_not_charted: "header_row c \<in> set rows \<Longrightarrow> csv_reader t = cols # rows \<Longrightarrow> stacked_chart t m = Inl ValueError"
proof -
  assume h: "header_row c \<in> set rows" "csv_reader t = cols # rows"
  have "py_int ''end'' = None" by code_simp
  then have "row_order (header_row c) = Inl ValueError" by (simp add: row_order_def header_row_def py_int_of_def)
  moreover have "e = ValueError" if "row_order row = Inl e" for row e
    using that hit_tracepoints_ValueError by (auto simp: row_order_def split: sum.splits)
  ultimately have "traverse row_order rows = Inl ValueError" using traverse_fails [of rows row_order ValueError] h(1) by blast
  then show ?thesis by (simp add: stacked_chart_def get_order_of_tracepoints_def h)
qed

lemma concat_map_concat: "concat (map f (concat (map g xs))) = concat (map (\<lambda>x. concat (map f (g x))) xs)"
  by (induction xs) simp_all

lemma iterations_tables: "(\<And>i. i < m \<Longrightarrow> it i = Some (tab i, ok i)) \<Longrightarrow> iterations it m = Some (concat (map tab [0..<m]))"
  by (induction m) simp_all

text \<open>C36: the collector prints the header again at the start of every iteration.  So with two or
  more iterations its output is not charted: the script stops with a \<open>ValueError\<close> at the
  second header.\<close>

theorem repeated_header_not_charted:
  assumes "2 \<le> unat (iteration_count o')" "unat (iteration_count o') \<le> 2 ^ 31 - 1"
    "plain_names c" "0 < p" "n * p < 2 ^ 64" "en_page_size e = of_nat p" "round_length (op_length o') (of_nat p) = of_nat (n * p)"
    "\<And>i. en_calls e i = (True, True, True)" "\<And>i off. readable c (en_sample e i off)"
  shows "\<exists>t. run_iterations e o' c = Some (True, t) \<and> stacked_chart t max_lines = Inl ValueError"
proof -
  let ?m = "unat (iteration_count o')"
  define tab where "tab i = header_row c # map (data_row c) (map (\<lambda>j. en_sample e i (of_nat (j * p))) [0..<n])" for i
  have it: "do_iteration c (en_calls e i) (of_nat (n * p)) (with_userfaultfd o') (of_nat p) (en_sample e i) = Some (concat (map csv_line (tab i)), True)" for i
    using do_iteration_rows [where smp = "en_sample e i" and c = c, OF assms(4,5)] assms(8,9) by (simp add: tab_def comp_def)
  let ?t = "concat (map (\<lambda>i. concat (map csv_line (tab i))) [0..<?m])"
  have "run_iterations e o' c = Some (True, ?t)"
    using assms(2,6,7) iterations_tables [where tab = "\<lambda>i. concat (map csv_line (tab i))" and ok = "\<lambda>_. True", OF it]
    by (simp add: run_iterations_def del: of_nat_mult)
  moreover have "?t = concat (map csv_line (concat (map tab [0..<?m])))" by (simp only: concat_map_concat)
  moreover have "csv_reader (concat (map csv_line (concat (map tab [0..<?m])))) = concat (map tab [0..<?m])"
  proof (rule csv_reader_lines)
    fix r assume "r \<in> set (concat (map tab [0..<?m]))"
    then obtain i where "r \<in> set (tab i)" by auto
    then show "plain_row r" using header_row_plain [OF assms(3)] data_row_plain by (auto simp: tab_def)
  qed
  moreover have "[0..<?m] = 0 # 1 # [2..<?m]" using assms(1) by (simp add: upt_conv_Cons numeral_2_eq_2)
  then have "\<exists>rows. concat (map tab [0..<?m]) = header_row c # rows \<and> header_row c \<in> set rows" by (simp add: tab_def)
  ultimately show ?thesis using header_not_charted by metis
qed

section \<open>Sums of columns\<close>

definition column_index :: "string list \<Rightarrow> string \<Rightarrow> nat" where
  "column_index cols c = length (takeWhile (\<lambda>y. y \<noteq> c) cols)"

lemma column_index_less: "c \<in> set cols \<Longrightarrow> column_index cols c < length cols \<and> cols ! column_index cols c = c"
  unfolding column_index_def by (induction cols) auto

definition column_spec :: "string \<times> string list \<Rightarrow> string" where
  "column_spec = (\<lambda>(name, cs). name @ CHR ''='' # join (CHR ''+'') cs)"

definition good_spec :: "string list \<Rightarrow> string \<times> string list \<Rightarrow> bool" where
  "good_spec cols = (\<lambda>(name, cs). CHR ''='' \<notin> set name \<and> cs \<noteq> [] \<and> set cs \<subseteq> set cols \<and>
     (\<forall>c \<in> set cs. CHR ''='' \<notin> set c \<and> CHR ''+'' \<notin> set c))"

lemma parse_column_spec:
  assumes "good_spec cols (name, cs)"
  shows "parse_column (column_spec (name, cs)) cols = Inr (name, map (column_index cols) cs)"
proof -
  have g: "CHR ''='' \<notin> set name" "cs \<noteq> []" "set cs \<subseteq> set cols" "\<forall>c \<in> set cs. CHR ''='' \<notin> set c \<and> CHR ''+'' \<notin> set c"
    using assms by (simp_all add: good_spec_def)
  have "CHR ''='' \<notin> set (join (CHR ''+'') cs)" using set_join [of "CHR ''=''" "CHR ''+''" cs] g(4) by auto
  then have "split_on (CHR ''='') (column_spec (name, cs)) = [name, join (CHR ''+'') cs]"
    using g(1) by (simp add: column_spec_def split_on_append split_on_word)
  moreover have "split_on (CHR ''+'') (join (CHR ''+'') cs) = cs" by (rule split_on_join) (use g in auto)
  moreover have "traverse (py_index cols) cs = Inr (map (column_index cols) cs)"
    by (rule traverse_Inr) (use g(3) in \<open>auto simp: py_index_def column_index_def\<close>)
  ultimately show ?thesis by (simp add: parse_column_def)
qed

definition row_sum :: "string list \<Rightarrow> string list \<Rightarrow> string list \<Rightarrow> int" where
  "row_sum cols row cs = sum_list (map (\<lambda>c. the (py_int (row ! column_index cols c))) cs)"

text \<open>For new columns written \<open>name=c1+...+cn\<close> over the columns of a table of numbers, the
  sums script prints the new names and, for every row, the sums of the fields under the
  columns named.\<close>

theorem sum_and_remap_sums:
  assumes f: "csv_reader f = cols # rows" and r: "\<forall>row \<in> set rows. length row = length cols \<and> (\<forall>w \<in> set row. py_int w \<noteq> None)"
    and s: "\<forall>p \<in> set spec. good_spec cols p"
  shows "sum_and_remap f (map column_spec spec) =
    Inr (csv_line (map fst spec) @ concat (map (\<lambda>row. csv_line (map (\<lambda>(_, cs). str_int (row_sum cols row cs)) spec)) rows))"
proof -
  let ?cs = "map (\<lambda>(name, cs). (name, map (column_index cols) cs)) spec"
  have p: "traverse (\<lambda>s. parse_column s cols) (map column_spec spec) = Inr ?cs"
    using s by (induction spec) (auto simp: parse_column_spec)
  have "sum_row ?cs row = Inr (csv_line (map (\<lambda>(_, cs). str_int (row_sum cols row cs)) spec))" if "row \<in> set rows" for row
  proof -
    have l: "length row = length cols" "\<And>w. w \<in> set row \<Longrightarrow> py_int w \<noteq> None" using r that by auto
    let ?vs = "map (\<lambda>w. the (py_int w)) row"
    have v: "traverse py_int_of row = Inr ?vs" by (rule traverse_Inr) (use l(2) in \<open>force simp: py_int_of_def\<close>)
    have "transform_row ?vs ?cs = Inr (map (\<lambda>(_, cs). row_sum cols row cs) spec)"
      using s
    proof (induction spec)
      case (Cons q spec)
      obtain name cs where q: "q = (name, cs)" by fastforce
      have "traverse (py_nth ?vs) (map (column_index cols) cs) = Inr (map (\<lambda>c. ?vs ! column_index cols c) cs)"
        using Cons.prems q column_index_less l(1)
        by (subst traverse_Inr [where g = "\<lambda>i. ?vs ! i"]) (auto simp: py_nth_def good_spec_def)
      moreover have "map (\<lambda>c. ?vs ! column_index cols c) cs = map (\<lambda>c. the (py_int (row ! column_index cols c))) cs"
        using Cons.prems q column_index_less l(1) by (auto simp: good_spec_def)
      ultimately show ?case using Cons q by (simp add: transform_row_def row_sum_def)
    qed (simp add: transform_row_def)
    then show ?thesis using v by (simp add: sum_row_def comp_def case_prod_unfold)
  qed
  then have "traverse (sum_row ?cs) rows = Inr (map (\<lambda>row. csv_line (map (\<lambda>(_, cs). str_int (row_sum cols row cs)) spec)) rows)"
    by (rule traverse_Inr)
  moreover have "map fst ?cs = map fst spec" by auto
  ultimately show ?thesis by (simp only: sum_and_remap_def f p list.case sum.case)
qed

section \<open>Concrete tables\<close>

definition timeline :: string where
  "timeline = ''end,iret'' @ CHR 0x0A # ''900,700'' @ CHR 0x0A # ''800,'' @ CHR 0x0A # ''650,640'' @ [CHR 0x0A]"

lemma csv_reader_timeline: "csv_reader timeline = [[''end'', ''iret''], [''900'', ''700''], [''800'', []], [''650'', ''640'']]"
  by code_simp

lemma py_int_numbers [simp]:
  "py_int ''900'' = Some 900" "py_int ''700'' = Some 700" "py_int ''800'' = Some 800" "py_int ''650'' = Some 650" "py_int ''640'' = Some 640"
  by code_simp+

theorem delays_sum_up_witness:
  "reorder_timestamps_and_convert_to_delays [''900'', ''700''] 0 [1, 0] = Inr (Some [700, 200]) \<and> py_int ''900'' = Some (0 + (700 + 200))"
proof -
  have r: "reorder_timestamps_and_convert_to_delays [''900'', ''700''] 0 [1, 0] = Inr (Some [700, 200])"
    by (simp add: py_nth_def py_int_of_def)
  show ?thesis using delays_sum_up [OF r, THEN conjunct2, THEN conjunct2, rule_format, of 1] r by simp
qed

theorem stacked_chart_most_common_witness:
  "\<exists>out. stacked_chart timeline None = Inr out \<and> out \<noteq> []"
proof -
  have t: "timing_table [''end'', ''iret''] [[''900'', ''700''], [''800'', []], [''650'', ''640'']]"
    by (simp add: timing_table_def timing_field_def)
  show ?thesis using stacked_chart_most_common [OF csv_reader_timeline t] by auto
qed

definition collector0 :: collector where
  "collector0 = \<lparr>no_msg_received = True, dir_open = True, fast_tracepoints = [''handler'']\<rparr>"

definition sample0 :: sample where
  "sample0 = \<lparr>timestamp_page_fault = 100, timestamp_isr_entry = 150, timestamp_iret = 180, timestamp_end = 190,
     timestamp_msg_received = 0, tracepoint_file = (\<lambda>_. Some ''160'')\<rparr>"

lemma collector0_ok: "plain_names collector0" "readable collector0 sample0"
  by code_simp+

theorem collected_table_charts_witness:
  "\<exists>t out cols rows. do_iteration collector0 (True, True, True) 8192 False 4096 (\<lambda>_. sample0) = Some (t, True) \<and>
    stacked_chart t None = Inr out \<and> csv_reader out = cols # rows \<and> ''end'' \<in> set cols \<and> 0 < length rows \<and> length rows \<le> 2"
  using collected_table_charts [of collector0 4096 2 "\<lambda>_. sample0" False] collector0_ok by simp

definition collect_env0 :: collect_env where
  "collect_env0 = \<lparr>en_dir = Dir [(''handler'', 8)], en_page_size = 4096, en_userfaultfd = True,
     en_calls = (\<lambda>_. (True, True, True)), en_sample = (\<lambda>_ _. sample0)\<rparr>"

theorem repeated_header_not_charted_witness:
  "\<exists>t. run_iterations collect_env0 (default_options\<lparr>iteration_count := 2\<rparr>) collector0 = Some (True, t) \<and>
    stacked_chart t None = Inl ValueError"
proof -
  have "round_length 1 4096 = 4096" by code_simp
  then show ?thesis
    using repeated_header_not_charted [of "default_options\<lparr>iteration_count := 2\<rparr>" collector0 4096 1 collect_env0 None] collector0_ok
    by (simp add: default_options_def collect_env0_def)
qed

theorem sum_and_remap_sums_witness:
  "sum_and_remap (''a,b'' @ CHR 0x0A # ''900,700'' @ [CHR 0x0A]) [''total=a+b''] = Inr (''total'' @ CHR 0x0A # ''1600'' @ [CHR 0x0A])"
proof -
  have f: "csv_reader (''a,b'' @ CHR 0x0A # ''900,700'' @ [CHR 0x0A]) = [''a'', ''b''] # [[''900'', ''700'']]" by code_simp
  have s: "map column_spec [(''total'', [''a'', ''b''])] = [''total=a+b'']" by (simp add: column_spec_def)
  have "row_sum [''a'', ''b''] [''900'', ''700''] [''a'', ''b''] = 1600" by (simp add: row_sum_def column_index_def)
  moreover have "char_of (49 :: nat) = CHR ''1''" "char_of (54 :: nat) = CHR ''6''" "char_of (48 :: nat) = CHR ''0''" by code_simp+
  then have "str_int 1600 = ''1600''" by (simp add: str_int_def decimal.simps digit_def)
  ultimately show ?thesis
    using sum_and_remap_sums [OF f, of "[(''total'', [''a'', ''b''])]"] unfolding s by (simp add: good_spec_def)
qed

end
