(* ===== verification/Kernel_Module.thy ===== *)
theory Kernel_Module
  imports Usm_Prelude "HOL-Library.Monad_Syntax"
begin

text \<open>
  The kernel module (\<open>module/usm_lkmRM.c\<close>) and the functions of the patched kernel it calls
  (\<open>handle_usm\<close>, \<open>handle_page\<close>, \<open>usm_poll_ufd\<close>): the pool of memory the daemon maps, the
  files through which the daemon, the tasks and the waker talk to the kernel, and the
  module's start and end.  Lists of the kernel are lists of their entries.  The results of
  the kernel's services (\<open>remap_pfn_range\<close>, \<open>copy_to_user\<close>, registrations, allocations) are
  parameters.  \<open>None\<close> is an operation that does not return: a spin lock taken twice.
\<close>

section \<open>State\<close>

definition EAGAIN :: int where "EAGAIN = 11"
definition ENOMEM :: int where "ENOMEM = 12"
definition EFAULT :: int where "EFAULT = 14"
definition TASK_COMM_LEN :: nat where "TASK_COMM_LEN = 16"
definition EPOLLIN :: u32 where "EPOLLIN = 1"
definition EPOLLPRI :: u32 where "EPOLLPRI = 2"
definition EPOLLERR :: u32 where "EPOLLERR = 8"
definition PAGE_SIZE :: u64 where "PAGE_SIZE = 4096"
definition VM_USM_UT :: u64 where "VM_USM_UT = push_bit 39 1"

definition usmMemSize :: u64 where "usmMemSize = 512 * 1024 * 1024"

datatype page_flag = PG_usm | PG_active | PG_private | PG_private_2 | PG_writeback | PG_reserved | PG_slab | PG_lru | PG_reclaim

record kpage =
  flags :: "page_flag set"
  page_type :: "page_flag option"
  mapcount :: int
  refcount :: int

text \<open>A daemon's \<open>usm_ctx\<close>: the waiting tasks as file descriptor context and task, the freed
  pages, the lock of the latter, and the pages of its workers (0 for none).\<close>

record usm_ctx =
  cxDescList :: "(u64 \<times> u64) list"
  listCount :: int
  toWake :: "u64 option"
  usmPagesList :: "u64 list"
  usmPagesCount :: u64
  usmPagesLock :: bool
  uthread :: "u64 list"

record vm_area =
  vm_start :: u64
  vm_end :: u64
  vm_pgoff :: u64

datatype resource = Misc_device | Proc_usm | Proc_sleepers | Proc_christine | Proc_pgs | Dma_pool

text \<open>\<open>mappings\<close> records the calls of \<open>remap_pfn_range\<close>: address, first frame, length.\<close>

record kmod =
  k_paddr :: u64
  k_index :: u64
  k_indext :: u64
  k_pgoff :: u64
  waker_state :: u32
  mapped_sleepers :: u32
  mapped_vCPUs :: u32
  unmap_sleepers :: bool
  usm_sleepers_map_list :: "u64 list"
  usm_list :: "usm_ctx list"
  kpages :: "u64 \<Rightarrow> kpage"
  resources :: "resource set"
  mappings :: "(u64 \<times> u64 \<times> u64) list"
  freed_pages :: "u64 list"

abbreviation PFN_DOWN :: "u64 \<Rightarrow> u64" where "PFN_DOWN a \<equiv> drop_bit 12 a"

section \<open>The pool\<close>

definition usm_mmap :: "bool \<Rightarrow> vm_area \<Rightarrow> kmod \<Rightarrow> int \<times> kmod" where
  "usm_mmap remap vma s =
    (let pg = PFN_DOWN (k_paddr s) + vm_pgoff vma + k_pgoff s;
         len = vm_end vma - vm_start vma
     in if k_index s + len > usmMemSize then (- ENOMEM, s)
        else if \<not> remap then (- 1, s)
        else
          let s = s\<lparr>mappings := mappings s @ [(vm_start vma, pg, len)]\<rparr>;
              s = s\<lparr>k_indext := k_indext s + len\<rparr>;
              s = s\<lparr>k_pgoff := k_index s div PAGE_SIZE\<rparr>
          in (0, s))"

definition usm_misc_f_release :: "kmod \<Rightarrow> kmod" where
  "usm_misc_f_release s = s\<lparr>k_index := 0\<rparr>"

section \<open>Tasks that announce themselves\<close>

definition usm_poll_ufd :: "usm_ctx \<Rightarrow> u32" where
  "usm_poll_ufd c = (if listCount c > 0 then EPOLLIN else 0)"

definition usm_poll :: "usm_ctx \<Rightarrow> u32" where
  "usm_poll c = (let ret = usm_poll_ufd c in ret)"

text \<open>\<open>getfd\<close> is the new descriptor for the context of the task.  The context is the caller's
  \<open>usm_x\<close>, which \<open>usm_open\<close> also stores as the file's private data; \<open>handle_page\<close> below takes that
  of the caller's parent, the daemon whose thread it is.\<close>

definition handle_usm :: "(u64 \<Rightarrow> int) \<Rightarrow> usm_ctx \<Rightarrow> int \<times> usm_ctx" where
  "handle_usm getfd c =
    (if listCount c \<le> 0 then (- EFAULT, c)
     else
       let c = c\<lparr>listCount := listCount c - 1\<rparr>;
           (ctx, tsk) = hd (cxDescList c);
           c = c\<lparr>cxDescList := tl (cxDescList c)\<rparr>;
           fd = getfd ctx
       in (fd, c\<lparr>toWake := Some tsk\<rparr>))"

definition usm_read :: "(u64 \<Rightarrow> int) \<Rightarrow> bool \<Rightarrow> nat \<Rightarrow> usm_ctx \<Rightarrow> int \<times> usm_ctx" where
  "usm_read getfd copied cnt c =
    (if cnt < TASK_COMM_LEN then (- EAGAIN, c)
     else
       let (fd, c) = handle_usm getfd c
       in if fd < 0 then (- EFAULT, c)
          else if \<not> copied then (- EAGAIN, c)
          else (fd, c))"

text \<open>The task that is woken, if any.\<close>

definition usm_write :: "usm_ctx \<Rightarrow> int \<times> u64 option" where
  "usm_write c = (case toWake c of None \<Rightarrow> (- EAGAIN, None) | Some tsk \<Rightarrow> (0, Some tsk))"

section \<open>Freed pages\<close>

definition handle_page :: "usm_ctx \<Rightarrow> (u64 \<times> usm_ctx) option" where
  "handle_page c =
    (if usmPagesLock c then None
     else if usmPagesCount c \<le> 0 then Some (of_int (- EFAULT), c)
     else
       let c = c\<lparr>usmPagesCount := usmPagesCount c - 1\<rparr>;
           pfn = hd (usmPagesList c)
       in Some (pfn, c\<lparr>usmPagesList := tl (usmPagesList c)\<rparr>))"

text \<open>Returns with the lock held when there are pages.\<close>

definition usm_poll_pages :: "usm_ctx \<Rightarrow> (u32 \<times> usm_ctx) option" where
  "usm_poll_pages c =
    (if usmPagesLock c then None
     else
       let c = c\<lparr>usmPagesLock := True\<rparr>
       in if usmPagesCount c > 0 then Some (EPOLLIN, c)
          else Some (EPOLLIN, c\<lparr>usmPagesLock := False\<rparr>))"

definition reset_freed :: "kpage \<Rightarrow> kpage" where
  "reset_freed p = p\<lparr>mapcount := - 1, refcount := 1, flags := insert PG_usm (flags p), page_type := Some PG_usm\<rparr>"

text \<open>\<open>pfn_to_page\<close> computes an address and is never NULL.  The result, the frame copied to
  the caller, the context and the page structures.\<close>

definition usm_read_page ::
  "bool \<Rightarrow> nat \<Rightarrow> usm_ctx \<Rightarrow> (u64 \<Rightarrow> kpage) \<Rightarrow> (int \<times> u64 option \<times> usm_ctx \<times> (u64 \<Rightarrow> kpage)) option" where
  "usm_read_page copied cnt c pages =
    (if cnt < 8 then Some (- EAGAIN, None, c, pages)
     else do {
       (pfn, c) \<leftarrow> handle_page c;
       let pages = pages(pfn := reset_freed (pages pfn));
       (if \<not> copied then Some (- EAGAIN, None, c, pages) else Some (int cnt, Some pfn, c, pages))
     })"

section \<open>Instances and files\<close>

record task =
  usm_x :: "nat option"
  def_flags :: u64

text \<open>The walk along the instances: what is left to skip, and the number of the one reached.\<close>

fun sailor_walk :: "u64 \<Rightarrow> nat \<Rightarrow> usm_ctx list \<Rightarrow> u64 \<times> nat" where
  "sailor_walk cnt i (c # d # cs) = (if cnt \<noteq> 0 then sailor_walk (cnt - 1) (Suc i) (d # cs) else (cnt, i))"
| "sailor_walk cnt i cs = (cnt, i)"

definition usm_instance :: "usm_ctx list \<Rightarrow> bool \<Rightarrow> u64 \<Rightarrow> task \<Rightarrow> int \<times> task" where
  "usm_instance instances buf cnt t =
    (if instances = [] then (1, t)
     else
       let (cnt, sailor) = sailor_walk cnt 0 instances
       in if cnt \<noteq> 0 then (1, t)
          else
            let t = t\<lparr>usm_x := Some sailor\<rparr>;
                t = (if buf then t\<lparr>def_flags := def_flags t OR VM_USM_UT\<rparr> else t)
            in (0, t))"

definition O_RDWR :: u32 where "O_RDWR = 2"

text \<open>The file's private data after opening it.\<close>

definition usm_open :: "u32 \<Rightarrow> task \<Rightarrow> nat option \<Rightarrow> int \<times> nat option" where
  "usm_open f_flags t private_data = (if f_flags AND O_RDWR \<noteq> 0 then (0, usm_x t) else (0, private_data))"

section \<open>The waker and the virtual processors\<close>

definition usm_poll_sleepers :: "kmod \<Rightarrow> u32 \<times> kmod" where
  "usm_poll_sleepers s =
    (if usm_list s = [] then (EPOLLERR, s)
     else if unmap_sleepers s then (EPOLLPRI, s\<lparr>unmap_sleepers := False\<rparr>)
     else if usm_sleepers_map_list s = [] then (0, s)
     else (EPOLLIN, s))"

text \<open>\<open>phys\<close> is \<open>virt_to_phys\<close>.  The entry is taken off the list before the mapping is tried.\<close>

definition usm_mmap_sleepers :: "(u64 \<Rightarrow> u64) \<Rightarrow> bool \<Rightarrow> vm_area \<Rightarrow> kmod \<Rightarrow> int \<times> kmod" where
  "usm_mmap_sleepers phys remap vma s =
    (case usm_sleepers_map_list s of
       [] \<Rightarrow> (- 1, s)
     | uctx # rest \<Rightarrow>
        let s = s\<lparr>usm_sleepers_map_list := rest\<rparr>;
            pg = PFN_DOWN (phys uctx) + vm_pgoff vma
        in if \<not> remap then (- 1, s)
           else
             let s = s\<lparr>mappings := mappings s @ [(vm_start vma, pg, vm_end vma - vm_start vma)]\<rparr>
             in (0, s\<lparr>mapped_sleepers := mapped_sleepers s + 1\<rparr>))"

definition usm_mmap_christine :: "(u64 \<Rightarrow> u64) \<Rightarrow> u64 \<Rightarrow> bool \<Rightarrow> vm_area \<Rightarrow> kmod \<Rightarrow> int \<times> kmod" where
  "usm_mmap_christine phys current_ctx remap vma s =
    (let pg = PFN_DOWN (phys current_ctx)
     in if \<not> remap then (- 1, s)
        else
          let s = s\<lparr>mappings := mappings s @ [(vm_start vma, pg, vm_end vma - vm_start vma)]\<rparr>
          in (0, s\<lparr>mapped_vCPUs := mapped_vCPUs s + 1\<rparr>))"

definition waker_open :: "kmod \<Rightarrow> int \<times> kmod" where
  "waker_open s = (if waker_state s = 0 then (0, s\<lparr>waker_state := waker_state s + 1\<rparr>) else (1, s))"

definition waker_release :: "kmod \<Rightarrow> kmod" where
  "waker_release s = s\<lparr>waker_state := 0, mapped_sleepers := 0\<rparr>"

definition christine_release :: "kmod \<Rightarrow> kmod" where
  "christine_release s = s\<lparr>mapped_vCPUs := 0\<rparr>"

section \<open>Start and end of the module\<close>

text \<open>Which registrations succeed, and the pool's physical address.\<close>

record init_env =
  ie_misc :: bool
  ie_proc :: bool
  ie_sleepers :: bool
  ie_christine :: bool
  ie_pgs :: bool
  ie_dma :: "u64 option"

abbreviation acquire :: "resource \<Rightarrow> kmod \<Rightarrow> kmod" where
  "acquire r s \<equiv> s\<lparr>resources := insert r (resources s)\<rparr>"

abbreviation release :: "resource \<Rightarrow> kmod \<Rightarrow> kmod" where
  "release r s \<equiv> s\<lparr>resources := resources s - {r}\<rparr>"

definition hwusm_lkm_init :: "init_env \<Rightarrow> kmod \<Rightarrow> int \<times> kmod" where
  "hwusm_lkm_init e s =
    (if \<not> ie_misc e then (- EAGAIN, s)
     else let s = acquire Misc_device s in
     if \<not> ie_proc e then (- EAGAIN, release Misc_device s)
     else let s = acquire Proc_usm s in
     if \<not> ie_sleepers e then (- EAGAIN, release Misc_device (release Proc_usm s))
     else let s = acquire Proc_sleepers s in
     if \<not> ie_christine e then (- EAGAIN, release Misc_device (release Proc_sleepers (release Proc_usm s)))
     else let s = acquire Proc_christine s in
     if \<not> ie_pgs e
     then (- EAGAIN, release Misc_device (release Proc_christine (release Proc_sleepers (release Proc_usm s))))
     else let s = acquire Proc_pgs s in
     case ie_dma e of
       None \<Rightarrow>
        (- EAGAIN, release Misc_device (release Proc_pgs (release Proc_christine (release Proc_sleepers (release Proc_usm s)))))
     | Some paddr \<Rightarrow>
        (0, (acquire Dma_pool s)\<lparr>k_paddr := paddr, waker_state := 0, mapped_sleepers := 0, mapped_vCPUs := 0,
              usm_sleepers_map_list := [], usm_list := [], unmap_sleepers := False, k_pgoff := 0\<rparr>))"

definition reset_page :: "kpage \<Rightarrow> kpage" where
  "reset_page p = p\<lparr>flags := flags p - {PG_usm, PG_active, PG_private, PG_private_2, PG_writeback, PG_reserved, PG_slab, PG_lru},
     page_type := Some PG_reclaim, mapcount := - 1, refcount := 1\<rparr>"

fun reset_pages :: "u64 \<Rightarrow> nat \<Rightarrow> (u64 \<Rightarrow> kpage) \<Rightarrow> u64 \<Rightarrow> kpage" where
  "reset_pages pfn 0 pages = pages"
| "reset_pages pfn (Suc i) pages =
    (let pages = reset_pages pfn i pages in pages(pfn + of_nat i := reset_page (pages (pfn + of_nat i))))"

text \<open>The pages of the workers that are freed, instance after instance.\<close>

fun free_instances :: "usm_ctx list \<Rightarrow> u64 list" where
  "free_instances [] = []"
| "free_instances (c # cs) = filter (\<lambda>u. u \<noteq> 0) (uthread c) @ free_instances cs"

definition hwusm_lkm_exit :: "kmod \<Rightarrow> kmod" where
  "hwusm_lkm_exit s =
    (let pfn = PFN_DOWN (k_paddr s);
         s = s\<lparr>k_indext := usmMemSize\<rparr>;
         s = s\<lparr>kpages := reset_pages pfn (unat (k_indext s div PAGE_SIZE)) (kpages s)\<rparr>;
         s = release Dma_pool s;
         s = release Proc_pgs (release Proc_christine (release Proc_sleepers (release Proc_usm s)));
         s = s\<lparr>freed_pages := freed_pages s @ free_instances (usm_list s), usm_list := []\<rparr>
     in release Misc_device s)"

section \<open>The pool is mapped from its start, every time\<close>

text \<open>What can happen to the module between its start and its end: its operations, and sleepers,
  instances and requests to unmap that come from the rest of the kernel.\<close>

inductive module_step :: "kmod \<Rightarrow> kmod \<Rightarrow> bool" where
  pool_mmap: "usm_mmap remap vma s = (r, s') \<Longrightarrow> module_step s s'"
| pool_release: "module_step s (usm_misc_f_release s)"
| sleepers_poll: "usm_poll_sleepers s = (r, s') \<Longrightarrow> module_step s s'"
| sleepers_mmap: "usm_mmap_sleepers phys remap vma s = (q, s') \<Longrightarrow> module_step s s'"
| christine_mmap: "usm_mmap_christine phys u remap vma s = (q, s') \<Longrightarrow> module_step s s'"
| waker_opens: "waker_open s = (q, s') \<Longrightarrow> module_step s s'"
| waker_closes: "module_step s (waker_release s)"
| christine_closes: "module_step s (christine_release s)"
| kernel: "module_step s (s\<lparr>usm_sleepers_map_list := us, usm_list := cs, unmap_sleepers := b, kpages := ps\<rparr>)"

inductive_cases module_stepE: "module_step s s'"

lemma module_step_keeps:
  assumes "module_step s s'" "k_index s = 0" "k_pgoff s = 0"
  shows "k_index s' = 0 \<and> k_pgoff s' = 0 \<and> k_paddr s' = k_paddr s \<and> resources s' = resources s"
  using assms
  by (cases rule: module_step.cases)
    (auto simp: usm_mmap_def usm_misc_f_release_def usm_poll_sleepers_def usm_mmap_sleepers_def usm_mmap_christine_def
      waker_open_def waker_release_def christine_release_def Let_def split: if_splits list.splits)

lemma module_steps_keep:
  assumes "module_step\<^sup>*\<^sup>* s s'" "k_index s = 0" "k_pgoff s = 0"
  shows "k_index s' = 0 \<and> k_pgoff s' = 0 \<and> k_paddr s' = k_paddr s \<and> resources s' = resources s"
  using assms by (induction rule: rtranclp_induct) (use module_step_keeps in \<open>auto\<close>)

lemma init_fields:
  assumes "hwusm_lkm_init e s = (0, s')"
  shows "k_index s' = k_index s" "k_pgoff s' = 0" "ie_dma e = Some (k_paddr s')"
  using assms by (auto simp: hwusm_lkm_init_def EAGAIN_def Let_def split: if_splits option.splits)

lemma usm_mmap_fresh:
  assumes "k_index s = 0" "k_pgoff s = 0"
  shows "usm_mmap True vma s =
    (if vm_end vma - vm_start vma \<le> usmMemSize
     then (0, s\<lparr>mappings := mappings s @ [(vm_start vma, PFN_DOWN (k_paddr s) + vm_pgoff vma, vm_end vma - vm_start vma)],
                k_indext := k_indext s + (vm_end vma - vm_start vma), k_pgoff := 0\<rparr>)
     else (- ENOMEM, s))"
  using assms by (simp add: usm_mmap_def Let_def PAGE_SIZE_def linorder_not_less [symmetric])

text \<open>C37: whatever happened since the module was loaded, a mapping of the pool starts at its first
  frame, plus the offset the caller asks for, and is refused only when it is by itself larger
  than the pool.  \<open>indext\<close> counts what was mapped, but \<open>index\<close>, which the bound and the next
  offset are computed from, is never advanced: two daemons, or two mappings of one, share
  their frames.\<close>

theorem pool_mappings_overlap:
  assumes "hwusm_lkm_init e s0 = (0, s)" "k_index s0 = 0" "module_step\<^sup>*\<^sup>* s t"
  shows "usm_mmap True vma t =
    (if vm_end vma - vm_start vma \<le> usmMemSize
     then (0, t\<lparr>mappings := mappings t @ [(vm_start vma, PFN_DOWN (k_paddr s) + vm_pgoff vma, vm_end vma - vm_start vma)],
                k_indext := k_indext t + (vm_end vma - vm_start vma), k_pgoff := 0\<rparr>)
     else (- ENOMEM, t))"
proof -
  have "k_index s = 0" "k_pgoff s = 0" using init_fields [OF assms(1)] assms(2) by simp_all
  then have k: "k_index t = 0 \<and> k_pgoff t = 0 \<and> k_paddr t = k_paddr s" using module_steps_keep [OF assms(3)] by simp
  then show ?thesis using usm_mmap_fresh [of t vma] by simp
qed

text \<open>Whether the frames of a mapping are the pool's.\<close>

definition in_pool :: "u64 \<Rightarrow> u64 \<times> u64 \<times> u64 \<Rightarrow> bool" where
  "in_pool paddr = (\<lambda>(_, pg, len). \<exists>k. pg = PFN_DOWN paddr + of_nat k \<and> 4096 * k + unat len \<le> unat usmMemSize)"

text \<open>C38: a mapping that was accepted lies in the pool exactly when its offset and its length fit
  together.  The length alone is checked: with an offset the frames behind the pool, which
  belong to the rest of the system, are mapped.\<close>

theorem usm_mmap_in_pool:
  assumes "usm_mmap True vma s = (0, s')" "k_index s = 0" "k_pgoff s = 0"
  shows "in_pool (k_paddr s) (last (mappings s')) \<longleftrightarrow>
    4096 * unat (vm_pgoff vma) + unat (vm_end vma - vm_start vma) \<le> unat usmMemSize"
proof -
  have m: "last (mappings s') = (vm_start vma, PFN_DOWN (k_paddr s) + vm_pgoff vma, vm_end vma - vm_start vma)"
    using assms(1) usm_mmap_fresh [OF assms(2,3), of vma] by (auto simp: ENOMEM_def split: if_splits)
  have "k = unat (vm_pgoff vma)" if "vm_pgoff vma = of_nat k" "4096 * k + n \<le> unat usmMemSize" for k n
  proof -
    have "k < 2 ^ 64" using that(2) by (simp add: usmMemSize_def)
    then have "unat (of_nat k :: u64) = k" by (simp add: unat_of_nat)
    then show ?thesis using that(1) by simp
  qed
  then show ?thesis unfolding in_pool_def m by (auto intro!: exI [of _ "unat (vm_pgoff vma)"])
qed

section \<open>Start and end\<close>

lemma all_resources: "r \<in> {Dma_pool, Proc_pgs, Proc_christine, Proc_sleepers, Proc_usm, Misc_device}"
  by (cases r) simp_all

definition all_registered :: "init_env \<Rightarrow> bool" where
  "all_registered e \<longleftrightarrow> ie_misc e \<and> ie_proc e \<and> ie_sleepers e \<and> ie_christine e \<and> ie_pgs e \<and> ie_dma e \<noteq> None"

lemma init_result:
  assumes "resources s = {}"
  shows "hwusm_lkm_init e s =
    (if all_registered e
     then (0, s\<lparr>resources := UNIV, k_paddr := the (ie_dma e), waker_state := 0, mapped_sleepers := 0, mapped_vCPUs := 0,
                usm_sleepers_map_list := [], usm_list := [], unmap_sleepers := False, k_pgoff := 0\<rparr>)
     else (- EAGAIN, s))"
proof -
  have e: "s\<lparr>resources := {}\<rparr> = s" using assms by (cases s) simp
  have u: "{Dma_pool, Proc_pgs, Proc_christine, Proc_sleepers, Proc_usm, Misc_device} = UNIV" using all_resources by blast
  show ?thesis
  proof (cases "all_registered e")
    case True
    then show ?thesis using assms u by (auto simp: hwusm_lkm_init_def all_registered_def Let_def)
  next
    case False
    have "hwusm_lkm_init e s = (- EAGAIN, s\<lparr>resources := {}\<rparr>)"
      using False assms e
      by (cases "ie_misc e"; cases "ie_proc e"; cases "ie_sleepers e"; cases "ie_christine e"; cases "ie_pgs e"; cases "ie_dma e")
        (simp_all add: hwusm_lkm_init_def all_registered_def Let_def insert_Diff_if)
    then show ?thesis using False e by simp
  qed
qed

text \<open>The end of the module resets the structure of every page of the pool and of no other.\<close>

lemma reset_pages_frames:
  "reset_pages pfn n ps f = (if \<exists>i < n. f = pfn + of_nat i then reset_page (ps f) else ps f)"
proof (induction n)
  case (Suc n)
  have "reset_page (reset_page p) = reset_page p" for p by (simp add: reset_page_def)
  then show ?case using Suc by (auto simp: Let_def less_Suc_eq)
qed simp

text \<open>C40: the module starts exactly when every registration and the allocation of the pool
  succeed.  When one fails, everything registered before it is undone and the state is as it
  was.  The module's end gives back all that its start acquired, frees the pages of the
  workers of every instance, and resets the structures of the pool's 131072 pages and of no
  other.\<close>

theorem module_init_exit:
  assumes "hwusm_lkm_init e s = (r, s')" "resources s = {}"
  shows "(r = 0 \<longleftrightarrow> all_registered e) \<and> (r \<noteq> 0 \<longrightarrow> r = - EAGAIN \<and> s' = s) \<and> (r = 0 \<longrightarrow> resources s' = UNIV) \<and>
    resources (hwusm_lkm_exit t) = {} \<and> usm_list (hwusm_lkm_exit t) = [] \<and>
    freed_pages (hwusm_lkm_exit t) = freed_pages t @ [u. c \<leftarrow> usm_list t, u \<leftarrow> uthread c, u \<noteq> 0] \<and>
    kpages (hwusm_lkm_exit t) f =
      (if \<exists>i < 131072. f = PFN_DOWN (k_paddr t) + of_nat i then reset_page (kpages t f) else kpages t f)"
proof -
  have f: "free_instances cs = [u. c \<leftarrow> cs, u \<leftarrow> uthread c, u \<noteq> 0]" for cs
  proof (induction cs)
    case (Cons c cs)
    have "filter (\<lambda>u. u \<noteq> 0) us = [u. u \<leftarrow> us, u \<noteq> 0]" for us :: "u64 list" by (induction us) simp_all
    then show ?case using Cons by simp
  qed simp
  have n: "unat (usmMemSize div PAGE_SIZE) = 131072" by (simp add: usmMemSize_def PAGE_SIZE_def)
  have r: "resources (hwusm_lkm_exit t) = {}" using all_resources by (auto simp: hwusm_lkm_exit_def Let_def)
  show ?thesis
    using assms(1) r unfolding init_result [OF assms(2)]
    by (auto simp: EAGAIN_def hwusm_lkm_exit_def Let_def n f reset_pages_frames split: if_splits)
qed

section \<open>The files of the daemon\<close>

text \<open>Reading the tagging file takes the first task that waits, and writing wakes that task.
  A failed descriptor or copy is reported, but the task has left the queue all the same and
  only a write will wake it.\<close>

theorem usm_read_then_write:
  assumes "cxDescList c = (x, tsk) # rest" "0 < listCount c" "TASK_COMM_LEN \<le> cnt"
  shows "\<exists>c'. usm_read getfd copied cnt c =
      (if getfd x < 0 then - EFAULT else if copied then getfd x else - EAGAIN, c') \<and>
    usm_write c' = (0, Some tsk) \<and> cxDescList c' = rest \<and> listCount c' = listCount c - 1"
  using assms by (auto simp: usm_read_def handle_usm_def usm_write_def Let_def)


lemma sailor_walk_counts:
  "cs \<noteq> [] \<Longrightarrow> sailor_walk cnt i cs =
    (if unat cnt < length cs then (0, i + unat cnt) else (cnt - of_nat (length cs - 1), i + length cs - 1))"
proof (induction cnt i cs rule: sailor_walk.induct)
  case (1 cnt i c d cs)
  show ?case
  proof (cases "cnt = 0")
    case False
    then have "unat (cnt - 1) = unat cnt - 1" "0 < unat cnt" by (simp_all add: unat_minus_one unat_gt_0)
    then show ?thesis using 1 False by (auto simp: algebra_simps)
  qed simp
qed (auto simp: unat_eq_zero less_Suc_eq)

text \<open>Writing the number of a daemon's instance to the file of freed pages links the task to
  that instance, and marks its memory for user threads when a buffer is given; a number
  without an instance is refused and changes nothing.\<close>

theorem usm_instance_links:
  assumes "length instances < 2 ^ 64"
  shows "usm_instance instances buf cnt t =
    (if unat cnt < length instances
     then (0, t\<lparr>usm_x := Some (unat cnt), def_flags := (if buf then def_flags t OR VM_USM_UT else def_flags t)\<rparr>)
     else (1, t))"
proof (cases "instances = []")
  case False
  have "cnt - of_nat (length instances - 1) \<noteq> 0" if "\<not> unat cnt < length instances"
  proof
    assume "cnt - of_nat (length instances - 1) = 0"
    then have "unat cnt = unat (of_nat (length instances - 1) :: u64)" by simp
    also have "\<dots> = length instances - 1" using assms by (simp add: unat_of_nat)
    finally show False using that False by (cases instances) simp_all
  qed
  then show ?thesis using sailor_walk_counts [OF False, of cnt 0] False by (auto simp: usm_instance_def)
qed (simp add: usm_instance_def)

text \<open>A sleeper whose mapping fails is lost: it is off the list and was not mapped.\<close>

lemma sleeper_lost:
  "usm_sleepers_map_list s = u # us \<Longrightarrow>
   usm_mmap_sleepers phys False vma s = (- 1, s\<lparr>usm_sleepers_map_list := us\<rparr>)"
  by (simp add: usm_mmap_sleepers_def)

section \<open>A module at work\<close>

definition kmod0 :: kmod where
  "kmod0 = \<lparr>k_paddr = 0, k_index = 0, k_indext = 0, k_pgoff = 0, waker_state = 0, mapped_sleepers = 0, mapped_vCPUs = 0,
     unmap_sleepers = False, usm_sleepers_map_list = [], usm_list = [],
     kpages = (\<lambda>_. \<lparr>flags = {}, page_type = None, mapcount = 0, refcount = 0\<rparr>), resources = {}, mappings = [], freed_pages = []\<rparr>"

definition init_env0 :: init_env where
  "init_env0 = \<lparr>ie_misc = True, ie_proc = True, ie_sleepers = True, ie_christine = True, ie_pgs = True, ie_dma = Some 0x100000\<rparr>"

definition vma0 :: vm_area where "vma0 = \<lparr>vm_start = 0x7000, vm_end = 0x9000, vm_pgoff = 0\<rparr>"

definition usm_ctx0 :: usm_ctx where
  "usm_ctx0 = \<lparr>cxDescList = [(70, 7)], listCount = 1, toWake = None, usmPagesList = [300], usmPagesCount = 1,
     usmPagesLock = False, uthread = [0x2000, 0]\<rparr>"

text \<open>Two mappings of the same frames.\<close>

theorem pool_mappings_overlap_witness:
  "\<exists>s t t'. hwusm_lkm_init init_env0 kmod0 = (0, s) \<and> usm_mmap True vma0 s = (0, t) \<and>
    usm_mmap True (vma0\<lparr>vm_start := 0x17000, vm_end := 0x19000\<rparr>) t = (0, t') \<and>
    mappings t' = [(0x7000, 0x100, 0x2000), (0x17000, 0x100, 0x2000)]"
proof -
  obtain s where s: "hwusm_lkm_init init_env0 kmod0 = (0, s)" "mappings s = []" "k_paddr s = 0x100000"
    by (simp add: init_result kmod0_def init_env0_def all_registered_def)
  note p = pool_mappings_overlap [OF s(1)]
  have k: "k_index kmod0 = 0" by (simp add: kmod0_def)
  have "vm_end vma0 - vm_start vma0 \<le> usmMemSize" by (simp add: vma0_def usmMemSize_def)
  then obtain t where t: "usm_mmap True vma0 s = (0, t)" "mappings t = [(0x7000, 0x100, 0x2000)]"
    using p [OF k, of s vma0] s by (simp add: vma0_def drop_bit_eq_div)
  have "module_step\<^sup>*\<^sup>* s t" using t(1) pool_mmap by blast
  from p [OF k this, of "vma0\<lparr>vm_start := 0x17000, vm_end := 0x19000\<rparr>"] show ?thesis
    using s t by (simp add: vma0_def usmMemSize_def drop_bit_eq_div)
qed

text \<open>The first frame behind the pool.\<close>

theorem usm_mmap_in_pool_witness:
  "\<exists>s'. usm_mmap True (vma0\<lparr>vm_pgoff := 131072\<rparr>) kmod0 = (0, s') \<and> \<not> in_pool (k_paddr kmod0) (last (mappings s'))"
proof -
  obtain s' where s: "usm_mmap True (vma0\<lparr>vm_pgoff := 131072\<rparr>) kmod0 = (0, s')"
    by (simp add: usm_mmap_fresh kmod0_def vma0_def usmMemSize_def)
  show ?thesis using usm_mmap_in_pool [OF s] s by (simp add: kmod0_def vma0_def usmMemSize_def)
qed

theorem module_init_exit_witness:
  "\<exists>s'. hwusm_lkm_init init_env0 kmod0 = (0, s') \<and> resources s' = UNIV \<and> resources (hwusm_lkm_exit s') = {}"
proof -
  obtain s' where s: "hwusm_lkm_init init_env0 kmod0 = (0, s')" by (simp add: init_result kmod0_def init_env0_def all_registered_def)
  show ?thesis using module_init_exit [OF s, of s'] s by (simp add: kmod0_def)
qed

theorem usm_read_then_write_witness:
  "\<exists>c'. usm_read (\<lambda>_. 5) True 16 usm_ctx0 = (5, c') \<and> usm_write c' = (0, Some 7) \<and> cxDescList c' = []"
  using usm_read_then_write [of usm_ctx0 70 7 "[]" 16 "\<lambda>_. 5" True] by (auto simp add: usm_ctx0_def TASK_COMM_LEN_def)


theorem usm_instance_links_witness:
  "usm_instance [usm_ctx0, usm_ctx0] False 1 \<lparr>usm_x = None, def_flags = 0\<rparr> = (0, \<lparr>usm_x = Some 1, def_flags = 0\<rparr>)"
  using usm_instance_links [of "[usm_ctx0, usm_ctx0]" False 1 "\<lparr>usm_x = None, def_flags = 0\<rparr>"] by simp

end
