(* ===== verification/Config.thy ===== *)
theory Config
  imports Usm_State Csv_Text
begin

text \<open>
  The configuration of the daemon (\<open>usm_set_alloc_policy_assignment_strategy\<close>,
  \<open>usm_parse_args\<close> and the watcher of the thresholds in \<open>impl/usm/usm.c\<close>): a file of lines
  that is read once for the sizes and again, after the policies are registered, for the
  policies and priorities of processes and the policies by memory use.  \<open>None\<close> is undefined
  behaviour: a word that is missing or does not fit its buffer of 20 bytes, a number
  outside \<open>int\<close>, an index outside the thresholds, a read of freed memory.
\<close>

section \<open>Reading the file\<close>

definition c_space :: "char \<Rightarrow> bool" where
  "c_space c \<longleftrightarrow> (of_char c :: nat) \<in> {9, 10, 11, 12, 13, 32}"

text \<open>A word as \<open>sscanf\<close> reads it with \<open>%s\<close>, and what follows it.\<close>

definition scan_word :: "string \<Rightarrow> (string \<times> string) option" where
  "scan_word s =
    (let t = dropWhile c_space s; w = takeWhile (\<lambda>c. \<not> c_space c) t
     in if w = [] then None else Some (w, drop (length w) t))"

definition arg_word :: "string \<Rightarrow> (string \<times> string) option" where
  "arg_word s = (case scan_word s of None \<Rightarrow> None | Some (w, rest) \<Rightarrow> if length w < 20 then Some (w, rest) else None)"

definition atoi :: "string \<Rightarrow> int option" where
  "atoi s =
    (let (neg, t) = (case s of c # r \<Rightarrow> if c = CHR ''-'' then (True, r) else if c = CHR ''+'' then (False, r) else (False, s) | [] \<Rightarrow> (False, s));
         n = int (value_from 0 (takeWhile is_digit t));
         v = (if neg then - n else n)
     in if - (2 ^ 31) \<le> v \<and> v < 2 ^ 31 then Some v else None)"

text \<open>\<open>fgets\<close> with a buffer of 1000 bytes: the line, what is left, and whether the end of the
  file was seen.\<close>

definition fgets :: "string \<Rightarrow> (string \<times> string \<times> bool) option" where
  "fgets s =
    (if s = [] then None
     else
       let l = takeWhile (\<lambda>c. c \<noteq> CHR 0x0A) s;
           ln = take 999 (if length l < length s then l @ [CHR 0x0A] else l)
       in Some (ln, drop (length ln) s, CHR 0x0A \<notin> set ln \<and> length ln < 999))"

section \<open>State\<close>

text \<open>\<open>conf_init\<close> is the daemon's \<open>init\<close>: whether \<open>usm_init\<close> has run.\<close>

record config =
  conf_usm :: usm_state
  workersNumber :: int
  allocPolicyThresholds :: "nat \<Rightarrow> u64"
  initThreshold :: bool
  conf_init :: bool

text \<open>Which allocations of the table succeed, and what the memory of a new link holds.\<close>

record conf_env =
  ce_mok :: "nat \<Rightarrow> bool"
  ce_link :: usm_process_link

abbreviation upd_conf :: "(usm_state \<Rightarrow> usm_state) \<Rightarrow> config \<Rightarrow> config" where
  "upd_conf f c \<equiv> c\<lparr>conf_usm := f (conf_usm c)\<rparr>"

abbreviation conf_tables :: "config \<Rightarrow> usm_tables" where "conf_tables c \<equiv> tables (conf_usm c)"

text \<open>Before \<open>usm_init\<close> has run the tables are null pointers, which a lookup reads through.\<close>

definition table_get :: "config \<Rightarrow> 'a hashmap \<Rightarrow> 'a \<Rightarrow> 'a option option" where
  "table_get c m k = (if conf_init c then hashmap_get m k else None)"

lemma table_get_init [simp]: "conf_init c \<Longrightarrow> table_get c m k = hashmap_get m k"
  by (simp add: table_get_def)

lemma table_get_Some: "table_get c m k = Some x \<Longrightarrow> hashmap_get m k = Some x"
  by (simp add: table_get_def split: if_splits)

text \<open>How a line ends: the next one, \<open>break\<close>, or the jump to \<open>temp\<close>.\<close>

datatype conf_next = Next | Stop | Leave

section \<open>Lines\<close>

definition conf_memory :: "string \<Rightarrow> config \<Rightarrow> (conf_next \<times> config) option" where
  "conf_memory ln c = do {
     (arg2, _) \<leftarrow> arg_word (drop (length ''memory'') ln);
     v \<leftarrow> atoi arg2;
     let c = upd_conf (\<lambda>u. u\<lparr>poolSize := of_int v\<rparr>) c;
     Some (Next, upd_conf (\<lambda>u. u\<lparr>poolSize := poolSize u * (1024 * 1024)\<rparr>) c)
   }"

definition conf_workers :: "string \<Rightarrow> config \<Rightarrow> (conf_next \<times> config) option" where
  "conf_workers ln c = do {
     (arg2, _) \<leftarrow> arg_word (drop (length ''workers'') ln);
     v \<leftarrow> atoi arg2;
     Some (Next, c\<lparr>workersNumber := 0\<rparr>)
   }"

definition conf_page :: "string \<Rightarrow> config \<Rightarrow> (conf_next \<times> config) option" where
  "conf_page ln c = do {
     (arg2, _) \<leftarrow> arg_word (drop (length ''page'') ln);
     v \<leftarrow> atoi arg2;
     let c = upd_conf (\<lambda>u. u\<lparr>globalPageSize := of_int v\<rparr>) c;
     Some (if \<not> conf_init c then Leave else Next, c)
   }"

function fill_thresholds :: "u64 \<Rightarrow> nat \<Rightarrow> (nat \<Rightarrow> u64) \<Rightarrow> nat \<Rightarrow> u64" where
  "fill_thresholds ops i t = (if i < 100 then fill_thresholds ops (Suc i) (t(i := ops)) else t)"
  by auto
termination by (relation "measure (\<lambda>(_, i, _). 100 - i)") auto

declare fill_thresholds.simps [simp del]

definition init_thresholds :: "config \<Rightarrow> config" where
  "init_thresholds c =
    (if \<not> initThreshold c
     then c\<lparr>allocPolicyThresholds := fill_thresholds DEFAULT_ALLOC_POLICY 0 (allocPolicyThresholds c), initThreshold := True\<rparr>
     else c)"

definition conf_threshold :: "string \<Rightarrow> config \<Rightarrow> (conf_next \<times> config) option" where
  "conf_threshold ln c = do {
     (arg2, rest) \<leftarrow> arg_word (drop (length ''threshold'') ln);
     (arg3, _) \<leftarrow> arg_word rest;
     let c = init_thresholds c;
     policy \<leftarrow> table_get c (alloc_policies (conf_tables c)) (zero_policy\<lparr>pol_name := arg3\<rparr>);
     (case policy of
        None \<Rightarrow> Some (Stop, c)
      | Some p \<Rightarrow> do {
          tempPerc \<leftarrow> atoi arg2;
          (if tempPerc < 0 then None
           else Some (Next, c\<lparr>allocPolicyThresholds := fill_thresholds (pol_ops p) (nat tempPerc) (allocPolicyThresholds c)\<rparr>))
        })
   }"

text \<open>The item of a table changed through the pointer that \<open>hashmap_get\<close> returned.\<close>

definition poke :: "usm_process_link hashmap \<Rightarrow> usm_process_link \<Rightarrow> usm_process_link hashmap" where
  "poke m pl = m\<lparr>hm_buckets := map (\<lambda>b. if bk_dib b \<noteq> 0 \<and> usm_plink_compare (bk_item b) pl = 0 then b\<lparr>bk_item := pl\<rparr> else b) (hm_buckets m)\<rparr>"

text \<open>The end of the \<open>process\<close> and \<open>priority\<close> lines.  A link that was found is a pointer into
  the table; when \<open>hashmap_set\<close> has to grow, it frees the buckets before it copies the item
  from there.  Otherwise the item is replaced by itself.  The terminator that \<open>strcpy\<close> writes one
  byte past a new name's memory is taken to hit nothing else.\<close>

definition store_link :: "conf_env \<Rightarrow> bool \<Rightarrow> usm_process_link \<Rightarrow> config \<Rightarrow> (conf_next \<times> config) option" where
  "store_link e found plink c = do {
     let m = process_linking (conf_tables c);
     (m', old) \<leftarrow> hashmap_set (ce_mok e) m plink;
     (if found \<and> hm_count m = hm_growat m \<and> \<not> hashmap_oom m' then None
      else do {
        let m' = (if found \<and> hashmap_oom m' then poke m' plink else m');
        let c = upd_conf (\<lambda>u. u\<lparr>tables := (tables u)\<lparr>process_linking := m'\<rparr>\<rparr>) c;
        (if old \<noteq> None then Some (Next, c)
         else if hashmap_oom m' then Some (Stop, c)
         else do {
           ct \<leftarrow> hashmap_get m' plink;
           Some (if ct = None then Stop else Next, c)
         })
      })
   }"

definition conf_process :: "conf_env \<Rightarrow> string \<Rightarrow> config \<Rightarrow> (conf_next \<times> config) option" where
  "conf_process e ln c = do {
     (arg2, _) \<leftarrow> arg_word (drop (length ''process'') ln);
     (if arg2 \<noteq> ''swap'' \<and> arg2 \<noteq> ''alloc'' then Some (Stop, c)
      else do {
        (arg3, rest) \<leftarrow> arg_word (drop (length ''process'' + length arg2 + 1) ln);
        (arg4, _) \<leftarrow> arg_word rest;
        policy \<leftarrow> table_get c (if arg2 = ''alloc'' then alloc_policies (conf_tables c) else swap_policies (conf_tables c))
                    (zero_policy\<lparr>pol_name := arg4\<rparr>);
        (case policy of
           None \<Rightarrow> Some (Stop, c)
         | Some p \<Rightarrow> do {
             found \<leftarrow> table_get c (process_linking (conf_tables c)) (zero_plink\<lparr>pl_procName := arg3\<rparr>);
             let plink = (case found of Some pl \<Rightarrow> pl | None \<Rightarrow> (ce_link e)\<lparr>pl_procName := arg3, pl_prio := 0\<rparr>);
             let plink = (if arg2 = ''alloc'' then plink\<lparr>pl_alloc_pol := pol_ops p\<rparr> else plink\<lparr>pl_swp_pol := pol_ops p\<rparr>);
             store_link e (found \<noteq> None) plink c
           })
      })
   }"

definition conf_priority :: "conf_env \<Rightarrow> string \<Rightarrow> config \<Rightarrow> (conf_next \<times> config) option" where
  "conf_priority e ln c = do {
     (arg2, rest) \<leftarrow> arg_word (drop (length ''priority'') ln);
     (arg3, _) \<leftarrow> arg_word rest;
     found \<leftarrow> table_get c (process_linking (conf_tables c)) (zero_plink\<lparr>pl_procName := arg2\<rparr>);
     let plink = (case found of Some pl \<Rightarrow> pl
                  | None \<Rightarrow> (ce_link e)\<lparr>pl_procName := arg2, pl_alloc_pol := 0, pl_swp_pol := 0\<rparr>);
     v \<leftarrow> atoi arg3;
     store_link e (found \<noteq> None) (plink\<lparr>pl_prio := v\<rparr>) c
   }"

definition conf_line :: "conf_env \<Rightarrow> string \<Rightarrow> config \<Rightarrow> (conf_next \<times> config) option" where
  "conf_line e ln c =
    (if ln \<noteq> [] \<and> hd ln = CHR ''#'' \<or> scan_word ln = None then Some (Next, c)
     else do {
       (arg1, _) \<leftarrow> arg_word ln;
       (if arg1 = ''memory'' then conf_memory ln c
        else if arg1 = ''workers'' then conf_workers ln c
        else if arg1 = ''page'' then conf_page ln c
        else if arg1 = ''threshold'' then conf_threshold ln c
        else if arg1 = ''process'' then conf_process e ln c
        else if arg1 = ''priority'' then conf_priority e ln c
        else Some (Stop, c))
     })"

section \<open>The file\<close>

lemma fgets_shorter: "fgets s = Some (ln, rest, eof) \<Longrightarrow> length rest < length s"
  by (cases s) (auto simp: fgets_def Let_def)

text \<open>Whether the loop was left for \<open>temp\<close>, whether the end of the file was seen, and the
  state.\<close>

function conf_loop :: "conf_env \<Rightarrow> string \<Rightarrow> config \<Rightarrow> (bool \<times> bool \<times> config) option" where
  "conf_loop e s c =
    (case fgets s of
       None \<Rightarrow> Some (False, True, c)
     | Some (ln, rest, eof) \<Rightarrow>
        (case conf_line e ln c of
           None \<Rightarrow> None
         | Some (Next, c) \<Rightarrow> conf_loop e rest c
         | Some (Stop, c) \<Rightarrow> Some (False, eof, c)
         | Some (Leave, c) \<Rightarrow> Some (True, eof, c)))"
  by auto
termination by (relation "measure (\<lambda>(_, s, _). length s)") (auto dest: fgets_shorter)

declare conf_loop.simps [simp del]

text \<open>\<open>file\<close> is the content, \<open>None\<close> when it cannot be opened: \<open>fgets\<close> is then called on a null
  pointer.\<close>

definition usm_set_alloc_policy_assignment_strategy ::
  "conf_env \<Rightarrow> string option \<Rightarrow> config \<Rightarrow> (int \<times> config) option" where
  "usm_set_alloc_policy_assignment_strategy e file c = do {
     s \<leftarrow> file;
     (left, eof, c) \<leftarrow> conf_loop e s c;
     (if left then Some (0, c)
      else
        let ret = (if eof then 0 else 1);
            c = (if globalPageSize (conf_usm c) = 0 then upd_conf (\<lambda>u. u\<lparr>globalPageSize := ucast SYS_PAGE_SIZE\<rparr>) c else c)
        in Some (ret, c))
   }"

text \<open>The inner \<open>None\<close> is \<open>exit(1)\<close>.\<close>

definition usm_parse_args :: "conf_env \<Rightarrow> (string \<Rightarrow> string option) \<Rightarrow> string list \<Rightarrow> config \<Rightarrow> config option option" where
  "usm_parse_args e files argv c =
    (if length argv < 2 then Some None
     else do {
       (ret, c) \<leftarrow> usm_set_alloc_policy_assignment_strategy e (files (argv ! 1)) c;
       Some (if ret \<noteq> 0 then None else Some c)
     })"

text \<open>One round of \<open>usm_handle_policies_watcher\<close>.\<close>

definition watch_round :: "config \<Rightarrow> config option" where
  "watch_round c =
    (let u = conf_usm c
     in if poolSize u = 0 then None
        else
          let i = unat (usedMemory u div poolSize u * 100)
          in if 100 \<le> i \<or> allocPolicyThresholds c i = 0 then None
             else if allocPolicyThresholds c i = DEFAULT_ALLOC_POLICY then Some c
             else Some (upd_conf (\<lambda>u. u\<lparr>tables := (tables u)\<lparr>default_alloc_policy := allocPolicyThresholds c i\<rparr>\<rparr>) c))"

section \<open>Words on a line\<close>

text \<open>Names that fit the buffers.\<close>

definition conf_name :: "string \<Rightarrow> bool" where
  "conf_name w \<longleftrightarrow> w \<noteq> [] \<and> length w < 20 \<and> (\<forall>c \<in> set w. \<not> c_space c)"

lemma c_space_simps [simp]: "c_space (CHR '' '')" "c_space (CHR 0x0A)"
  by (simp_all add: c_space_def)

lemma arg_word_skip [simp]: "c_space c \<Longrightarrow> arg_word (c # s) = arg_word s"
  by (simp add: arg_word_def scan_word_def)

lemma scan_word_name: "conf_name w \<Longrightarrow> r = [] \<or> c_space (hd r) \<Longrightarrow> scan_word (w @ r) = Some (w, r)"
proof -
  assume w: "conf_name w" and r: "r = [] \<or> c_space (hd r)"
  then have d: "dropWhile c_space (w @ r) = w @ r" by (cases w) (simp_all add: conf_name_def)
  have "takeWhile (\<lambda>c. \<not> c_space c) (w @ r) = w" using w r by (cases r) (simp_all add: conf_name_def takeWhile_append2)
  then show ?thesis using w by (simp add: scan_word_def d conf_name_def Let_def)
qed

lemma arg_word_name: "conf_name w \<Longrightarrow> r = [] \<or> c_space (hd r) \<Longrightarrow> arg_word (w @ r) = Some (w, r)"
  using scan_word_name [of w r] by (simp add: arg_word_def conf_name_def)

lemma conf_keywords [simp]:
  "conf_name ''memory''" "conf_name ''workers''" "conf_name ''page''" "conf_name ''threshold''" "conf_name ''process''"
  "conf_name ''priority''" "conf_name ''alloc''" "conf_name ''swap''"
  by (simp_all add: conf_name_def c_space_def)

text \<open>A line of the file.\<close>

lemma fgets_line:
  assumes "CHR 0x0A \<notin> set l" "length l < 999"
  shows "fgets (l @ CHR 0x0A # rest) = Some (l @ [CHR 0x0A], rest, False)"
    and "l \<noteq> [] \<Longrightarrow> fgets l = Some (l, [], True)"
proof -
  have a: "takeWhile (\<lambda>c. c \<noteq> CHR 0x0A) (l @ CHR 0x0A # rest) = l" using assms(1) by (subst takeWhile_append2) auto
  have b: "takeWhile (\<lambda>c. c \<noteq> CHR 0x0A) l = l" using assms(1) by (auto simp: takeWhile_eq_all_conv)
  show "fgets (l @ CHR 0x0A # rest) = Some (l @ [CHR 0x0A], rest, False)" unfolding fgets_def a Let_def using assms by simp
  show "fgets l = Some (l, [], True)" if "l \<noteq> []" unfolding fgets_def b Let_def using assms that by simp
qed

definition process_line :: "string \<Rightarrow> string \<Rightarrow> string \<Rightarrow> string" where
  "process_line kind name pol = ''process'' @ CHR '' '' # kind @ CHR '' '' # name @ CHR '' '' # pol @ [CHR 0x0A]"

lemma fgets_process_line:
  assumes "conf_name kind" "conf_name name" "conf_name pol"
  shows "fgets (process_line kind name pol @ rest) = Some (process_line kind name pol, rest, False)"
proof -
  let ?l = "''process'' @ CHR '' '' # kind @ CHR '' '' # name @ CHR '' '' # pol"
  have "CHR 0x0A \<notin> set ?l" "length ?l < 999" using assms by (auto simp: conf_name_def c_space_def)
  from fgets_line(1) [OF this, of rest] show ?thesis by (simp add: process_line_def)
qed

lemma conf_process_words:
  assumes "conf_name name" "conf_name pol" "kind = ''alloc'' \<or> kind = ''swap''"
  shows "conf_line e (process_line kind name pol) c = do {
    policy \<leftarrow> table_get c (if kind = ''alloc'' then alloc_policies (conf_tables c) else swap_policies (conf_tables c))
                (zero_policy\<lparr>pol_name := pol\<rparr>);
    (case policy of
       None \<Rightarrow> Some (Stop, c)
     | Some p \<Rightarrow> do {
         found \<leftarrow> table_get c (process_linking (conf_tables c)) (zero_plink\<lparr>pl_procName := name\<rparr>);
         let plink = (case found of Some pl \<Rightarrow> pl | None \<Rightarrow> (ce_link e)\<lparr>pl_procName := name, pl_prio := 0\<rparr>);
         let plink = (if kind = ''alloc'' then plink\<lparr>pl_alloc_pol := pol_ops p\<rparr> else plink\<lparr>pl_swp_pol := pol_ops p\<rparr>);
         store_link e (found \<noteq> None) plink c
       })
    }"
proof -
  let ?l = "''process'' @ CHR '' '' # kind @ CHR '' '' # name @ CHR '' '' # pol @ [CHR 0x0A]"
  have k: "conf_name kind" using assms(3) by auto
  have s: "scan_word ?l = Some (''process'', CHR '' '' # kind @ CHR '' '' # name @ CHR '' '' # pol @ [CHR 0x0A])"
    by (rule scan_word_name) simp_all
  have a1: "arg_word ?l = Some (''process'', CHR '' '' # kind @ CHR '' '' # name @ CHR '' '' # pol @ [CHR 0x0A])"
    by (rule arg_word_name) simp_all
  have a2: "arg_word (kind @ CHR '' '' # name @ CHR '' '' # pol @ [CHR 0x0A]) = Some (kind, CHR '' '' # name @ CHR '' '' # pol @ [CHR 0x0A])"
    by (rule arg_word_name [OF k]) simp
  have a3: "arg_word (name @ CHR '' '' # pol @ [CHR 0x0A]) = Some (name, CHR '' '' # pol @ [CHR 0x0A])"
    by (rule arg_word_name [OF assms(1)]) simp
  have a4: "arg_word (pol @ [CHR 0x0A]) = Some (pol, [CHR 0x0A])" by (rule arg_word_name [OF assms(2)]) simp
  have d1: "drop (length ''process'') ?l = CHR '' '' # kind @ CHR '' '' # name @ CHR '' '' # pol @ [CHR 0x0A]" by simp
  have d2: "drop (length ''process'' + length kind + 1) ?l = CHR '' '' # name @ CHR '' '' # pol @ [CHR 0x0A]" by simp
  have "conf_line e ?l c = conf_process e ?l c" using s a1 by (simp add: conf_line_def)
  then show ?thesis
    unfolding process_line_def conf_process_def d1 using a2 d2 a3 a4 assms(3) by (auto simp: Let_def)
qed

section \<open>From a line to a process\<close>

lemma store_new_link:
  assumes "hm_ok usm_plink_hash usm_plink_compare (process_linking (conf_tables c))"
    "hm_count (process_linking (conf_tables c)) + 2 < 65536" "\<forall>s. ce_mok e s"
    "hm_lookup (process_linking (conf_tables c)) pl = None"
  obtains m' where "store_link e False pl c = Some (Next, upd_conf (\<lambda>u. u\<lparr>tables := (tables u)\<lparr>process_linking := m'\<rparr>\<rparr>) c)"
    "hm_ok usm_plink_hash usm_plink_compare m'"
    "\<And>k. hm_lookup m' k = (if usm_plink_compare k pl = 0 then Some pl else hm_lookup (process_linking (conf_tables c)) k)"
proof (rule plinks.set_spec [OF assms(1,2), where mok = "ce_mok e" and x = pl])
  assume "\<not> (\<forall>s. ce_mok e s)"
  then show ?thesis using assms(3) by simp
next
  fix m' assume m: "hashmap_set (ce_mok e) (process_linking (conf_tables c)) pl = Some (m', hm_lookup (process_linking (conf_tables c)) pl)"
    "hm_ok usm_plink_hash usm_plink_compare m'" "\<not> hm_oom m'"
    "\<And>k. hm_lookup m' k = (if usm_plink_compare k pl = 0 then Some pl else hm_lookup (process_linking (conf_tables c)) k)"
  have "hashmap_get m' pl = Some (Some pl)"
    using plink_table.get_returns [OF m(2), of pl] m(4) [of pl] by (simp add: usm_plink_compare_def)
  then show ?thesis using that [of m'] m assms(4) by (simp add: store_link_def hashmap_oom_def Let_def)
qed

lemma get_policy:
  assumes "hm_ok usm_policy_hash usm_policy_compare m" "policy_named m pol = Some ops"
  obtains p where "hashmap_get m (zero_policy\<lparr>pol_name := pol\<rparr>) = Some (Some p)" "pol_ops p = ops"
  using policy_table.get_returns [OF assms(1), of "zero_policy\<lparr>pol_name := pol\<rparr>"] assms(2)
  by (auto simp: policy_named_def zero_policy_def)

lemma lookup_by_name:
  assumes "hm_ok usm_plink_hash usm_plink_compare m" "pl_procName a = pl_procName b"
  shows "hm_lookup m a = hm_lookup m b"
  using assms by (simp add: hm_lookup_def plinks.hm_ok_D(5) same_item.simps usm_plink_compare_def)

lemma alloc_line_ok:
  assumes t: "tables_ok (conf_tables c)" "hm_count (process_linking (conf_tables c)) + 2 < 65536" "\<forall>s. ce_mok e s"
    and n: "conf_name name" "conf_name pol" "policy_named (alloc_policies (conf_tables c)) pol = Some ops"
    and f: "hm_lookup (process_linking (conf_tables c)) (zero_plink\<lparr>pl_procName := name\<rparr>) = None" and i: "conf_init c"
  obtains m' where "conf_line e (process_line ''alloc'' name pol) c = Some (Next, upd_conf (\<lambda>u. u\<lparr>tables := (tables u)\<lparr>process_linking := m'\<rparr>\<rparr>) c)"
    "hm_ok usm_plink_hash usm_plink_compare m'"
    "hm_lookup m' (zero_plink\<lparr>pl_procName := name\<rparr>) = Some ((ce_link e)\<lparr>pl_procName := name, pl_prio := 0, pl_alloc_pol := ops\<rparr>)"
proof -
  have ok: "hm_ok usm_policy_hash usm_policy_compare (alloc_policies (conf_tables c))"
    "hm_ok usm_plink_hash usm_plink_compare (process_linking (conf_tables c))" using t(1) by (simp_all add: tables_ok_def)
  obtain p where p: "hashmap_get (alloc_policies (conf_tables c)) (zero_policy\<lparr>pol_name := pol\<rparr>) = Some (Some p)" "pol_ops p = ops"
    by (rule get_policy [OF ok(1) n(3)])
  let ?pl = "(ce_link e)\<lparr>pl_procName := name, pl_prio := 0, pl_alloc_pol := ops\<rparr>"
  have g: "hashmap_get (process_linking (conf_tables c)) (zero_plink\<lparr>pl_procName := name\<rparr>) = Some None"
    using plink_table.get_returns [OF ok(2)] f by simp
  have "hm_lookup (process_linking (conf_tables c)) ?pl = hm_lookup (process_linking (conf_tables c)) (zero_plink\<lparr>pl_procName := name\<rparr>)"
    by (rule lookup_by_name [OF ok(2)]) simp
  then obtain m' where m: "store_link e False ?pl c = Some (Next, upd_conf (\<lambda>u. u\<lparr>tables := (tables u)\<lparr>process_linking := m'\<rparr>\<rparr>) c)"
    "hm_ok usm_plink_hash usm_plink_compare m'"
    "\<And>k. hm_lookup m' k = (if usm_plink_compare k ?pl = 0 then Some ?pl else hm_lookup (process_linking (conf_tables c)) k)"
    using store_new_link [OF ok(2) t(2,3), of ?pl] f by metis
  show ?thesis
    using that [of m'] p g m i by (simp add: conf_process_words [OF n(1,2)] usm_plink_compare_def)
qed


section \<open>Swap policies\<close>

text \<open>C29: a line \<open>process swap NAME POLICY\<close> stops the reading of the file and makes it fail, even
  for a policy that was just registered: the registration enters swap policies among the
  allocation policies, and the parser looks for them among the swap policies.\<close>

theorem swap_lines_fail:
  assumes t: "tables_ok (conf_tables c)" "hm_count (alloc_policies (conf_tables c)) + 2 < 65536" "\<forall>s. mok s"
    and n: "conf_name name" "conf_name pol" and e: "\<forall>k. hm_lookup (swap_policies (conf_tables c)) k = None" and i: "conf_init c"
  shows "\<exists>t' c'. usm_register_swap_policy mok (conf_tables c) ops pol is_default = Some (0, t') \<and>
    usm_set_alloc_policy_assignment_strategy env (Some (process_line ''swap'' name pol @ rest))
      (upd_conf (\<lambda>u. u\<lparr>tables := t'\<rparr>) c) = Some (1, c')"
proof -
  obtain t' where r: "usm_register_swap_policy mok (conf_tables c) ops pol is_default = Some (0, t')" "tables_ok t'"
    "swap_policies t' = swap_policies (conf_tables c)"
    using register_ok(2) [OF t] by blast
  let ?c = "upd_conf (\<lambda>u. u\<lparr>tables := t'\<rparr>) c"
  have "hashmap_get (swap_policies t') k = Some None" for k
    using policy_table.get_returns [of "swap_policies t'"] r(2,3) e by (simp add: tables_ok_def)
  then have "conf_line env (process_line ''swap'' name pol) ?c = Some (Stop, ?c)" using i by (simp add: conf_process_words [OF n])
  moreover have "fgets (process_line ''swap'' name pol @ rest) = Some (process_line ''swap'' name pol, rest, False)"
    by (rule fgets_process_line) (use n in simp_all)
  ultimately have "conf_loop env (process_line ''swap'' name pol @ rest) ?c = Some (False, False, ?c)"
    by (subst conf_loop.simps) (simp only: option.case prod.case conf_next.case)
  then show ?thesis using r(1) by (simp add: usm_set_alloc_policy_assignment_strategy_def)
qed

section \<open>Errors in the file\<close>

lemma unknown_line:
  assumes "conf_name w" "w \<notin> {''memory'', ''workers'', ''page'', ''threshold'', ''process'', ''priority''}" "hd w \<noteq> CHR ''#''"
    "r = [] \<or> c_space (hd r)"
  shows "conf_line e (w @ r) c = Some (Stop, c)"
proof -
  have "hd (w @ r) \<noteq> CHR ''#''" using assms(1,3) by (simp add: conf_name_def)
  then show ?thesis using assms(2) scan_word_name [OF assms(1,4)] arg_word_name [OF assms(1,4)] by (simp add: conf_line_def)
qed

text \<open>An unknown word makes the configuration fail when its line is ended by a newline, and
  is accepted when it is the end of the file: reading the line has then already seen the
  end, which is all the parser asks for.\<close>

theorem unknown_word_at_end:
  assumes "conf_name w" "w \<notin> {''memory'', ''workers'', ''page'', ''threshold'', ''process'', ''priority''}" "hd w \<noteq> CHR ''#''"
  shows "\<exists>c'. usm_set_alloc_policy_assignment_strategy e (Some (w @ CHR 0x0A # rest)) c = Some (1, c') \<and>
    usm_set_alloc_policy_assignment_strategy e (Some w) c = Some (0, c')"
proof -
  have w: "CHR 0x0A \<notin> set w" "length w < 999" "w \<noteq> []" using assms(1) by (auto simp: conf_name_def)
  have "conf_line e (w @ [CHR 0x0A]) c = Some (Stop, c)" "conf_line e w c = Some (Stop, c)"
    using unknown_line [OF assms, of "[CHR 0x0A]"] unknown_line [OF assms, of "[]"] by simp_all
  then have "conf_loop e (w @ CHR 0x0A # rest) c = Some (False, False, c)" "conf_loop e w c = Some (False, True, c)"
    using fgets_line [OF w(1,2)] w(3) by (simp_all add: conf_loop.simps [of e "w @ CHR 0x0A # rest"] conf_loop.simps [of e w])
  then show ?thesis by (simp add: usm_set_alloc_policy_assignment_strategy_def)
qed

section \<open>Thresholds\<close>

lemma fill_thresholds_entries: "fill_thresholds ops i t j = (if i \<le> j \<and> j < 100 then ops else t j)"
proof (induction ops i t rule: fill_thresholds.induct)
  case (1 ops i t)
  then show ?case by (subst fill_thresholds.simps) (auto simp: le_eq_less_or_eq fun_upd_def)
qed

text \<open>What a threshold may hold: before the first threshold line nothing, then the default
  policy or the operations of a registered policy.\<close>

definition thresholds_typed :: "config \<Rightarrow> bool" where
  "thresholds_typed c \<longleftrightarrow> (\<forall>i < 100. if initThreshold c
     then allocPolicyThresholds c i = DEFAULT_ALLOC_POLICY \<or> allocPolicyThresholds c i \<in> ran (policy_named (alloc_policies (conf_tables c)))
     else allocPolicyThresholds c i = 0)"

definition keeps_typed :: "config \<Rightarrow> config \<Rightarrow> bool" where
  "keeps_typed c c' \<longleftrightarrow> alloc_policies (conf_tables c') = alloc_policies (conf_tables c) \<and> (thresholds_typed c \<longrightarrow> thresholds_typed c')"

lemma keeps_typed_other:
  "allocPolicyThresholds c' = allocPolicyThresholds c \<Longrightarrow> initThreshold c' = initThreshold c \<Longrightarrow>
   alloc_policies (conf_tables c') = alloc_policies (conf_tables c) \<Longrightarrow> keeps_typed c c'"
  by (simp add: keeps_typed_def thresholds_typed_def)

lemma keeps_typed_trans: "keeps_typed a b \<Longrightarrow> keeps_typed b c \<Longrightarrow> keeps_typed a c"
  by (simp add: keeps_typed_def)

lemma store_link_typed:
  assumes "store_link e found pl c = Some (k, c')"
  shows "keeps_typed c c'"
proof -
  obtain m old where m: "hashmap_set (ce_mok e) (process_linking (conf_tables c)) pl = Some (m, old)"
    using assms by (cases "hashmap_set (ce_mok e) (process_linking (conf_tables c)) pl") (auto simp: store_link_def Let_def)
  define C where "C m = upd_conf (\<lambda>u. u\<lparr>tables := (tables u)\<lparr>process_linking := m\<rparr>\<rparr>) c" for m
  have "\<exists>m. c' = C m"
    using assms m unfolding store_link_def Let_def C_def [symmetric]
    by (auto simp: bind_eq_Some_conv split: if_split_asm)
  then obtain n where c: "c' = C n" by blast
  show ?thesis unfolding c C_def by (rule keeps_typed_other) simp_all
qed

lemma conf_threshold_typed:
  assumes "conf_threshold ln c = Some (k, c')" "hm_ok usm_policy_hash usm_policy_compare (alloc_policies (conf_tables c))"
  shows "keeps_typed c c'"
proof -
  let ?c = "init_thresholds c"
  have i: "initThreshold ?c" "conf_usm ?c = conf_usm c" by (simp_all add: init_thresholds_def)
  have k: "keeps_typed c ?c" by (simp add: keeps_typed_def thresholds_typed_def fill_thresholds_entries init_thresholds_def)
  obtain arg3 policy where g: "hashmap_get (alloc_policies (conf_tables c)) (zero_policy\<lparr>pol_name := arg3\<rparr>) = Some policy"
    and r: "(policy = None \<and> c' = ?c) \<or> (\<exists>p v. policy = Some p \<and> c' = ?c\<lparr>allocPolicyThresholds := fill_thresholds (pol_ops p) (nat v) (allocPolicyThresholds ?c)\<rparr>)"
    using assms(1) unfolding conf_threshold_def Let_def
    by (auto simp: bind_eq_Some_conv i(2) dest!: table_get_Some split: option.splits if_splits) blast+
  show ?thesis
  proof (cases policy)
    case None
    then show ?thesis using r k by simp
  next
    case (Some p)
    then have "hm_lookup (alloc_policies (conf_tables c)) (zero_policy\<lparr>pol_name := arg3\<rparr>) = Some p"
      using g policy_table.get_returns [OF assms(2), of "zero_policy\<lparr>pol_name := arg3\<rparr>"] by simp
    then have "policy_named (alloc_policies (conf_tables c)) arg3 = Some (pol_ops p)" by (simp add: policy_named_def zero_policy_def)
    then have "pol_ops p \<in> ran (policy_named (alloc_policies (conf_tables c)))" by (rule ranI)
    moreover obtain v where "c' = ?c\<lparr>allocPolicyThresholds := fill_thresholds (pol_ops p) (nat v) (allocPolicyThresholds ?c)\<rparr>"
      using r Some by auto
    ultimately have "keeps_typed ?c c'" using i by (simp add: keeps_typed_def thresholds_typed_def fill_thresholds_entries)
    then show ?thesis using k keeps_typed_trans by blast
  qed
qed

lemma conf_line_typed:
  assumes "conf_line e ln c = Some (k, c')" "hm_ok usm_policy_hash usm_policy_compare (alloc_policies (conf_tables c))"
  shows "keeps_typed c c'"
proof -
  have m: "keeps_typed c c'" if "conf_memory ln c = Some (k, c')"
    using that by (intro keeps_typed_other) (auto simp: conf_memory_def Let_def bind_eq_Some_conv)
  have w: "keeps_typed c c'" if "conf_workers ln c = Some (k, c')"
    using that by (intro keeps_typed_other) (auto simp: conf_workers_def bind_eq_Some_conv)
  have p: "keeps_typed c c'" if "conf_page ln c = Some (k, c')"
    using that by (intro keeps_typed_other) (auto simp: conf_page_def Let_def bind_eq_Some_conv)
  have x: "keeps_typed c c'" if "conf_process e ln c = Some (k, c')"
  proof -
    have "c' = c \<or> (\<exists>f pl. store_link e f pl c = Some (k, c'))"
      using that unfolding conf_process_def Let_def by (auto simp: bind_eq_Some_conv split: option.splits if_split_asm)
    then show ?thesis using store_link_typed by (auto simp: keeps_typed_def)
  qed
  have y: "keeps_typed c c'" if "conf_priority e ln c = Some (k, c')"
  proof -
    have "\<exists>f pl. store_link e f pl c = Some (k, c')"
      using that unfolding conf_priority_def Let_def by (auto simp: bind_eq_Some_conv)
    then show ?thesis using store_link_typed by auto
  qed
  have "c' = c \<or> conf_memory ln c = Some (k, c') \<or> conf_workers ln c = Some (k, c') \<or> conf_page ln c = Some (k, c') \<or>
      conf_threshold ln c = Some (k, c') \<or> conf_process e ln c = Some (k, c') \<or> conf_priority e ln c = Some (k, c')"
    using assms(1) unfolding conf_line_def by (auto simp: bind_eq_Some_conv split: if_split_asm)
  then show ?thesis using m w p x y conf_threshold_typed [OF _ assms(2)] by (auto simp: keeps_typed_def)
qed

text \<open>What every line keeps, and the default page size at the end, the reading of the whole file
  keeps.\<close>

locale conf_relation =
  fixes R :: "config \<Rightarrow> config \<Rightarrow> bool"
  assumes reflexive: "R c c"
    and transitive: "R a b \<Longrightarrow> R b c \<Longrightarrow> R a c"
    and line: "conf_line e ln c = Some (k, c') \<Longrightarrow> R c c'"
    and page_size: "R c (upd_conf (\<lambda>u. u\<lparr>globalPageSize := g\<rparr>) c)"
begin

lemma lines_keep: "conf_loop e s c = Some (l, eof, c') \<Longrightarrow> R c c'"
proof (induction e s c rule: conf_loop.induct)
  case (1 e s c)
  show ?case
  proof (cases "fgets s")
    case None
    then show ?thesis using 1(2) reflexive by (simp add: conf_loop.simps)
  next
    case (Some q)
    obtain ln rest end' where q: "q = (ln, rest, end')" by (rule prod_cases3)
    obtain k d where d: "conf_line e ln c = Some (k, d)"
      using 1(2) Some q by (cases "conf_line e ln c") (auto simp: conf_loop.simps [of e s])
    show ?thesis
    proof (cases k)
      case Next
      then have "R d c'"
        using 1(1) [OF Some q [symmetric] refl d refl Next] 1(2) Some q d by (simp add: conf_loop.simps [of e s])
      then show ?thesis using line [OF d] transitive by blast
    qed (use 1(2) Some q d line [OF d] in \<open>simp_all add: conf_loop.simps [of e s]\<close>)
  qed
qed

lemma reading_keeps:
  assumes "usm_set_alloc_policy_assignment_strategy e file c = Some (ret, c')"
  shows "R c c'"
proof -
  obtain s l eof d where s: "conf_loop e s c = Some (l, eof, d)"
    and d: "c' = d \<or> c' = upd_conf (\<lambda>u. u\<lparr>globalPageSize := ucast SYS_PAGE_SIZE\<rparr>) d"
    using assms(1) unfolding usm_set_alloc_policy_assignment_strategy_def Let_def
    by (auto simp: bind_eq_Some_conv split: if_split_asm)
  have "R d c'" using d reflexive page_size by auto
  then show ?thesis using lines_keep [OF s] transitive by blast
qed

end

definition typing_kept :: "config \<Rightarrow> config \<Rightarrow> bool" where
  "typing_kept c c' \<longleftrightarrow> (hm_ok usm_policy_hash usm_policy_compare (alloc_policies (conf_tables c)) \<longrightarrow> keeps_typed c c')"

interpretation typing: conf_relation typing_kept
proof unfold_locales
  fix a b c assume "typing_kept a b" "typing_kept b c"
  then show "typing_kept a c" using keeps_typed_trans [of a b c] by (auto simp: typing_kept_def keeps_typed_def)
next
  fix e ln c k c' assume "conf_line e ln c = Some (k, c')"
  then show "typing_kept c c'" using conf_line_typed by (simp add: typing_kept_def)
next
  fix c g show "typing_kept c (upd_conf (\<lambda>u. u\<lparr>globalPageSize := g\<rparr>) c)"
    unfolding typing_kept_def by (intro impI keeps_typed_other) simp_all
qed (simp add: typing_kept_def keeps_typed_def)


section \<open>What a configuration leaves alone\<close>

text \<open>Of the daemon's state only the sizes and the links of processes can change.\<close>

definition conf_keeps :: "config \<Rightarrow> config \<Rightarrow> bool" where
  "conf_keeps c c' \<longleftrightarrow> conf_init c' = conf_init c \<and> (workersNumber c = 0 \<longrightarrow> workersNumber c' = 0) \<and>
     (\<exists>ps gs pl. conf_usm c' = (conf_usm c)\<lparr>poolSize := ps, globalPageSize := gs,
        tables := (conf_tables c)\<lparr>process_linking := pl\<rparr>\<rparr>)"

lemma conf_keepsI:
  "conf_usm c' = (conf_usm c)\<lparr>poolSize := ps, globalPageSize := gs, tables := (conf_tables c)\<lparr>process_linking := pl\<rparr>\<rparr> \<Longrightarrow>
   conf_init c' = conf_init c \<Longrightarrow> (workersNumber c = 0 \<Longrightarrow> workersNumber c' = 0) \<Longrightarrow> conf_keeps c c'"
  unfolding conf_keeps_def by blast

lemma conf_keepsD:
  assumes "conf_keeps c c'"
  shows "conf_init c' = conf_init c" "workersNumber c = 0 \<Longrightarrow> workersNumber c' = 0"
    "links (conf_usm c') = links (conf_usm c)" "pagesList (conf_usm c') = pagesList (conf_usm c)"
    "node_page (conf_usm c') = node_page (conf_usm c)" "basePFN (conf_usm c') = basePFN (conf_usm c)"
    "globalPagesNumber (conf_usm c') = globalPagesNumber (conf_usm c)" "procDescList (conf_usm c') = procDescList (conf_usm c)"
    "usedMemory (conf_usm c') = usedMemory (conf_usm c)" "umem (conf_usm c') = umem (conf_usm c)"
    "default_alloc_policy (conf_tables c') = default_alloc_policy (conf_tables c)"
    "alloc_policies (conf_tables c') = alloc_policies (conf_tables c)"
  using assms by (auto simp: conf_keeps_def)

lemma conf_keeps_refl: "conf_keeps c c"
  by (rule conf_keepsI [where ps = "poolSize (conf_usm c)" and gs = "globalPageSize (conf_usm c)" and pl = "process_linking (conf_tables c)"]) simp_all

lemma conf_keeps_trans: "conf_keeps a b \<Longrightarrow> conf_keeps b c \<Longrightarrow> conf_keeps a c"
  unfolding conf_keeps_def by (elim conjE exE) (intro conjI, simp, simp, force)

lemma store_link_keeps:
  assumes "store_link e found pl c = Some (k, c')"
  shows "conf_keeps c c'"
proof -
  define C where "C m = upd_conf (\<lambda>u. u\<lparr>tables := (tables u)\<lparr>process_linking := m\<rparr>\<rparr>) c" for m
  have "\<exists>m. c' = C m"
    using assms unfolding store_link_def Let_def C_def [symmetric]
    by (auto simp: bind_eq_Some_conv split: if_split_asm)
  then obtain n where c: "c' = C n" by blast
  show ?thesis
    unfolding c C_def
    by (rule conf_keepsI [where ps = "poolSize (conf_usm c)" and gs = "globalPageSize (conf_usm c)" and pl = n]) simp_all
qed

lemma conf_line_keeps:
  assumes "conf_line e ln c = Some (k, c')"
  shows "conf_keeps c c'"
proof -
  let ?ps = "poolSize (conf_usm c)" and ?gs = "globalPageSize (conf_usm c)" and ?pl = "process_linking (conf_tables c)"
  have m: "conf_keeps c c'" if "conf_memory ln c = Some (k, c')"
    using that by (intro conf_keepsI [where ps = "poolSize (conf_usm c')" and gs = ?gs and pl = ?pl]) (auto simp: conf_memory_def Let_def bind_eq_Some_conv)
  have w: "conf_keeps c c'" if "conf_workers ln c = Some (k, c')"
    using that by (intro conf_keepsI [where ps = ?ps and gs = ?gs and pl = ?pl]) (auto simp: conf_workers_def bind_eq_Some_conv)
  have p: "conf_keeps c c'" if "conf_page ln c = Some (k, c')"
    using that by (intro conf_keepsI [where ps = ?ps and gs = "globalPageSize (conf_usm c')" and pl = ?pl]) (auto simp: conf_page_def Let_def bind_eq_Some_conv)
  have t: "conf_keeps c c'" if "conf_threshold ln c = Some (k, c')"
    using that by (intro conf_keepsI [where ps = ?ps and gs = ?gs and pl = ?pl])
      (auto simp: conf_threshold_def init_thresholds_def Let_def bind_eq_Some_conv split: option.splits if_split_asm)
  have x: "c' = c \<or> (\<exists>f pl. store_link e f pl c = Some (k, c'))" if "conf_process e ln c = Some (k, c')"
    using that unfolding conf_process_def Let_def by (auto simp: bind_eq_Some_conv split: option.splits if_split_asm)
  have y: "\<exists>f pl. store_link e f pl c = Some (k, c')" if "conf_priority e ln c = Some (k, c')"
    using that unfolding conf_priority_def Let_def by (auto simp: bind_eq_Some_conv)
  have "c' = c \<or> conf_memory ln c = Some (k, c') \<or> conf_workers ln c = Some (k, c') \<or> conf_page ln c = Some (k, c') \<or>
      conf_threshold ln c = Some (k, c') \<or> conf_process e ln c = Some (k, c') \<or> conf_priority e ln c = Some (k, c')"
    using assms(1) unfolding conf_line_def by (auto simp: bind_eq_Some_conv split: if_split_asm)
  then show ?thesis using m w p t x y store_link_keeps conf_keeps_refl by blast
qed

interpretation keeping: conf_relation conf_keeps
proof unfold_locales
  fix c g show "conf_keeps c (upd_conf (\<lambda>u. u\<lparr>globalPageSize := g\<rparr>) c)"
    by (rule conf_keepsI [where ps = "poolSize (conf_usm c)" and gs = g and pl = "process_linking (conf_tables c)"]) simp_all
qed (fact conf_keeps_refl conf_line_keeps | erule (1) conf_keeps_trans)+

section \<open>The watcher\<close>

lemma u64_div_self: "(x :: u64) \<noteq> 0 \<Longrightarrow> x div x = 1"
proof -
  assume "x \<noteq> 0"
  then have "unat x \<noteq> 0" by (simp only: unat_eq_zero) simp
  then have "unat x div unat x = 1" by (rule div_self)
  then have "unat (x div x) = unat (1 :: u64)" by (simp only: unat_div_distrib unat_1)
  then show ?thesis by (simp only: word_unat_eq_iff)
qed

text \<open>The watcher divides before it multiplies, so while the pool is not full it always
  applies the policy of threshold 0, whatever the others say; when the pool is full it reads
  behind the thresholds.\<close>

theorem watcher_uses_threshold_0:
  assumes "thresholds_typed c" "initThreshold c" "0 \<notin> ran (policy_named (alloc_policies (conf_tables c)))"
    "poolSize (conf_usm c) \<noteq> 0" "usedMemory (conf_usm c) \<le> poolSize (conf_usm c)"
  shows "watch_round c =
    (if usedMemory (conf_usm c) = poolSize (conf_usm c) then None
     else if allocPolicyThresholds c 0 = DEFAULT_ALLOC_POLICY then Some c
     else Some (upd_conf (\<lambda>u. u\<lparr>tables := (tables u)\<lparr>default_alloc_policy := allocPolicyThresholds c 0\<rparr>\<rparr>) c))"
proof (cases "usedMemory (conf_usm c) = poolSize (conf_usm c)")
  case True
  then have "unat (usedMemory (conf_usm c) div poolSize (conf_usm c) * 100) = 100" using u64_div_self [OF assms(4)] by simp
  then show ?thesis using True assms(4) unfolding watch_round_def Let_def by simp
next
  case False
  then have "usedMemory (conf_usm c) < poolSize (conf_usm c)" using assms(5) by simp
  then have z: "usedMemory (conf_usm c) div poolSize (conf_usm c) = 0" by (rule div_word_less)
  have "allocPolicyThresholds c 0 = DEFAULT_ALLOC_POLICY \<or> allocPolicyThresholds c 0 \<in> ran (policy_named (alloc_policies (conf_tables c)))"
    using assms(1,2) by (simp add: thresholds_typed_def)
  then have "allocPolicyThresholds c 0 \<noteq> 0" using assms(3) by (auto simp: DEFAULT_ALLOC_POLICY_def)
  then show ?thesis using assms(4) False by (simp add: watch_round_def Let_def z)
qed

section \<open>The first reading\<close>

text \<open>The first reading, before the daemon is initialised, ends successfully at the first
  \<open>page\<close> line: the page size is taken over and nothing behind that line has any effect, be it
  sizes or errors.\<close>

theorem first_reading_stops_at_page:
  assumes "\<not> conf_init c" "conf_name n" "atoi n = Some v"
  shows "usm_set_alloc_policy_assignment_strategy e (Some (''page'' @ CHR '' '' # n @ CHR 0x0A # rest)) c =
    Some (0, upd_conf (\<lambda>u. u\<lparr>globalPageSize := of_int v\<rparr>) c)"
proof -
  let ?l = "''page'' @ CHR '' '' # n"
  have l: "CHR 0x0A \<notin> set ?l" "length ?l < 999" using assms(2) by (auto simp: conf_name_def)
  have a: "arg_word (n @ [CHR 0x0A]) = Some (n, [CHR 0x0A])" by (rule arg_word_name [OF assms(2)]) simp
  have w: "arg_word (''page'' @ CHR '' '' # n @ [CHR 0x0A]) = Some (''page'', CHR '' '' # n @ [CHR 0x0A])"
    "scan_word (''page'' @ CHR '' '' # n @ [CHR 0x0A]) = Some (''page'', CHR '' '' # n @ [CHR 0x0A])"
    by (rule arg_word_name scan_word_name; simp)+
  have "conf_line e (?l @ [CHR 0x0A]) c = conf_page (?l @ [CHR 0x0A]) c" using w by (simp add: conf_line_def)
  also have "\<dots> = Some (Leave, upd_conf (\<lambda>u. u\<lparr>globalPageSize := of_int v\<rparr>) c)" using a assms by (simp add: conf_page_def)
  finally have "conf_loop e (?l @ CHR 0x0A # rest) c = Some (True, False, upd_conf (\<lambda>u. u\<lparr>globalPageSize := of_int v\<rparr>) c)"
    by (subst conf_loop.simps) (simp only: fgets_line(1) [OF l] option.case prod.case conf_next.case)
  then show ?thesis by (simp add: usm_set_alloc_policy_assignment_strategy_def)
qed

section \<open>A configuration\<close>

definition config0 :: config where
  "config0 = \<lparr>conf_usm = state0, workersNumber = 0, allocPolicyThresholds = (\<lambda>_. 0), initThreshold = False, conf_init = False\<rparr>"

definition conf_env0 :: conf_env where
  "conf_env0 = \<lparr>ce_mok = (\<lambda>_. True), ce_link = zero_plink\<lparr>pl_swp_pol := 0xDEAD\<rparr>\<rparr>"

lemma tables_state0: "tables state0 = tables0"
  by (simp add: state0_def)

lemma tables0_links: "hm_count (process_linking tables0) = 0" "hm_lookup (process_linking tables0) k = None"
  using hm_ok_new_map(2) [of 16 4] by (simp_all add: tables0_def) (simp add: new_map_def)

lemma conf_names [simp]: "conf_name ''app''" "conf_name ''policyOne''" "conf_name ''4096''" "conf_name ''bogus''"
  by (simp_all add: conf_name_def c_space_def)


theorem swap_lines_fail_witness:
  "\<exists>t' c'. usm_register_swap_policy (\<lambda>_. True) tables0 43 ''policyOne'' True = Some (0, t') \<and>
    usm_set_alloc_policy_assignment_strategy conf_env0 (Some (process_line ''swap'' ''app'' ''policyOne''))
      (upd_conf (\<lambda>u. u\<lparr>tables := t'\<rparr>) (config0\<lparr>conf_init := True\<rparr>)) = Some (1, c')"
  using swap_lines_fail [of "config0\<lparr>conf_init := True\<rparr>" "\<lambda>_. True" "''app''" "''policyOne''" 43 True conf_env0 "[]"] tables0_ok
  by (simp add: config0_def tables_state0) (simp add: tables0_def)

theorem unknown_word_at_end_witness:
  "\<exists>c'. usm_set_alloc_policy_assignment_strategy conf_env0 (Some (''bogus'' @ CHR 0x0A # [])) config0 = Some (1, c') \<and>
    usm_set_alloc_policy_assignment_strategy conf_env0 (Some ''bogus'') config0 = Some (0, c')"
  using unknown_word_at_end [of "''bogus''" conf_env0 "[]" config0] by simp

theorem first_reading_stops_at_page_witness:
  "usm_set_alloc_policy_assignment_strategy conf_env0 (Some (''page'' @ CHR '' '' # ''4096'' @ CHR 0x0A # ''bogus'')) config0 =
    Some (0, upd_conf (\<lambda>u. u\<lparr>globalPageSize := 4096\<rparr>) config0)"
  using first_reading_stops_at_page [of config0 "''4096''" 4096 conf_env0 "''bogus''"]
  by (simp add: config0_def atoi_def value_from_def is_digit_def digit_val_def)


theorem watcher_uses_threshold_0_witness:
  "\<exists>c. poolSize (conf_usm c) = 4096 \<and> usedMemory (conf_usm c) = 4096 \<and> watch_round c = None"
proof -
  let ?c = "config0\<lparr>conf_usm := state0\<lparr>poolSize := 4096, usedMemory := 4096\<rparr>, initThreshold := True,
    allocPolicyThresholds := (\<lambda>_. DEFAULT_ALLOC_POLICY)\<rparr>"
  have "ran (policy_named (alloc_policies (conf_tables ?c))) = {}" by (simp add: tables_state0 tables0_def ran_def)
  then have "watch_round ?c = None" using watcher_uses_threshold_0 [of ?c] by (simp add: thresholds_typed_def)
  then show ?thesis by (intro exI [of _ ?c]) simp
qed

end
