(* ===== verification/Startup.thy ===== *)
theory Startup
  imports Config Sched
begin

text \<open>
  The start of the daemon: \<open>main\<close> (\<open>examples/project-2/project-2.c\<close>), \<open>usm_init\<close> and
  \<open>usm_launch\<close> (\<open>impl/usm/usm.c\<close>) and what \<open>setSched\<close> (\<open>impl/usm/sched.c\<close>) does before its
  loop.  It reads the configuration for the sizes, opens the files of the kernel module,
  maps the pool and builds the page table, the workers, the process descriptors and the
  tables, runs the setups of the two modules, reads the configuration again and starts
  the workers.  What the system calls and \<open>malloc\<close> return are parameters.  \<open>None\<close> is a
  program that does not return, aborts or has undefined behaviour, \<open>Some None\<close> one that
  exits with status 1.
\<close>

section \<open>State\<close>

text \<open>\<open>se_open k n\<close> is the n-th attempt to open the k-th file, \<open>se_mok k\<close> tells which allocations
  of the k-th table or registration succeed, \<open>se_channel i\<close> is what the memory of the i-th
  worker's first channel holds, and \<open>se_conf k\<close> belongs to the k-th reading.\<close>

record start_env =
  se_userfaultfd :: int
  se_api :: bool
  se_com :: "u64 option"
  se_open :: "nat \<Rightarrow> nat \<Rightarrow> int"
  se_zone :: "u64 option"
  se_io :: "uffdio_palloc \<Rightarrow> ioctl_result"
  se_mok :: "nat \<Rightarrow> nat \<Rightarrow> bool"
  se_nodes :: "nat \<Rightarrow> addr"
  se_swap_file :: bool
  se_swap_nodes :: addr
  se_channel :: "nat \<Rightarrow> usm_channel"
  se_conf :: "nat \<Rightarrow> conf_env"
  se_pid :: u32

text \<open>The workers that poll a file, in the order of their list.\<close>

record poll_worker =
  thread_name :: string
  pw_channel :: usm_channel

text \<open>\<open>sy_conf\<close> holds what the configuration sets; its \<open>conf_usm\<close> is that of the daemon whenever
  the configuration is read.  \<open>launched\<close> are the workers whose thread was created.\<close>

record system =
  sy_daemon :: daemon
  sy_conf :: config
  usmWorkers :: "poll_worker list"
  launched :: "poll_worker list"

abbreviation sy_usm :: "system \<Rightarrow> usm_state" where "sy_usm s \<equiv> usm (sw (sy_daemon s))"

abbreviation upd_system :: "(usm_state \<Rightarrow> usm_state) \<Rightarrow> system \<Rightarrow> system" where
  "upd_system f s \<equiv> s\<lparr>sy_daemon := upd_sw f (sy_daemon s)\<rparr>"

definition put_conf :: "config \<Rightarrow> system \<Rightarrow> system" where
  "put_conf c s = upd_system (\<lambda>_. conf_usm c) (s\<lparr>sy_conf := c\<rparr>)"

definition get_conf :: "system \<Rightarrow> config" where
  "get_conf s = (sy_conf s)\<lparr>conf_usm := sy_usm s\<rparr>"

lemma get_conf_sel [simp]:
  "conf_usm (get_conf s) = sy_usm s" "workersNumber (get_conf s) = workersNumber (sy_conf s)" "conf_init (get_conf s) = conf_init (sy_conf s)"
  by (simp_all add: get_conf_def)

section \<open>Initialisation\<close>

text \<open>The loops that ask to try again until a file can be opened.\<close>

partial_function (option) open_loop :: "(nat \<Rightarrow> int) \<Rightarrow> nat \<Rightarrow> int option" where
  "open_loop attempt n = (if attempt n < 0 then open_loop attempt (Suc n) else Some (attempt n))"

definition appendUSMChannelLegacy :: "usm_channel_ops \<Rightarrow> u32 \<Rightarrow> usm_channel \<Rightarrow> usm_channel" where
  "appendUSMChannelLegacy ops channelFd c = c\<lparr>cnl_ops := ops, cnl_fd := channelFd, cnl_type := FD_BASED\<rparr>"

text \<open>One turn of the loop over the workers, and the loop.\<close>

definition init_worker :: "int \<Rightarrow> u32 \<Rightarrow> u32 \<Rightarrow> usm_channel \<Rightarrow> nat \<Rightarrow> poll_worker" where
  "init_worker n usmFreePagesFd usmNewProcFd c i =
    (let w = \<lparr>thread_name = ''Worker-'' @ decimal i, pw_channel = c\<rparr>;
         w = (if int i = n - 1
              then w\<lparr>thread_name := thread_name w @ ''/freePagesReceiver'',
                     pw_channel := appendUSMChannelLegacy usm_cnl_freed_ops usmFreePagesFd (pw_channel w)\<rparr>
              else w)
     in if int i = n - 2
        then w\<lparr>thread_name := thread_name w @ ''/processesReceiver'',
               pw_channel := appendUSMChannelLegacy usm_cnl_new_process_ops usmNewProcFd (pw_channel w)\<rparr>
        else w)"

definition init_workers :: "start_env \<Rightarrow> u32 \<Rightarrow> u32 \<Rightarrow> system \<Rightarrow> system" where
  "init_workers e usmFreePagesFd usmNewProcFd s =
    (let s = s\<lparr>sy_conf := (sy_conf s)\<lparr>workersNumber := 0\<rparr>\<rparr>;
         s = s\<lparr>sy_conf := (sy_conf s)\<lparr>workersNumber := workersNumber (sy_conf s) + 2\<rparr>\<rparr>;
         n = workersNumber (sy_conf s);
         s = s\<lparr>usmWorkers := map (\<lambda>i. init_worker n usmFreePagesFd usmNewProcFd (se_channel e i) i) [0..<nat n]\<rparr>
     in s\<lparr>sy_conf := (sy_conf s)\<lparr>workersNumber := workersNumber (sy_conf s) - 2\<rparr>\<rparr>)"

fun init_channel_ids :: "nat \<Rightarrow> daemon \<Rightarrow> daemon" where
  "init_channel_ids 0 d = d"
| "init_channel_ids (Suc i) d =
    (let d = init_channel_ids i d in upd_channel 0 i (\<lambda>c. c\<lparr>cnl_id := wk_id (usmMemWorkers d ! 0)\<rparr>) d)"

text \<open>The memory worker, whose state is the last word of the shared page.\<close>

definition init_mem_worker :: "u64 \<Rightarrow> daemon \<Rightarrow> daemon" where
  "init_mem_worker com d =
    (let d = d\<lparr>usmMemWorkers := (usmMemWorkers d)[0 := (usmMemWorkers d ! 0)\<lparr>wk_com := com, wk_id := 0\<rparr>]\<rparr>;
         d = set_umem (wr (umem (usm (sw d))) com 4092 [1]) d
     in init_channel_ids MAX_UTHREADS d)"

text \<open>A table that could not be allocated is a null pointer: undefined behaviour at its first
  use, and here as soon as it is stored.\<close>

definition init_tables :: "start_env \<Rightarrow> system \<Rightarrow> system option" where
  "init_tables e s = do {
     alloc_pols \<leftarrow> new_policy_table (se_mok e 0);
     swap_pols \<leftarrow> new_policy_table (se_mok e 1);
     linking \<leftarrow> new_plink_table (se_mok e 2);
     a \<leftarrow> alloc_pols; p \<leftarrow> swap_pols; l \<leftarrow> linking;
     let s = upd_system (\<lambda>u. u\<lparr>tables := (tables u)\<lparr>alloc_policies := a, swap_policies := p, process_linking := l\<rparr>\<rparr>) s;
     Some (s\<lparr>sy_conf := (sy_conf s)\<lparr>conf_init := True\<rparr>\<rparr>)
   }"

text \<open>Page contents are kept by page; the pool's size is a number of whole pages.\<close>

definition zero_frames :: "u64 \<Rightarrow> u64 \<Rightarrow> (u64 \<Rightarrow> bytes) \<Rightarrow> u64 \<Rightarrow> bytes" where
  "zero_frames zone sz fr = (\<lambda>a. if a - zone < sz then zero_page else fr a)"

text \<open>From the page table to the tables; the watch list of the daemon's own waker, whose thread is
  never created, is left out.\<close>

definition init_rest :: "start_env \<Rightarrow> u64 \<Rightarrow> u64 \<Rightarrow> u32 \<Rightarrow> u32 \<Rightarrow> system \<Rightarrow> system option" where
  "init_rest e com usmZone usmFreePagesFd usmNewProcFd s =
    (let s = upd_system (\<lambda>u. insert_pages usmZone (unat (globalPagesNumber u)) u) s;
         s = init_workers e usmFreePagesFd usmNewProcFd s;
         s = s\<lparr>sy_daemon := init_mem_worker com (sy_daemon s)\<rparr>;
         s = upd_system (init_procs (unat MAX_PROC)) s
     in init_tables e s)"

text \<open>Where a system call fails \<open>usm_init\<close> returns its error number, which is not 0; it is 1 here.\<close>

definition usm_init :: "start_env \<Rightarrow> system \<Rightarrow> (int \<times> system) option" where
  "usm_init e s =
    (if se_userfaultfd e = - 1 then Some (1, s)
     else if \<not> se_api e then Some (1, s)
     else case se_com e of
       None \<Rightarrow> None
     | Some com \<Rightarrow> do {
         usmCMAFd \<leftarrow> open_loop (se_open e 0) 0;
         usmFreePagesFd \<leftarrow> open_loop (se_open e 1) 0;
         usmNewProcFd \<leftarrow> open_loop (se_open e 2) 0;
         let s = upd_system (\<lambda>u. u\<lparr>globalPagesNumber := ucast (poolSize u div SYS_PAGE_SIZE)\<rparr>) s;
         (case se_zone e of
            None \<Rightarrow> Some (1, s)
          | Some usmZone \<Rightarrow>
              let s = upd_system (\<lambda>u. u\<lparr>frames := zero_frames usmZone (poolSize u) (frames u)\<rparr>) s;
                  (base, u) = usm_get_pfn (se_io e) (of_int (se_userfaultfd e)) usmZone (ucast (globalPagesNumber (sy_usm s))) (sy_usm s);
                  s = upd_system (\<lambda>_. u\<lparr>basePFN := base\<rparr>) s
              in if base = 1 then Some (1, s)
                 else do {
                   s \<leftarrow> init_rest e com usmZone (of_int usmFreePagesFd) (of_int usmNewProcFd) s;
                   Some (0, s)
                 })
       })"

section \<open>Launch\<close>

text \<open>The loop of \<open>setSched\<close> that creates the threads of the workers.\<close>

fun launch_workers :: "int \<Rightarrow> int \<Rightarrow> poll_worker list \<Rightarrow> poll_worker list" where
  "launch_workers n wk_nr [] = []"
| "launch_workers n wk_nr (w # ws) = w # (if wk_nr + 1 = n + 1 then [] else launch_workers n (wk_nr + 1) ws)"

text \<open>\<open>setSched\<close> up to its endless loop, whose turns are \<open>setSched_turn\<close>.\<close>

definition setSched_start :: "start_env \<Rightarrow> system \<Rightarrow> system" where
  "setSched_start e s =
    (let s = upd_system (\<lambda>u. u\<lparr>umem := wr32 (umem u) (wk_com (usmMemWorkers (sy_daemon s) ! 0)) 2048 (se_pid e)\<rparr>) s;
         s = s\<lparr>launched := launch_workers (workersNumber (sy_conf s)) 0 (usmWorkers s)\<rparr>
     in s\<lparr>sy_daemon := setSched_init MAX_UTHREADS (sy_daemon s)\<rparr>)"

definition read_conf :: "start_env \<Rightarrow> nat \<Rightarrow> string option \<Rightarrow> system \<Rightarrow> (int \<times> system) option" where
  "read_conf e k file s = do {
     (r, c) \<leftarrow> usm_set_alloc_policy_assignment_strategy (se_conf e k) file (get_conf s);
     Some (r, put_conf c s)
   }"

text \<open>The operations of both modules are there, so the test for missing ones never fires.\<close>

definition usm_launch :: "start_env \<Rightarrow> string option \<Rightarrow> system \<Rightarrow> system option option" where
  "usm_launch e file s = do {
     (r, s) \<leftarrow> usm_init e s;
     (if r \<noteq> 0 then Some None
      else do {
        (r, u) \<leftarrow> policiesSet1_setup (\<lambda>k. se_mok e (3 + k)) (se_nodes e) (unat (globalPagesNumber (sy_usm s))) (sy_usm s);
        (if r \<noteq> 0 then Some None
         else do {
           let s = upd_system (\<lambda>_. u) s;
           (r, d) \<leftarrow> swap_policiesSet1_setup (\<lambda>k. se_mok e (6 + k)) (se_swap_file e) (se_swap_nodes e) (sw (sy_daemon s));
           (if r \<noteq> 0 then Some None
            else do {
              let s = s\<lparr>sy_daemon := (sy_daemon s)\<lparr>sw := d\<rparr>\<rparr>;
              (r, s) \<leftarrow> read_conf e 1 file s;
              (if r \<noteq> 0 then Some None else Some (Some (setSched_start e s)))
            })
         })
      })
   }"

definition daemon_main :: "start_env \<Rightarrow> (string \<Rightarrow> string option) \<Rightarrow> string list \<Rightarrow> system \<Rightarrow> system option option" where
  "daemon_main e files argv s = do {
     c \<leftarrow> usm_parse_args (se_conf e 0) files argv (get_conf s);
     (case c of None \<Rightarrow> Some None | Some c \<Rightarrow> usm_launch e (files (argv ! 1)) (put_conf c s))
   }"

section \<open>Parts of the initialisation\<close>

lemma open_loop_returns:
  assumes "0 \<le> attempt n" "k \<le> n"
  shows "\<exists>fd. open_loop attempt k = Some fd"
  using assms(2)
proof (induction "n - k" arbitrary: k)
  case 0
  then show ?case using assms(1) by (simp add: open_loop.simps)
next
  case (Suc m)
  then have "\<exists>fd. open_loop attempt (Suc k) = Some fd" by simp
  then show ?case by (subst open_loop.simps) simp
qed

lemma init_procs_keeps [simp]:
  "pagesList (init_procs n s) = pagesList s" "globalPagesNumber (init_procs n s) = globalPagesNumber s"
  "basePFN (init_procs n s) = basePFN s" "usedMemory (init_procs n s) = usedMemory s" "tables (init_procs n s) = tables s"
  "globalPageSize (init_procs n s) = globalPageSize s" "umem (init_procs n s) = umem s"
  by (induction n) (simp_all add: init_proc_def Let_def)

lemma init_procs_desc:
  assumes "n \<le> 2 ^ 32"
  shows "procDescList (init_procs n s) q =
    (if unat q < n then (procDescList s q)\<lparr>pd_alloc_policy := DEFAULT_ALLOC_POLICY, pd_swap_policy := DEFAULT_SWAP_POLICY,
       pd_allocated := 0, pd_swapped := 0, pd_prio := 0\<rparr> else procDescList s q)"
  using assms
proof (induction n)
  case (Suc n)
  have u: "unat (of_nat n :: u32) = n" using Suc.prems by (simp add: unsigned_of_nat take_bit_nat_eq_self)
  show ?case
  proof (cases "q = of_nat n")
    case True
    then show ?thesis using Suc u by (simp add: init_proc_def Let_def)
  next
    case False
    then have "unat q \<noteq> n" using u by (metis word_unat_eq_iff)
    then show ?thesis using False Suc by (simp add: init_proc_def Let_def less_Suc_eq)
  qed
qed simp

lemma init_procs_links:
  assumes "heap_lists (links s) L" "\<And>q. unat q < n \<Longrightarrow> unlisted (pd_usedList (procDescList s q)) L" "n \<le> 2 ^ 32"
  shows "heap_lists (links (init_procs n s)) L"
  using assms(2,3)
proof (induction n)
  case (Suc n)
  have u: "unat (of_nat n :: u32) = n" using Suc.prems by (simp add: unsigned_of_nat take_bit_nat_eq_self)
  have "unlisted (pd_usedList (procDescList (init_procs n s) (of_nat n))) L"
    using Suc.prems(1) [of "of_nat n"] Suc.prems(2) u by (simp add: init_procs_desc)
  then show ?case using Suc by (simp add: init_proc_def Let_def lists_init_node)
qed (use assms(1) in simp)

lemma init_channel_ids_keeps [simp]:
  "sw (init_channel_ids n d) = sw d" "length (usmMemWorkers (init_channel_ids n d)) = length (usmMemWorkers d)"
  by (induction n) (simp_all add: Let_def)

lemma init_mem_worker_keeps [simp]:
  "sw (init_mem_worker com d) = upd_usm (\<lambda>u. u\<lparr>umem := wr (umem u) com 4092 [1]\<rparr>) (sw d)"
  "length (usmMemWorkers (init_mem_worker com d)) = length (usmMemWorkers d)"
  by (simp_all add: init_mem_worker_def Let_def)

lemma setSched_init_keeps [simp]:
  "sw (setSched_init n d) = sw d" "length (usmMemWorkers (setSched_init n d)) = length (usmMemWorkers d)"
  by (induction n) (simp_all add: Let_def)

lemma init_workers_keeps [simp]:
  "sy_daemon (init_workers e f p s) = sy_daemon s" "workersNumber (sy_conf (init_workers e f p s)) = 0"
  "conf_init (sy_conf (init_workers e f p s)) = conf_init (sy_conf s)" "launched (init_workers e f p s) = launched s"
  by (simp_all add: init_workers_def Let_def)

definition plink_table0 :: "usm_process_link hashmap" where
  "plink_table0 = new_map 32 16 40 0 0 usm_plink_hash (Some usm_plink_compare) False zero_plink"

lemma new_plink_table0: "new_plink_table (\<lambda>_. True) = Some (Some plink_table0)"
proof -
  have "bucketsz_loop 40 = Some 40" by (subst bucketsz_loop.simps) simp
  then show ?thesis
    by (simp add: new_plink_table_def hashmap_new_def hashmap_new_with_allocator_def plink_table0_def)
qed

lemma plink_table0_ok: "hm_ok usm_plink_hash usm_plink_compare plink_table0"
  unfolding plink_table0_def by (rule hm_ok_new_map(1) [of 16 4]) simp_all

lemma plink_table0_empty: "hm_count plink_table0 = 0" "hm_lookup plink_table0 k = None"
  using hm_ok_new_map(2) [of 16 4] by (simp_all add: plink_table0_def) (simp add: new_map_def)

lemma init_nodes_usm: "\<exists>h. usm (init_nodes k s) = (usm s)\<lparr>slinks := h\<rparr>"
proof (induction k)
  case (Suc k)
  then obtain h where "usm (init_nodes k s) = (usm s)\<lparr>slinks := h\<rparr>" by blast
  then show ?case by (auto simp: Let_def)
qed (auto intro: exI [of _ "slinks (usm s)"])

section \<open>Which workers run\<close>

text \<open>What the daemon is after \<open>usm_init\<close>, for the parts the rest of the start does not touch.\<close>

lemma init_tables_inv:
  assumes "init_tables e s = Some s'"
  shows "usmWorkers s' = usmWorkers s" "workersNumber (sy_conf s') = workersNumber (sy_conf s)"
  using assms by (auto simp: init_tables_def Let_def bind_eq_Some_conv)

lemma usm_init_workers:
  assumes "usm_init e s = Some (0, s')"
  shows "workersNumber (sy_conf s') = 0 \<and> (\<exists>f p. usmWorkers s' = map (\<lambda>i. init_worker 2 f p (se_channel e i) i) [0..<2])"
proof -
  obtain com zone f p s1 where r: "init_rest e com zone f p s1 = Some s'"
    using assms by (auto simp: usm_init_def usm_get_pfn_def Let_def bind_eq_Some_conv split: if_splits option.splits)
  have i: "workersNumber (sy_conf (init_workers e f p s2)) = 0"
    "usmWorkers (init_workers e f p s2) = map (\<lambda>i. init_worker 2 f p (se_channel e i) i) [0..<2]" for s2
    by (simp_all add: init_workers_def Let_def)
  show ?thesis using init_tables_inv [OF r [unfolded init_rest_def Let_def]] i by auto
qed

lemma read_conf_keeps:
  assumes "read_conf e k file s = Some (r, s')"
  shows "conf_keeps (get_conf s) (get_conf s')" "usmWorkers s' = usmWorkers s" "launched s' = launched s"
    "usmMemWorkers (sy_daemon s') = usmMemWorkers (sy_daemon s)" "sw (sy_daemon s') = (sw (sy_daemon s))\<lparr>usm := sy_usm s'\<rparr>"
proof -
  obtain c where c: "usm_set_alloc_policy_assignment_strategy (se_conf e k) file (get_conf s) = Some (r, c)" "s' = put_conf c s"
    using assms by (auto simp: read_conf_def bind_eq_Some_conv)
  have "get_conf (put_conf c s) = c" by (simp add: get_conf_def put_conf_def)
  then show "conf_keeps (get_conf s) (get_conf s')" using keeping.reading_keeps [OF c(1)] c(2) by simp
qed (use assms in \<open>auto simp: read_conf_def put_conf_def get_conf_def bind_eq_Some_conv\<close>)

lemma usm_launch_inv:
  assumes "usm_launch e file s = Some (Some s')"
  obtains s1 d s3 where "usm_init e s = Some (0, s1)" "read_conf e 1 file (s1\<lparr>sy_daemon := d\<rparr>) = Some (0, s3)"
    "s' = setSched_start e s3" "usmMemWorkers d = usmMemWorkers (sy_daemon s1)"
proof -
  obtain r1 s1 where s1: "usm_init e s = Some (r1, s1)" using assms by (auto simp: usm_launch_def bind_eq_Some_conv)
  have r1: "r1 = 0" using assms s1 by (auto simp: usm_launch_def split: if_splits)
  obtain r2 u where u: "policiesSet1_setup (\<lambda>k. se_mok e (3 + k)) (se_nodes e) (unat (globalPagesNumber (sy_usm s1))) (sy_usm s1) = Some (r2, u)"
    using assms s1 r1 by (auto simp: usm_launch_def bind_eq_Some_conv)
  have r2: "r2 = 0" using assms s1 r1 u by (auto simp: usm_launch_def split: if_splits)
  obtain r3 w where w: "swap_policiesSet1_setup (\<lambda>k. se_mok e (6 + k)) (se_swap_file e) (se_swap_nodes e) ((sw (sy_daemon s1))\<lparr>usm := u\<rparr>) = Some (r3, w)"
    using assms s1 r1 u r2 by (auto simp: usm_launch_def bind_eq_Some_conv Let_def)
  let ?s = "s1\<lparr>sy_daemon := (sy_daemon s1)\<lparr>sw := w\<rparr>\<rparr>"
  have l: "usm_launch e file s = (if r3 \<noteq> 0 then Some None
      else Option.bind (read_conf e 1 file ?s) (\<lambda>(r, s). if r \<noteq> 0 then Some None else Some (Some (setSched_start e s))))"
    using s1 r1 u r2 w by (simp add: usm_launch_def Let_def)
  have r3: "r3 = 0" using assms l by (cases "r3 = 0") simp_all
  obtain r s3 where s3: "read_conf e 1 file ?s = Some (r, s3)"
    using assms l r3 by (cases "read_conf e 1 file ?s") auto
  then have "(if r \<noteq> 0 then Some None else Some (Some (setSched_start e s3))) = Some (Some s')" using assms l r3 by simp
  then have "read_conf e 1 file ?s = Some (0, s3)" "s' = setSched_start e s3" using s3 by (auto split: if_splits)
  then show ?thesis using that [of s1 "(sy_daemon s1)\<lparr>sw := w\<rparr>" s3] s1 r1 by simp
qed

text \<open>The memory worker keeps the page it was given.\<close>

lemma wk_com_keeps:
  assumes "usmMemWorkers d \<noteq> []"
  shows "wk_com (usmMemWorkers (init_channel_ids n d) ! 0) = wk_com (usmMemWorkers d ! 0)"
    "wk_com (usmMemWorkers (setSched_init n d) ! 0) = wk_com (usmMemWorkers d ! 0)"
  using assms by (induction n) (auto simp: Let_def upd_channel_def)

lemma usm_init_com:
  assumes "usm_init e s = Some (0, s')" "usmMemWorkers (sy_daemon s) \<noteq> []"
  shows "usmMemWorkers (sy_daemon s') \<noteq> [] \<and> se_com e = Some (wk_com (usmMemWorkers (sy_daemon s') ! 0))"
proof -
  obtain com zone f p s1 where r: "init_rest e com zone f p s1 = Some s'" "se_com e = Some com"
    "usmMemWorkers (sy_daemon s1) = usmMemWorkers (sy_daemon s)"
    using assms(1) by (auto simp: usm_init_def usm_get_pfn_def Let_def bind_eq_Some_conv split: if_splits option.splits)
  have t: "usmMemWorkers (sy_daemon s') = usmMemWorkers (init_mem_worker com (sy_daemon (upd_system (\<lambda>u. insert_pages zone (unat (globalPagesNumber u)) u) s1)))"
    using r(1) by (auto simp: init_rest_def init_tables_def Let_def bind_eq_Some_conv)
  show ?thesis using assms(2) r(2,3) unfolding t by (simp add: init_mem_worker_def Let_def wk_com_keeps flip: length_greater_0_conv)
qed

lemma usm_launch_com:
  assumes "usm_launch e file s = Some (Some s')" "usmMemWorkers (sy_daemon s) \<noteq> []"
  shows "se_com e = Some (wk_com (usmMemWorkers (sy_daemon s') ! 0))"
    "\<exists>m. umem (sy_usm s') = wr32 m (wk_com (usmMemWorkers (sy_daemon s') ! 0)) 2048 (se_pid e)"
proof -
  obtain s1 d s3 where s: "usm_init e s = Some (0, s1)" "read_conf e 1 file (s1\<lparr>sy_daemon := d\<rparr>) = Some (0, s3)" "s' = setSched_start e s3"
    "usmMemWorkers d = usmMemWorkers (sy_daemon s1)" by (rule usm_launch_inv [OF assms(1)])
  have "usmMemWorkers (sy_daemon s3) = usmMemWorkers (sy_daemon s1)" using read_conf_keeps(4) [OF s(2)] s(4) by simp
  then show "se_com e = Some (wk_com (usmMemWorkers (sy_daemon s') ! 0))"
    "\<exists>m. umem (sy_usm s') = wr32 m (wk_com (usmMemWorkers (sy_daemon s') ! 0)) 2048 (se_pid e)"
    using usm_init_com [OF s(1) assms(2)] s(3) by (auto simp: setSched_start_def Let_def wk_com_keeps)
qed

text \<open>C30: of the two workers that receive announcements of the kernel only the first is started,
  the one for new processes, whatever the configuration says.  The loop that starts them
  stops after \<open>workersNumber + 1\<close> of them, and the initialisation leaves that number at 0; the
  worker that receives freed pages never runs, so the pages that processes give back are
  never returned to the pool.\<close>

theorem freed_pages_never_received:
  assumes "usm_launch e file s = Some (Some s')"
  shows "map (\<lambda>w. cnl_ops (pw_channel w)) (usmWorkers s') = [usm_cnl_new_process_ops, usm_cnl_freed_ops] \<and>
    map (\<lambda>w. cnl_ops (pw_channel w)) (launched s') = [usm_cnl_new_process_ops]"
proof -
  obtain s1 d s3 where s1: "usm_init e s = Some (0, s1)" and s3: "read_conf e 1 file (s1\<lparr>sy_daemon := d\<rparr>) = Some (0, s3)"
    and s': "s' = setSched_start e s3" using usm_launch_inv [OF assms] by metis
  obtain f p where w: "workersNumber (sy_conf s1) = 0" "usmWorkers s1 = map (\<lambda>i. init_worker 2 f p (se_channel e i) i) [0..<2]"
    using usm_init_workers [OF s1] by blast
  have "workersNumber (sy_conf s3) = 0"
    using conf_keepsD(2) [OF read_conf_keeps(1) [OF s3]] w(1) by simp
  then have "launched s' = launch_workers 0 0 (usmWorkers s1)" "usmWorkers s' = usmWorkers s1"
    using read_conf_keeps(2) [OF s3] s' by (simp_all add: setSched_start_def Let_def)
  moreover have "[0..<2] = [0, 1 :: nat]" by (simp add: upt_rec)
  ultimately show ?thesis using w(2) by (simp add: init_worker_def appendUSMChannelLegacy_def Let_def)
qed

section \<open>A start that succeeds\<close>

text \<open>System calls and allocations that succeed: the files can be opened in the end, the pool is
  mapped at \<open>zone\<close> from the frame \<open>base\<close> on, memory is never short and the nodes of the pages
  are new.  Initially the page lists are empty, and the list heads in the process
  descriptors are others.\<close>

definition start_works :: "start_env \<Rightarrow> u64 \<Rightarrow> system \<Rightarrow> bool" where
  "start_works e base s \<longleftrightarrow> se_userfaultfd e \<noteq> - 1 \<and> se_api e \<and> se_com e \<noteq> None \<and> (\<forall>k < 3. \<exists>n. 0 \<le> se_open e k n) \<and> se_zone e \<noteq> None \<and>
     (\<forall>req. 0 \<le> io_ret (se_io e req) \<and> io_uaddr (se_io e req) = base) \<and> base \<noteq> 1 \<and> (\<forall>k i. se_mok e k i) \<and> se_swap_file e \<and>
     17 < unat (se_swap_nodes e) \<and> unat (se_swap_nodes e) + 32 * 2 ^ 20 < 2 ^ 64 \<and>
     fresh_nodes (se_nodes e) (unat (ucast (poolSize (sy_usm s) div SYS_PAGE_SIZE) :: u32)) \<and>
     heap_lists (links (sy_usm s)) [freeList \<mapsto> [], usedList \<mapsto> []] \<and>
     (\<forall>q < MAX_PROC. pd_usedList (procDescList (sy_usm s) q) \<notin> {freeList, usedList})"

text \<open>What the initialisation establishes.\<close>

definition initialised :: "start_env \<Rightarrow> u64 \<Rightarrow> system \<Rightarrow> system \<Rightarrow> bool" where
  "initialised e base s s' \<longleftrightarrow>
     (let u = sy_usm s; u' = sy_usm s' in
       heap_lists (links u') [freeList \<mapsto> [], usedList \<mapsto> []] \<and> globalPagesNumber u' = ucast (poolSize u div SYS_PAGE_SIZE) \<and>
       basePFN u' = base \<and> (\<forall>i < unat (globalPagesNumber u'). pg_physicalAddress (pagesList u' (of_nat i)) = base + of_nat i) \<and>
       tables u' = (tables u)\<lparr>alloc_policies := policy_table0, swap_policies := policy_table0, process_linking := plink_table0\<rparr> \<and>
       (\<forall>q < MAX_PROC. pd_alloc_policy (procDescList u' q) = DEFAULT_ALLOC_POLICY) \<and> usedMemory u' = usedMemory u \<and>
       length (usmMemWorkers (sy_daemon s')) = length (usmMemWorkers (sy_daemon s)) \<and> conf_init (sy_conf s'))"

lemma init_rest_ok:
  assumes "heap_lists (links (sy_usm s)) [freeList \<mapsto> [], usedList \<mapsto> []]"
    and "\<And>q. q < MAX_PROC \<Longrightarrow> pd_usedList (procDescList (sy_usm s) q) \<notin> {freeList, usedList}" and mok: "\<forall>k i. se_mok e k i"
    and "globalPagesNumber (sy_usm s) = ucast (poolSize (sy_usm s) div SYS_PAGE_SIZE)"
  obtains s' where "init_rest e com zone f p s = Some s'" "initialised e (basePFN (sy_usm s)) s s'"
proof -
  let ?n = "unat (globalPagesNumber (sy_usm s))" and ?u = "sy_usm s"
  define u1 where "u1 = (insert_pages zone ?n ?u)\<lparr>umem := wr (umem ?u) com 4092 [1]\<rparr>"
  define u2 where "u2 = init_procs (unat MAX_PROC) u1"
  have m: "se_mok e k = (\<lambda>_. True)" for k using mok by (simp add: fun_eq_iff)
  have mp: "unat MAX_PROC = 1000" by (simp add: MAX_PROC_def)
  have lt: "q < MAX_PROC" if "unat q < 1000" for q using that mp by (simp add: word_less_nat_alt)
  have l: "heap_lists (links u2) [freeList \<mapsto> [], usedList \<mapsto> []]"
    unfolding u2_def mp
  proof (rule init_procs_links)
    fix q :: u32 assume "unat q < 1000"
    then show "unlisted (pd_usedList (procDescList u1 q)) [freeList \<mapsto> [], usedList \<mapsto> []]"
      using assms(2) [OF lt] by (simp add: u1_def unlisted_def)
  qed (use assms(1) in \<open>simp_all add: u1_def\<close>)
  have "unat (globalPagesNumber ?u) < 2 ^ 32" using unsigned_less [of "globalPagesNumber ?u"] by simp
  then have n: "?n \<le> 2 ^ 64" by simp
  have pg: "pg_physicalAddress (pagesList u2 (of_nat i)) = basePFN ?u + of_nat i" if "i < ?n" for i
    using insert_pages_nth [OF that n, of zone ?u] by (simp add: u2_def u1_def)
  have pd: "pd_alloc_policy (procDescList u2 q) = DEFAULT_ALLOC_POLICY" if "q < MAX_PROC" for q
    using that mp by (simp add: u2_def init_procs_desc word_less_nat_alt)
  obtain s2 where r: "init_rest e com zone f p s = init_tables e s2" and s2: "sy_usm s2 = u2"
    "length (usmMemWorkers (sy_daemon s2)) = length (usmMemWorkers (sy_daemon s))"
    by (simp add: init_rest_def Let_def u2_def u1_def)
  have "init_tables e s2 = Some ((upd_system (\<lambda>u. u\<lparr>tables := (tables u)\<lparr>alloc_policies := policy_table0,
      swap_policies := policy_table0, process_linking := plink_table0\<rparr>\<rparr>) s2)\<lparr>sy_conf := (sy_conf s2)\<lparr>conf_init := True\<rparr>\<rparr>)"
    by (simp add: init_tables_def m new_policy_table0 new_plink_table0)
  then show ?thesis
    using that r s2 l pg pd assms(4) by (simp add: initialised_def Let_def) (simp add: u2_def u1_def)
qed

lemma usm_init_ok:
  assumes w: "start_works e base s"
  obtains s' where "usm_init e s = Some (0, s')" "initialised e base s s'"
proof -
  obtain com zone where c: "se_com e = Some com" "se_zone e = Some zone" using w by (auto simp: start_works_def)
  have "\<exists>fd. open_loop (se_open e k) 0 = Some fd" if "k < 3" for k
    using w that open_loop_returns [of "se_open e k" _ 0] by (auto simp: start_works_def)
  from this [of 0] this [of 1] this [of 2] obtain f0 f1 f2
    where f: "open_loop (se_open e 0) 0 = Some f0" "open_loop (se_open e 1) 0 = Some f1" "open_loop (se_open e 2) 0 = Some f2"
    by auto
  define u0 where "u0 = (sy_usm s)\<lparr>globalPagesNumber := ucast (poolSize (sy_usm s) div SYS_PAGE_SIZE),
    frames := zero_frames zone (poolSize (sy_usm s)) (frames (sy_usm s))\<rparr>"
  obtain lg where g: "usm_get_pfn (se_io e) (of_int (se_userfaultfd e)) zone
      (ucast (ucast (poolSize (sy_usm s) div SYS_PAGE_SIZE) :: u32)) u0 = (base, u0\<lparr>pa_log := lg\<rparr>)"
    using w by (simp add: usm_get_pfn_def start_works_def Let_def not_less [symmetric])
  define u where "u = u0\<lparr>pa_log := lg, basePFN := base\<rparr>"
  have "se_userfaultfd e \<noteq> - 1" "se_api e" "base \<noteq> 1" using w by (simp_all add: start_works_def)
  then have i: "usm_init e s = Option.bind (init_rest e com zone (of_int f1) (of_int f2) (upd_system (\<lambda>_. u) s)) (\<lambda>s. Some (0, s))"
    using c f g unfolding usm_init_def by (simp add: u_def flip: u0_def)
  have "heap_lists (links u) [freeList \<mapsto> [], usedList \<mapsto> []]" "\<And>q. q < MAX_PROC \<Longrightarrow> pd_usedList (procDescList u q) \<notin> {freeList, usedList}"
    using w by (simp_all add: start_works_def u_def u0_def)
  then obtain s' where s': "init_rest e com zone (of_int f1) (of_int f2) (upd_system (\<lambda>_. u) s) = Some s'"
    "initialised e (basePFN u) (upd_system (\<lambda>_. u) s) s'"
    using init_rest_ok [of "upd_system (\<lambda>_. u) s" e com zone "of_int f1" "of_int f2"] w
    by (auto simp: start_works_def u_def u0_def)
  then have "initialised e base s s'" by (simp add: initialised_def Let_def u_def u0_def)
  then show ?thesis using that i s'(1) by simp
qed

section \<open>The daemon after its start\<close>

lemma init_device_usm:
  assumes "init_swap_device_nodes nodes sz s = (0, s')"
  obtains h where "usm s' = (usm s)\<lparr>slinks := h\<rparr>"
proof -
  define x where "x = (upd_slinks (\<lambda>h. INIT_LIST_HEAD dev_free_list (INIT_LIST_HEAD dev_swap_list h)) s)\<lparr>swap_nodes := nodes\<rparr>"
  have "s' = init_nodes (unat (sz div SYS_PAGE_SIZE)) x"
    using assms by (simp add: init_swap_device_nodes_def Let_def x_def split: if_splits)
  moreover obtain h where "usm (init_nodes (unat (sz div SYS_PAGE_SIZE)) x) = (usm x)\<lparr>slinks := h\<rparr>" using init_nodes_usm by blast
  ultimately show ?thesis using that by (simp add: x_def)
qed

lemma swap_setup_ok:
  assumes t: "tables_ok (tables (usm s))" "hm_count (alloc_policies (tables (usm s))) < 65000" and mok: "\<forall>k i. mok k i"
    and b: "17 < unat nodes" "unat nodes + 32 * 2 ^ 20 < 2 ^ 64"
  obtains s' t' h where "swap_policiesSet1_setup mok True nodes s = Some (0, s')" "usm s' = (usm s)\<lparr>tables := t', slinks := h\<rparr>"
    "tables_ok t'" "default_alloc_policy t' = default_alloc_policy (tables (usm s))" "default_swap_policy t' = usm_basic_swap_policy"
    "process_linking t' = process_linking (tables (usm s))"
    "policy_named (alloc_policies t') = (policy_named (alloc_policies (tables (usm s))))
      (''policyOne'' \<mapsto> swap_policy_one, ''basic_policy'' \<mapsto> usm_basic_swap_policy)"
proof -
  obtain t1 where t1: "usm_register_swap_policy (mok 0) (tables (usm s)) swap_policy_one ''policyOne'' False = Some (0, t1)"
    "tables_ok t1" "default_alloc_policy t1 = default_alloc_policy (tables (usm s))" "process_linking t1 = process_linking (tables (usm s))"
    "policy_named (alloc_policies t1) = (policy_named (alloc_policies (tables (usm s))))(''policyOne'' \<mapsto> swap_policy_one)"
    "hm_count (alloc_policies t1) \<le> Suc (hm_count (alloc_policies (tables (usm s))))"
    using register_ok(2) [OF t(1), of "mok 0" swap_policy_one "''policyOne''" False] t(2) mok by auto
  obtain t2 where t2: "usm_register_swap_policy (mok 1) t1 usm_basic_swap_policy ''basic_policy'' True = Some (0, t2)"
    "tables_ok t2" "default_alloc_policy t2 = default_alloc_policy t1" "default_swap_policy t2 = usm_basic_swap_policy"
    "process_linking t2 = process_linking t1"
    "policy_named (alloc_policies t2) = (policy_named (alloc_policies t1))(''basic_policy'' \<mapsto> usm_basic_swap_policy)"
    using register_ok(2) [OF t1(2), of "mok 1" usm_basic_swap_policy "''basic_policy''" True] t(2) t1 mok by auto
  let ?s = "upd_usm (\<lambda>u. u\<lparr>tables := t2\<rparr>) s"
  have sz: "(4 * 1024 * 1024 * 1024 :: u64) = of_nat (2 ^ 20) * SYS_PAGE_SIZE" by (simp add: SYS_PAGE_SIZE_def)
  obtain s' where s': "init_swap_device_nodes nodes (4 * 1024 * 1024 * 1024) ?s = (0, s')"
    using init_swap_device_nodes_correct [OF b, of ?s] unfolding sz by auto
  obtain h where "usm s' = (usm s)\<lparr>tables := t2, slinks := h\<rparr>" using init_device_usm [OF s'] by auto
  moreover have "swap_policiesSet1_setup mok True nodes s = Some (0, s')"
    using t1(1) t2(1) s' by (simp add: swap_policiesSet1_setup_def register_swap_def)
  ultimately show ?thesis using that t1 t2 by simp
qed

text \<open>The daemon when the configuration is read the second time.  The swap policy \<open>policyOne\<close> has
  taken the place of the allocation policy of that name.\<close>

definition ready :: "start_env \<Rightarrow> u64 \<Rightarrow> system \<Rightarrow> system \<Rightarrow> bool" where
  "ready e base s s' \<longleftrightarrow>
     (let u = sy_usm s' in
       pool u (map (se_nodes e) [0..<unat (ucast (poolSize (sy_usm s) div SYS_PAGE_SIZE) :: u32)]) [] \<and> basePFN u = base \<and>
       usedMemory u = usedMemory (sy_usm s) \<and> tables_ok (tables u) \<and> default_alloc_policy (tables u) = alloc_policy_one \<and>
       process_linking (tables u) = plink_table0 \<and> policy_named (alloc_policies (tables u)) ''policyOne'' = Some swap_policy_one \<and>
       (\<forall>q < MAX_PROC. pd_alloc_policy (procDescList u q) = DEFAULT_ALLOC_POLICY) \<and>
       length (usmMemWorkers (sy_daemon s')) = length (usmMemWorkers (sy_daemon s)) \<and> conf_init (sy_conf s'))"

lemma launch_reads:
  assumes w: "start_works e base s"
  obtains s2 where "ready e base s s2" "\<And>file. usm_launch e file s =
    Option.bind (read_conf e 1 file s2) (\<lambda>(r, s). if r \<noteq> 0 then Some None else Some (Some (setSched_start e s)))"
proof -
  let ?n = "ucast (poolSize (sy_usm s) div SYS_PAGE_SIZE) :: u32"
  have mok: "\<forall>k i. se_mok e k i" and sf: "se_swap_file e" and b: "17 < unat (se_swap_nodes e)" "unat (se_swap_nodes e) + 32 * 2 ^ 20 < 2 ^ 64"
    and fr: "fresh_nodes (se_nodes e) (unat ?n)" using w by (simp_all add: start_works_def)
  obtain s1 where s1: "usm_init e s = Some (0, s1)" "initialised e base s s1" by (rule usm_init_ok [OF w])
  note I = s1(2) [unfolded initialised_def Let_def]
  have ok: "tables_ok (tables (sy_usm s1))" using I policy_table0_ok plink_table0_ok by (simp add: tables_ok_def)
  have named: "policy_named policy_table0 = Map.empty" by (simp add: fun_eq_iff)
  obtain t where t: "policiesSet1_setup (\<lambda>k. se_mok e (3 + k)) (se_nodes e) (unat ?n) (sy_usm s1) =
      Some (0, (setup_nodes (se_nodes e) (unat ?n) (sy_usm s1))\<lparr>tables := t\<rparr>)"
    "pool ((setup_nodes (se_nodes e) (unat ?n) (sy_usm s1))\<lparr>tables := t\<rparr>) (map (se_nodes e) [0..<unat ?n]) []" "tables_ok t"
    "default_alloc_policy t = alloc_policy_one" "process_linking t = plink_table0" "hm_count (alloc_policies t) \<le> 3"
    by (rule policiesSet1_setup_ok [of "sy_usm s1" "unat ?n" "se_nodes e" "\<lambda>k. se_mok e (3 + k)"])
      (use I ok mok fr in \<open>simp_all\<close>)
  let ?u = "(setup_nodes (se_nodes e) (unat ?n) (sy_usm s1))\<lparr>tables := t\<rparr>" and ?w = "sw (sy_daemon s1)"
  obtain s' t' h where s': "swap_policiesSet1_setup (\<lambda>k. se_mok e (6 + k)) True (se_swap_nodes e) (?w\<lparr>usm := ?u\<rparr>) = Some (0, s')"
    "usm s' = ?u\<lparr>tables := t', slinks := h\<rparr>" "tables_ok t'" "default_alloc_policy t' = alloc_policy_one" "process_linking t' = plink_table0"
    "policy_named (alloc_policies t') ''policyOne'' = Some swap_policy_one"
    by (rule swap_setup_ok [of "?w\<lparr>usm := ?u\<rparr>" "\<lambda>k. se_mok e (6 + k)" "se_swap_nodes e"]) (use t mok b in \<open>simp_all\<close>)
  let ?s2 = "s1\<lparr>sy_daemon := (sy_daemon s1)\<lparr>sw := s'\<rparr>\<rparr>"
  have "pool (usm s') (map (se_nodes e) [0..<unat ?n]) []"
    using t(2) s'(2) by (simp add: pool_def nodes_ok_def page_of_def)
  then have "ready e base s ?s2" using I s' by (simp add: ready_def Let_def)
  moreover have "usm_launch e cfg s =
    Option.bind (read_conf e 1 cfg ?s2) (\<lambda>(r, s). if r \<noteq> 0 then Some None else Some (Some (setSched_start e s)))" for cfg
    using s1(1) t(1) s'(1) sf I by (simp add: usm_launch_def Let_def)
  ultimately show ?thesis using that by blast
qed

section \<open>The shipped configuration\<close>

definition shipped_config :: string where
  "shipped_config =
     ''memory 512'' @ CHR 0x0A # ''workers 2'' @ CHR 0x0A # ''page 4096'' @ CHR 0x0A # CHR 0x0A # CHR 0x0A #
     ''#threshold 20 policyOne'' @ CHR 0x0A # ''#threshold 80 basicPolicy'' @ CHR 0x0A # CHR 0x0A # [CHR 0x0A]"

lemma shipped_lines:
  "conf_line e (''memory 512'' @ [CHR 0x0A]) c = Some (Next, upd_conf (\<lambda>u. u\<lparr>poolSize := 512 * (1024 * 1024)\<rparr>) c)"
  "conf_line e (''workers 2'' @ [CHR 0x0A]) c = Some (Next, c\<lparr>workersNumber := 0\<rparr>)"
  "conf_line e (''page 4096'' @ [CHR 0x0A]) c =
     Some (if conf_init c then Next else Leave, upd_conf (\<lambda>u. u\<lparr>globalPageSize := 4096\<rparr>) c)"
  "conf_line e [CHR 0x0A] c = Some (Next, c)"
  "conf_line e (CHR ''#'' # l) c = Some (Next, c)"
  by (simp_all add: conf_line_def conf_memory_def conf_workers_def conf_page_def scan_word_def arg_word_def atoi_def c_space_def
      value_from_def is_digit_def digit_val_def Let_def)

lemma conf_loop_line:
  assumes "CHR 0x0A \<notin> set l" "length l < 999" "conf_line e (l @ [CHR 0x0A]) c = Some (k, c')"
  shows "conf_loop e (l @ CHR 0x0A # rest) c = (case k of Next \<Rightarrow> conf_loop e rest c' | Stop \<Rightarrow> Some (False, False, c') | Leave \<Rightarrow> Some (True, False, c'))"
  by (subst conf_loop.simps) (simp add: fgets_line(1) [OF assms(1,2)] assms(3))

lemma shipped_loop:
  "conf_loop e (''memory 512'' @ CHR 0x0A # r) c = conf_loop e r (upd_conf (\<lambda>u. u\<lparr>poolSize := 512 * (1024 * 1024)\<rparr>) c)"
  "conf_loop e (''workers 2'' @ CHR 0x0A # r) c = conf_loop e r (c\<lparr>workersNumber := 0\<rparr>)"
  "conf_loop e (''page 4096'' @ CHR 0x0A # r) c = (let c' = upd_conf (\<lambda>u. u\<lparr>globalPageSize := 4096\<rparr>) c in
     if conf_init c then conf_loop e r c' else Some (True, False, c'))"
  "conf_loop e (CHR 0x0A # r) c = conf_loop e r c"
  "conf_loop e (''#threshold 20 policyOne'' @ CHR 0x0A # r) c = conf_loop e r c"
  "conf_loop e (''#threshold 80 basicPolicy'' @ CHR 0x0A # r) c = conf_loop e r c"
  using conf_loop_line [OF _ _ shipped_lines(1)] conf_loop_line [OF _ _ shipped_lines(2)] conf_loop_line [OF _ _ shipped_lines(3)]
    conf_loop_line [of "[]" e c Next c r] conf_loop_line [of "''#threshold 20 policyOne''" e c Next c r]
    conf_loop_line [of "''#threshold 80 basicPolicy''" e c Next c r]
  by (simp_all add: shipped_lines(4,5) Let_def)

lemma pool_same:
  assumes "pool u fs us" "links u' = links u" "pagesList u' = pagesList u" "node_page u' = node_page u"
    "basePFN u' = basePFN u" "globalPagesNumber u' = globalPagesNumber u"
  shows "pool u' fs us"
  using assms by (simp add: pool_def nodes_ok_def page_of_def)

lemma shipped_reading:
  "usm_set_alloc_policy_assignment_strategy e (Some shipped_config) c =
     Some (0, upd_conf (\<lambda>u. u\<lparr>poolSize := 512 * (1024 * 1024), globalPageSize := 4096\<rparr>) (c\<lparr>workersNumber := 0\<rparr>))"
proof -
  have "conf_loop e shipped_config c = Some (\<not> conf_init c, conf_init c,
      upd_conf (\<lambda>u. u\<lparr>poolSize := 512 * (1024 * 1024), globalPageSize := 4096\<rparr>) (c\<lparr>workersNumber := 0\<rparr>))"
    unfolding shipped_config_def shipped_loop by (simp add: Let_def conf_loop.simps [of e "[]"] fgets_def)
  then show ?thesis by (simp add: usm_set_alloc_policy_assignment_strategy_def)
qed

lemma shipped_start:
  assumes "files cfg = Some shipped_config" "start_works e base (upd_system (\<lambda>u. u\<lparr>poolSize := 512 * (1024 * 1024)\<rparr>) s)"
  obtains s' where "daemon_main e files [prog, cfg] s = Some (Some s')" "pool (sy_usm s') (map (se_nodes e) [0..<131072]) []"
    "basePFN (sy_usm s') = base" "usedMemory (sy_usm s') = usedMemory (sy_usm s)" "\<forall>q < MAX_PROC. alloc_ops_of q (sy_usm s') = alloc_policy_one"
    "length (usmMemWorkers (sy_daemon s')) = length (usmMemWorkers (sy_daemon s))"
proof -
  define c where "c = upd_conf (\<lambda>u. u\<lparr>poolSize := 512 * (1024 * 1024), globalPageSize := 4096\<rparr>) ((get_conf s)\<lparr>workersNumber := 0\<rparr>)"
  let ?s = "put_conf c s"
  have u: "sy_usm ?s = (sy_usm s)\<lparr>poolSize := 512 * (1024 * 1024), globalPageSize := 4096\<rparr>" by (simp add: put_conf_def c_def)
  have "start_works e base ?s" using assms(2) unfolding start_works_def u by auto
  then obtain s2 where s2: "ready e base ?s s2" and l: "\<And>cfg. usm_launch e cfg ?s =
      Option.bind (read_conf e 1 cfg s2) (\<lambda>(r, s). if r \<noteq> 0 then Some None else Some (Some (setSched_start e s)))"
    using launch_reads by metis
  obtain s3 where r: "read_conf e 1 (Some shipped_config) s2 = Some (0, s3)" by (simp add: read_conf_def shipped_reading)
  note K = conf_keepsD [OF read_conf_keeps(1) [OF r], unfolded get_conf_sel]
  have m: "daemon_main e files [prog, cfg] s = Some (Some (setSched_start e s3))"
    using assms(1) l r by (simp add: daemon_main_def usm_parse_args_def shipped_reading c_def)
  have n: "unat (ucast (512 * (1024 * 1024) div SYS_PAGE_SIZE :: u64) :: u32) = 131072" by (simp add: SYS_PAGE_SIZE_def)
  have p: "pool (sy_usm s2) (map (se_nodes e) [0..<131072]) []" using s2 n unfolding ready_def Let_def u by simp
  let ?s' = "setSched_start e s3"
  have s': "sy_usm ?s' = (sy_usm s3)\<lparr>umem := umem (sy_usm ?s')\<rparr>" by (simp add: setSched_start_def Let_def)
  have f: "links (sy_usm ?s') = links (sy_usm s3)" "pagesList (sy_usm ?s') = pagesList (sy_usm s3)" "node_page (sy_usm ?s') = node_page (sy_usm s3)"
    "basePFN (sy_usm ?s') = basePFN (sy_usm s3)" "globalPagesNumber (sy_usm ?s') = globalPagesNumber (sy_usm s3)"
    "procDescList (sy_usm ?s') = procDescList (sy_usm s3)" "tables (sy_usm ?s') = tables (sy_usm s3)"
    "usedMemory (sy_usm ?s') = usedMemory (sy_usm s3)" by (simp_all add: setSched_start_def Let_def)
  have "pool (sy_usm ?s') (map (se_nodes e) [0..<131072]) []"
    by (rule pool_same [OF p]) (simp_all only: f K)
  moreover have "basePFN (sy_usm ?s') = base" "usedMemory (sy_usm ?s') = usedMemory (sy_usm s)" "default_alloc_policy (tables (sy_usm ?s')) = alloc_policy_one"
    "\<And>q. q < MAX_PROC \<Longrightarrow> pd_alloc_policy (procDescList (sy_usm ?s') q) = DEFAULT_ALLOC_POLICY"
    using s2 f K unfolding ready_def Let_def u by simp_all
  moreover have "length (usmMemWorkers (sy_daemon ?s')) = length (usmMemWorkers (sy_daemon s))"
    using s2 read_conf_keeps(4) [OF r] by (simp add: ready_def Let_def setSched_start_def put_conf_def)
  ultimately show ?thesis using m by (intro that [of ?s']) (simp_all add: alloc_ops_of_def)
qed

text \<open>C10: started with the configuration that comes with it, with system calls and allocations
  that succeed, the daemon ends its initialisation: all 131072 pages of the pool are free, in
  the order of their frames, no memory counts as used, and every process has the policy
  with one page.\<close>

theorem daemon_starts:
  assumes "files cfg = Some shipped_config" "start_works e base (upd_system (\<lambda>u. u\<lparr>poolSize := 512 * (1024 * 1024)\<rparr>) s)"
    "usedMemory (sy_usm s) = 0"
  shows "\<exists>s'. daemon_main e files [prog, cfg] s = Some (Some s') \<and> pool (sy_usm s') (map (se_nodes e) [0..<131072]) [] \<and>
    basePFN (sy_usm s') = base \<and> usedMemory (sy_usm s') = 0 \<and> (\<forall>q < MAX_PROC. alloc_ops_of q (sy_usm s') = alloc_policy_one)"
  using assms(1,2) by (rule shipped_start [where prog = prog]) (use assms(3) in auto)

section \<open>A configured policy\<close>

lemma alloc_line_reading:
  assumes "conf_name name" "conf_name pol" "conf_line e (process_line ''alloc'' name pol) c = Some (Next, c')"
  obtains g where "usm_set_alloc_policy_assignment_strategy e (Some (process_line ''alloc'' name pol)) c =
    Some (0, upd_conf (\<lambda>u. u\<lparr>globalPageSize := g\<rparr>) c')"
proof -
  have "fgets (process_line ''alloc'' name pol @ []) = Some (process_line ''alloc'' name pol, [], False)"
    using assms by (intro fgets_process_line) simp_all
  then have "conf_loop e (process_line ''alloc'' name pol) c = Some (False, True, c')"
    by (subst conf_loop.simps) (simp add: assms(3) conf_loop.simps [of e "[]"] fgets_def)
  then show ?thesis
    using that [of "if globalPageSize (conf_usm c') = 0 then ucast SYS_PAGE_SIZE else globalPageSize (conf_usm c')"]
    by (simp add: usm_set_alloc_policy_assignment_strategy_def split: if_splits)
qed


section \<open>A start\<close>

definition start_env0 :: start_env where
  "start_env0 = \<lparr>se_userfaultfd = 3, se_api = True, se_com = Some 4096, se_open = (\<lambda>k n. if n = 0 then - 1 else 4 + int k),
     se_zone = Some 65536, se_io = (\<lambda>_. \<lparr>io_ret = 0, io_errno = 0, io_uaddr = 1048576\<rparr>), se_mok = (\<lambda>_ _. True), se_nodes = nodes0,
     se_swap_file = True, se_swap_nodes = 4096, se_channel = (\<lambda>_. channel0), se_conf = (\<lambda>_. conf_env0), se_pid = 77\<rparr>"

definition system0 :: system where
  "system0 = \<lparr>sy_daemon = daemon_of state0, sy_conf = config0, usmWorkers = [], launched = []\<rparr>"

lemma nodes0_fresh:
  assumes "n \<le> 2 ^ 32"
  shows "fresh_nodes nodes0 n"
proof -
  have u: "unat (nodes0 i) = 64 + 64 * i" if "i < 2 ^ 32" for i
    using that by (simp add: nodes0_def unat_word_ariths unsigned_of_nat take_bit_nat_eq_self)
  have "inj_on nodes0 {0..<n}" by (rule inj_onI) (use u assms in \<open>metis add_left_cancel atLeastLessThan_iff mult_cancel1 order_less_le_trans zero_neq_numeral\<close>)
  moreover have "nodes0 i \<notin> {0, freeList, usedList}" if "i < n" for i
    using u [of i] that assms by (auto simp: freeList_def usedList_def)
  ultimately show ?thesis unfolding fresh_nodes_def by (fastforce simp: distinct_map)
qed

lemma start0_works:
  "start_works start_env0 1048576 system0" "start_works start_env0 1048576 (upd_system (\<lambda>u. u\<lparr>poolSize := 512 * (1024 * 1024)\<rparr>) system0)"
proof -
  have l: "heap_lists (links state0) [freeList \<mapsto> [], usedList \<mapsto> []]"
    using links0_empty by (auto simp: heap_lists_def state0_def freeList_def usedList_def)
  have "unat (x :: u32) < 2 ^ 32" for x using unsigned_less [of x] by simp
  then have "fresh_nodes nodes0 (unat (x :: u32))" for x by (simp add: nodes0_fresh less_imp_le)
  moreover have "\<exists>n. 0 \<le> se_open start_env0 k n" for k by (rule exI [of _ 1]) (simp add: start_env0_def)
  moreover have "4 \<notin> {freeList, usedList}" by (simp add: freeList_def usedList_def)
  ultimately show "start_works start_env0 1048576 system0"
    "start_works start_env0 1048576 (upd_system (\<lambda>u. u\<lparr>poolSize := 512 * (1024 * 1024)\<rparr>) system0)"
    using l unfolding start_works_def by (simp_all add: system0_def daemon_of_def swap_of_def) (simp_all add: start_env0_def state0_def)
qed

theorem daemon_starts_witness:
  "\<exists>s'. daemon_main start_env0 (\<lambda>_. Some shipped_config) [''usm'', ''cfg''] system0 = Some (Some s') \<and>
    usedMemory (sy_usm s') = 0"
  using daemon_starts [of "\<lambda>_. Some shipped_config" "''cfg''" start_env0 1048576 system0 "''usm''"] start0_works(2)
  by (auto simp: system0_def daemon_of_def swap_of_def state0_def)


theorem freed_pages_never_received_witness:
  "\<exists>s'. usm_launch start_env0 (Some shipped_config) system0 = Some (Some s') \<and>
    map (\<lambda>w. cnl_ops (pw_channel w)) (launched s') = [usm_cnl_new_process_ops]"
proof -
  obtain s2 where "\<And>cfg. usm_launch start_env0 cfg system0 =
      Option.bind (read_conf start_env0 1 cfg s2) (\<lambda>(r, s). if r \<noteq> 0 then Some None else Some (Some (setSched_start start_env0 s)))"
    using launch_reads [OF start0_works(1)] by metis
  then have "\<exists>s'. usm_launch start_env0 (Some shipped_config) system0 = Some (Some s')"
    by (simp add: read_conf_def shipped_reading)
  then show ?thesis using freed_pages_never_received by blast
qed

end
