(* ===== verification/Spec2Isabelle.thy ===== *)
theory Spec2Isabelle
  imports Hash_Functions Policy_Tables Linked_List List_Sort Batch_Alloc Coroutines
    Hash_List Chart Kernel_Module Startup
begin

text \<open>
  HEADER
\<close>

section \<open>From the start to the first page\<close>

text \<open>What a faulting task leaves in its shared page, at the offsets the daemon reads: the flags
  of the fault, the address, and that there is work.\<close>

definition task_faults :: "u64 \<Rightarrow> u64 \<Rightarrow> daemon \<Rightarrow> daemon" where
  "task_faults m vaddr d = set_umem (wr32 (wr64 (wr64 (umem (usm (sw d))) m 24 0) m 8 vaddr) m 4 1) d"

lemma task_faults_fault:
  assumes "cnl_ops (channel d w i) = usm_cnl_mem_ops" "ev_usmmem (cnl_event (channel d w i)) = m" "m \<noteq> 0"
    "ev_type (cnl_event (channel d w i)) = ALLOC" "rd32 (umem (usm (sw d))) m 32 \<noteq> 10"
  shows "fault_on (task_faults m vaddr d) w i m vaddr"
  using assms by (simp add: fault_on_def task_faults_def mem_simps Let_def)

text \<open>C9: the daemon works from its start on.  Started with the shipped configuration, it accepts
  the announcement of a thread and, when that thread faults, answers on the thread's own
  channel with the first page of the pool: the page is in use for the thread's process at
  the faulting address, and the frame submitted to the task is that of the page.  \<open>mem\<close> is
  the shared memory at the announcement, with what the process wrote into it.\<close>

theorem started_daemon_serves:
  assumes files: "files cfg = Some shipped_config" and w: "start_works e base (upd_system (\<lambda>u. u\<lparr>poolSize := 512 * (1024 * 1024)\<rparr>) s)"
    and s: "daemon_main e files [prog, cfg] s = Some (Some s')" "usmMemWorkers (sy_daemon s) \<noteq> []"
    and ev: "ev_type ev = NEW_THREAD" "ev_origin ev < MAX_PROC" and m: "en_mmap te = Some m" "m \<noteq> 0"
    "rd32 mem m 4000 = 0" "unat (rd32 mem m 4092) = i" "i < MAX_UTHREADS"
    and takes: "\<And>mem ev. ev_usmmem ev = m \<Longrightarrow> \<exists>mem' ev'. usmSubmitAllocEvent (en_subm fe 0) mem ev = Some (0, mem', ev')"
  shows "\<exists>d d'. usm_handle_events te ev (set_umem mem (sy_daemon s')) = Some (0, ev\<lparr>ev_usmmem := m\<rparr>, d) \<and>
    usm_handle_mem fe 0 i (task_faults m vaddr d) = Some (0, d') \<and>
    pool (usm (sw d')) (map (se_nodes e) [1..<131072]) [se_nodes e 0] \<and>
    pagesList (usm (sw d')) (node_page (sy_usm s') (se_nodes e 0)) =
      (page_of (se_nodes e 0) (sy_usm s'))\<lparr>pg_virtualAddress := vaddr, pg_process := ev_origin ev\<rparr> \<and>
    ev_paddr (cnl_event (channel d' 0 i)) = pg_physicalAddress (page_of (se_nodes e 0) (sy_usm s'))"
proof -
  obtain s1 where s1: "daemon_main e files [prog, cfg] s = Some (Some s1)" and "pool (sy_usm s1) (map (se_nodes e) [0..<131072]) []"
    "basePFN (sy_usm s1) = base" "usedMemory (sy_usm s1) = usedMemory (sy_usm s)"
    "\<forall>q < MAX_PROC. alloc_ops_of q (sy_usm s1) = alloc_policy_one"
    "length (usmMemWorkers (sy_daemon s1)) = length (usmMemWorkers (sy_daemon s))"
    using files w by (rule shipped_start [where prog = prog])
  then have p: "pool (sy_usm s') (map (se_nodes e) [0..<131072]) []" "alloc_ops_of (ev_origin ev) (sy_usm s') = alloc_policy_one"
    and l: "0 < length (usmMemWorkers (sy_daemon s'))" using s ev(2) by auto
  obtain d where d: "usm_handle_events te ev (set_umem mem (sy_daemon s')) = Some (0, ev\<lparr>ev_usmmem := m\<rparr>, d)"
    "usmMemWorkers d = usmMemWorkers (upd_channel 0 i (born m (ev_origin ev)) (set_umem mem (sy_daemon s')))"
    "sw d = upd_usm (\<lambda>u. u\<lparr>umem := wr32 (wr32 (wr32 (umem u) m 0 (ev_origin ev)) m 32 0) m 4 0\<rparr>) (sw (set_umem mem (sy_daemon s')))"
    by (rule new_thread_ok [OF ev(1) m(1), where d = "set_umem mem (sy_daemon s')" and i = i]) (use l m in auto)
  let ?d = "task_faults m vaddr d" and ?x = "se_nodes e 0"
  have c: "channel d 0 i = born m (ev_origin ev) (channel (sy_daemon s') 0 i)" "channel ?d 0 i = channel d 0 i"
    using d(2) l by (simp_all add: channel_upd_channel task_faults_def)
  have f: "fault_on ?d 0 i m vaddr"
    by (rule task_faults_fault) (use c(1) d(3) m(2) in \<open>simp_all add: born_def mem_simps\<close>)
  have u: "usm (sw ?d) = (sy_usm s')\<lparr>umem := umem (usm (sw ?d))\<rparr>" using d(3) by (simp add: task_faults_def)
  have "[0..<131072] = 0 # [1..<131072]" by (simp add: upt_rec [of 0])
  then have q: "pool (usm (sw ?d)) (?x # map (se_nodes e) [1..<131072]) []"
    using pool_same [OF p(1), of "usm (sw ?d)"] d(3) by (simp add: task_faults_def)
  have o: "ev_origin (cnl_event (channel ?d 0 i)) = ev_origin ev" using c by (simp add: born_def)
  have a: "alloc_ops_of (ev_origin (cnl_event (channel ?d 0 i))) (usm (sw ?d)) = alloc_policy_one"
    using p(2) o d(3) alloc_ops_of_keeps [of "usm (sw ?d)" "sy_usm s'"] by (simp add: task_faults_def)
  obtain mem' ev' where t: "usmSubmitAllocEvent (en_subm fe 0) (umem (usm (sw ?d))) (fault_event ?d 0 i ?x) = Some (0, mem', ev')"
    using takes [of "fault_event ?d 0 i ?x"] f by (fastforce simp: fault_event_def fault_on_def)
  have "0 < length (usmMemWorkers ?d)" using d(2) l by (simp add: task_faults_def)
  from handle_mem_pool [OF f q this a t] obtain d' where h: "usm_handle_mem fe 0 i ?d = Some (0, d')"
    "pool (usm (sw d')) (map (se_nodes e) [1..<131072]) [?x]" "pagesList (usm (sw d')) = (pagesList (usm (sw ?d)))(node_page (usm (sw ?d)) ?x :=
      (page_of ?x (usm (sw ?d)))\<lparr>pg_virtualAddress := vaddr, pg_process := ev_origin ev\<rparr>)"
    "ev_paddr (cnl_event (channel d' 0 i)) = pg_physicalAddress (page_of ?x (usm (sw ?d)))" using o by auto
  have "page_of ?x (usm (sw ?d)) = page_of ?x (sy_usm s')" "node_page (usm (sw ?d)) = node_page (sy_usm s')"
    by (subst u, simp add: page_of_def)+
  then show ?thesis using d(1) h by simp
qed

text \<open>The start of \<open>start_env0\<close>, with a thread of process 5 whose page asks for channel 0.\<close>

theorem started_daemon_serves_witness:
  "\<exists>s' d d'. daemon_main start_env0 (\<lambda>_. Some shipped_config) [''usm'', ''cfg''] system0 = Some (Some s') \<and>
    usm_handle_events env0 (ev0\<lparr>ev_type := NEW_THREAD\<rparr>) (set_umem (\<lambda>_. 0) (sy_daemon s')) = Some (0, ev0\<lparr>ev_type := NEW_THREAD, ev_usmmem := 4096\<rparr>, d) \<and>
    usm_handle_mem env0 0 0 (task_faults 4096 0x5000 d) = Some (0, d') \<and> pool (usm (sw d')) (map nodes0 [1..<131072]) [64]"
proof -
  obtain s' where s': "daemon_main start_env0 (\<lambda>_. Some shipped_config) [''usm'', ''cfg''] system0 = Some (Some s')"
    using refl start0_works(2) by (rule shipped_start [where files = "\<lambda>_. Some shipped_config" and prog = "''usm''"])
  have w: "usmMemWorkers (sy_daemon system0) \<noteq> []" by (simp add: system0_def daemon_of_def)
  have e: "ev_type (ev0\<lparr>ev_type := NEW_THREAD\<rparr>) = NEW_THREAD" "ev_origin (ev0\<lparr>ev_type := NEW_THREAD\<rparr>) < MAX_PROC"
    "en_mmap env0 = Some 4096" "(4096 :: u64) \<noteq> 0" "rd32 (\<lambda>_. 0) 4096 4000 = 0" "unat (rd32 (\<lambda>_. 0) 4096 4092) = 0" "0 < MAX_UTHREADS"
    by (simp_all add: ev0_def MAX_PROC_def env0_def rd_zero MAX_UTHREADS_def)
  have t: "\<exists>m e. usmSubmitAllocEvent (en_subm env0 0) mem ev = Some (0, m, e)" if "ev_usmmem ev = 4096" for mem ev
    using answer3_takes [OF that] by (auto simp: env0_def)
  have n: "se_nodes start_env0 = nodes0" "nodes0 0 = 64" by (simp_all add: start_env0_def nodes0_def)
  show ?thesis
    using started_daemon_serves [where files = "\<lambda>_. Some shipped_config" and vaddr = "0x5000", OF refl start0_works(2) s' w e t] s' unfolding n by auto
qed

end
